(* ===== verification/Prelude.thy ===== *)
theory Prelude
  imports Main "HOL-Library.Word"
begin

text \<open>
  Shared vocabulary of the development: the machine integer types of the Rust
  sources, the arithmetic of the standard library that the sources use
  (saturating and checked operations), and the theory of ring buffers that the
  kernel's mailboxes and the keyboard queue share.

  Lengths and array indexes (\<open>usize\<close>) are natural numbers; every other integer
  keeps its width.
\<close>

unbundle bit_operations_syntax

type_synonym u8 = "8 word"
type_synonym u16 = "16 word"
type_synonym u32 = "32 word"
type_synonym u64 = "64 word"

named_theorems ring_simps \<open>reading a ring buffer as a list\<close>

section \<open>Saturating and checked arithmetic\<close>

definition saturating_sub :: "'a::len word \<Rightarrow> 'a word \<Rightarrow> 'a word" where
  "saturating_sub a b = (if a < b then 0 else a - b)"

definition saturating_add :: "'a::len word \<Rightarrow> 'a word \<Rightarrow> 'a word" where
  "saturating_add a b = (if a + b < a then - 1 else a + b)"

definition checked_add :: "'a::len word \<Rightarrow> 'a word \<Rightarrow> 'a word option" where
  "checked_add a b = (if a + b < a then None else Some (a + b))"

definition checked_sub :: "'a::len word \<Rightarrow> 'a word \<Rightarrow> 'a word option" where
  "checked_sub a b = (if a < b then None else Some (a - b))"

lemma unat_saturating_sub: "unat (saturating_sub a b) = unat a - unat b"
  by (auto simp: saturating_sub_def word_less_nat_alt unat_sub word_le_nat_alt)

lemma word_add_wraps_iff:
  fixes a b :: "'a::len word"
  shows "a + b < a \<longleftrightarrow> 2 ^ LENGTH('a) \<le> unat a + unat b"
proof -
  have "unat a < 2 ^ LENGTH('a)" "unat b < 2 ^ LENGTH('a)" by (rule unsigned_less)+
  moreover from this have "unat a + unat b - 2 ^ LENGTH('a) < 2 ^ LENGTH('a)" by linarith
  ultimately have "(unat a + unat b) mod 2 ^ LENGTH('a) =
      (if unat a + unat b < 2 ^ LENGTH('a) then unat a + unat b
       else unat a + unat b - 2 ^ LENGTH('a))"
    by (simp add: le_mod_geq not_less)
  then show ?thesis
    using \<open>unat b < 2 ^ LENGTH('a)\<close> 
    by (auto simp: word_less_nat_alt unat_word_ariths simp del: unsigned_less)
qed

lemma unat_checked_add:
  fixes a b :: "'a::len word"
  shows "checked_add a b = Some c \<longleftrightarrow> unat a + unat b < 2 ^ LENGTH('a) \<and> c = a + b"
  by (auto simp: checked_add_def word_add_wraps_iff)

lemma unat_add_no_wrap:
  fixes a b :: "'a::len word"
  assumes "unat a + unat b < 2 ^ LENGTH('a)"
  shows "unat (a + b) = unat a + unat b"
  using assms by (simp add: unat_word_ariths)

lemma checked_add_unat:
  "checked_add a b = Some c \<Longrightarrow> unat c = unat a + unat b"
  by (auto simp: unat_checked_add unat_add_no_wrap)

section \<open>Lists\<close>

lemma map_upt_add: "map f [0..<m + n] = map f [0..<m] @ map (\<lambda>k. f (m + k)) [0..<n]"
  by (induction n) auto

section \<open>Bitwise facts\<close>

lemma xor_cancel_right: "a XOR c = b XOR c \<longleftrightarrow> a = b" for a b c :: "'a::len word"
  by (metis xor.assoc xor_self_eq xor.right_neutral)

lemma xor_cancel_left: "c XOR a = c XOR b \<longleftrightarrow> a = b" for a b c :: "'a::len word"
  by (metis xor.assoc xor_self_eq xor.left_neutral)

lemma ucast_up_inj:
  fixes x y :: "'a::len word"
  assumes "LENGTH('a) \<le> LENGTH('b::len)"
  shows "(ucast x :: 'b word) = ucast y \<longleftrightarrow> x = y"
proof
  assume e: "(ucast x :: 'b word) = ucast y"
  show "x = y"
  proof (rule bit_word_eqI)
    fix n assume "n < LENGTH('a)"
    moreover have "bit (ucast x :: 'b word) n = bit (ucast y :: 'b word) n" using e by simp
    ultimately show "bit x n = bit y n" using assms by (simp add: bit_ucast_iff)
  qed
qed simp

section \<open>Splitting a byte string\<close>

text \<open>\<open>slice::split\<close> at every occurrence of a byte: one part more than there are occurrences.\<close>

fun split_on :: "'a \<Rightarrow> 'a list \<Rightarrow> 'a list list" where
  "split_on c [] = [[]]"
| "split_on c (b # bs) =
     (if b = c then [] # split_on c bs
      else case split_on c bs of p # ps \<Rightarrow> (b # p) # ps | [] \<Rightarrow> [[b]])"

lemma split_on_ne [simp]: "split_on c xs \<noteq> []"
  by (induction xs) (auto split: list.splits)

lemma split_on_part: "c \<notin> set l \<Longrightarrow> split_on c (l @ c # bs) = l # split_on c bs"
  by (induction l) auto

lemma split_on_none: "c \<notin> set l \<Longrightarrow> split_on c l = [l]"
  by (induction l) auto

text \<open>The first part runs to the first occurrence, as \<open>position\<close> finds it.\<close>

lemma split_on_first:
  assumes "n = length (takeWhile (\<lambda>x. x \<noteq> c) xs)"
  shows "split_on c xs = take n xs # (if n < length xs then split_on c (drop (Suc n) xs) else [])"
proof -
  have tw: "take n xs = takeWhile (\<lambda>x. x \<noteq> c) xs" by (simp add: assms flip: takeWhile_eq_take)
  have nc: "c \<notin> set (take n xs)" unfolding tw by (auto dest: set_takeWhileD)
  show ?thesis
  proof (cases "n < length xs")
    case True
    then have "xs ! n = c" using nth_length_takeWhile [of "\<lambda>x. x \<noteq> c" xs] assms by simp
    then have "xs = take n xs @ c # drop (Suc n) xs" using True by (metis id_take_nth_drop)
    then have "split_on c xs = split_on c (take n xs @ c # drop (Suc n) xs)" by simp
    then show ?thesis using True split_on_part [OF nc] by simp
  next
    case False
    then have "take n xs = xs" by simp
    then show ?thesis using False nc by (simp add: split_on_none)
  qed
qed

section \<open>Ring buffers\<close>

text \<open>
  A ring of fixed capacity: the storage, the index of the oldest element and the
  number of elements. \<open>ring_list\<close> is the queue it stands for, oldest first.
\<close>

definition ring_list :: "'a list \<Rightarrow> nat \<Rightarrow> nat \<Rightarrow> 'a list" where
  "ring_list buf h n = map (\<lambda>i. buf ! ((h + i) mod length buf)) [0..<n]"

lemma ring_list_0 [ring_simps]: "ring_list buf h 0 = []"
  by (simp add: ring_list_def)

lemma length_ring_list [ring_simps]: "length (ring_list buf h n) = n"
  by (simp add: ring_list_def)

lemma ring_list_Nil_iff [ring_simps]: "ring_list buf h n = [] \<longleftrightarrow> n = 0"
  by (simp add: ring_list_def)

lemma nth_ring_list:
  "i < n \<Longrightarrow> ring_list buf h n ! i = buf ! ((h + i) mod length buf)"
  by (simp add: ring_list_def)

text \<open>The index written by a push is none of the indexes in use.\<close>

lemma ring_slot_fresh:
  fixes c :: nat
  assumes "n < c" "i < n"
  shows "(h + i) mod c \<noteq> (h + n) mod c"
proof
  assume "(h + i) mod c = (h + n) mod c"
  moreover have "h + i \<le> h + n" using assms by simp
  ultimately have "c dvd (h + n) - (h + i)" by (metis mod_eq_dvd_iff_nat)
  then have "c dvd n - i" by simp
  moreover have "0 < n - i" "n - i < c" using assms by auto
  ultimately show False using dvd_imp_le not_le by blast
qed

lemma ring_list_push [ring_simps]:
  assumes "n < length buf"
  shows "ring_list (buf[(h + n) mod length buf := x]) h (Suc n) = ring_list buf h n @ [x]"
proof -
  have lt: "(h + n) mod length buf < length buf" using assms by (intro mod_less_divisor) linarith
  have "ring_list (buf[(h + n) mod length buf := x]) h n = ring_list buf h n"
    unfolding ring_list_def
    using assms by (auto intro!: nth_list_update_neq dest: ring_slot_fresh [where h = h])
  then show ?thesis using lt by (simp add: ring_list_def)
qed

lemma ring_list_pop [ring_simps]:
  "ring_list buf ((h + 1) mod length buf) n = tl (ring_list buf h (Suc n))"
proof (intro nth_equalityI)
  fix i assume "i < length (ring_list buf ((h + 1) mod length buf) n)"
  then have "i < n" by (simp add: ring_simps)
  moreover have "((h + 1) mod length buf + i) mod length buf = (h + Suc i) mod length buf"
    by (metis add_Suc_right add_Suc add.commute mod_add_left_eq plus_1_eq_Suc)
  ultimately show "ring_list buf ((h + 1) mod length buf) n ! i =
      tl (ring_list buf h (Suc n)) ! i"
    by (simp add: nth_tl ring_simps nth_ring_list)
qed (simp add: ring_simps)

lemma ring_list_hd [ring_simps]:
  "0 < n \<Longrightarrow> h < length buf \<Longrightarrow> buf ! h = hd (ring_list buf h n)"
  by (simp add: ring_list_def hd_map)

lemma ring_list_take [ring_simps]:
  "m \<le> n \<Longrightarrow> take m (ring_list buf h n) = ring_list buf h m"
  by (intro nth_equalityI) (auto simp: ring_list_def)

section \<open>The interface of a queue that is read from the front\<close>

text \<open>
  What a reader of a FIFO relies on: \<open>deq\<close> answers with the front element of the
  abstract queue and leaves the rest, and answers nothing exactly when the queue
  is empty. The keyboard queue and the task mailboxes both promise it.
\<close>

locale fifo_reader =
  fixes wf :: "'s \<Rightarrow> bool"
    and items :: "'s \<Rightarrow> 'a list"
    and deq :: "'s \<Rightarrow> ('a option \<times> 's)"
  assumes deq_empty: "wf s \<Longrightarrow> items s = [] \<Longrightarrow> deq s = (None, s)"
    and deq_front: "wf s \<Longrightarrow> items s = x # xs \<Longrightarrow>
      \<exists>s'. deq s = (Some x, s') \<and> wf s' \<and> items s' = xs"
begin

text \<open>Reading \<open>n\<close> times in a row.\<close>

primrec drain :: "nat \<Rightarrow> 's \<Rightarrow> 'a list \<times> 's" where
  "drain 0 s = ([], s)"
| "drain (Suc n) s =
     (case deq s of (None, s') \<Rightarrow> ([], s')
      | (Some x, s') \<Rightarrow> (case drain n s' of (ys, s'') \<Rightarrow> (x # ys, s'')))"

lemma drain_in_order:
  "wf s \<Longrightarrow> \<exists>s'. drain n s = (take n (items s), s') \<and> wf s' \<and> items s' = drop n (items s)"
proof (induction n arbitrary: s)
  case 0
  then show ?case by simp
next
  case (Suc n)
  show ?case
  proof (cases "items s")
    case Nil
    then show ?thesis using Suc.prems deq_empty by auto
  next
    case (Cons x xs)
    then obtain s1 where s1: "deq s = (Some x, s1)" "wf s1" "items s1 = xs"
      using deq_front Suc.prems by blast
    then obtain s2 where "drain n s1 = (take n xs, s2)" "wf s2" "items s2 = drop n xs"
      using Suc.IH by blast
    then show ?thesis using s1 Cons by auto
  qed
qed

lemma deq_None_iff: "wf s \<Longrightarrow> fst (deq s) = None \<longleftrightarrow> items s = []"
  using deq_empty deq_front by (cases "items s") (auto, metis fst_conv option.distinct(1))

end

end
