(* ===== verification/Ninep_Readdir.thy ===== *)
theory Ninep_Readdir
  imports Prelude
begin

text \<open>
  Directory listing over the file protocol (\<open>src/ninep-abi/src/lib.rs\<close>): the client's
  paging loop \<open>readdir_pages\<close> and the server's half of the rule, \<open>ReaddirFill\<close>. The
  client is parameterised by the two closures it is given; the lemmas put the
  two halves together.
\<close>

section \<open>Model\<close>

subsection \<open>The client\<close>

definition NL :: u8 where "NL = 0x0a"

definition readdir_next :: "u64 \<Rightarrow> u8 list \<Rightarrow> u64 option" where
  "readdir_next start page =
     (if page = [] then None
      else Some (start + of_nat (length (filter (\<lambda>b. b = NL) page))))"

definition READDIR_PAGE :: nat where "READDIR_PAGE = 512"

definition READDIR_PAST_END :: u64 where "READDIR_PAST_END = 0xffffffff"

datatype readdir_end = Complete | Stopped | OldServer | Broken

text \<open>The inner \<open>for\<close>: each non-empty line is given to the caller's \<open>entry\<close>, whose state is
  threaded; the flag is off once it asked to stop.\<close>

fun give_lines :: "('e \<Rightarrow> u8 list \<Rightarrow> 'e \<times> bool) \<Rightarrow> 'e \<Rightarrow> u8 list list \<Rightarrow> 'e \<times> bool" where
  "give_lines entry e [] = (e, True)"
| "give_lines entry e (l # ls) =
     (if l = [] then give_lines entry e ls
      else case entry e l of (e1, go) \<Rightarrow> if go then give_lines entry e1 ls else (e1, False))"

text \<open>
  The loop. \<open>fetch st start\<close> answers the server's error code, or the byte count it
  reports and the page buffer after the call, and its own next state. The result is
  \<open>None\<close> when the fuel runs out, else the states of both closures and the outcome.
\<close>

fun readdir_loop ::
  "nat \<Rightarrow> nat \<Rightarrow> ('s \<Rightarrow> u64 \<Rightarrow> 's \<times> (u64 + nat \<times> u8 list)) \<Rightarrow> ('e \<Rightarrow> u8 list \<Rightarrow> 'e \<times> bool) \<Rightarrow>
   's \<Rightarrow> 'e \<Rightarrow> u64 \<Rightarrow> bool \<Rightarrow> ('s \<times> 'e \<times> (u64 + readdir_end)) option" where
  "readdir_loop 0 plen fetch entry st e start paging = None"
| "readdir_loop (Suc fuel) plen fetch entry st e start paging =
     (case fetch st start of
        (st1, Inl err) \<Rightarrow> Some (st1, e, Inl err)
      | (st1, Inr (k, page)) \<Rightarrow>
          let n = min k plen in
          case readdir_next start (take n page) of
            None \<Rightarrow> Some (st1, e, Inr Complete)
          | Some next_start \<Rightarrow>
              if next_start = start then Some (st1, e, Inr Broken)
              else
                let asked = (if 0 < start \<and> \<not> paging
                             then (case fetch st1 READDIR_PAST_END of
                                     (st2, Inl err) \<Rightarrow> (st2, Some (Inl err))
                                   | (st2, Inr (k2, _)) \<Rightarrow>
                                       (st2, if 0 < k2 then Some (Inr OldServer) else None))
                             else (st1, None));
                    paging1 = (0 < start \<or> paging)
                in case asked of
                     (st3, Some outcome) \<Rightarrow> Some (st3, e, outcome)
                   | (st3, None) \<Rightarrow>
                       (case give_lines entry e (split_on NL (take n page)) of
                          (e1, False) \<Rightarrow> Some (st3, e1, Inr Stopped)
                        | (e1, True) \<Rightarrow>
                            readdir_loop fuel plen fetch entry st3 e1 next_start paging1))"

definition readdir_pages ::
  "nat \<Rightarrow> nat \<Rightarrow> ('s \<Rightarrow> u64 \<Rightarrow> 's \<times> (u64 + nat \<times> u8 list)) \<Rightarrow> ('e \<Rightarrow> u8 list \<Rightarrow> 'e \<times> bool) \<Rightarrow>
   's \<Rightarrow> 'e \<Rightarrow> ('s \<times> 'e \<times> (u64 + readdir_end)) option" where
  "readdir_pages fuel plen fetch entry st e = readdir_loop fuel plen fetch entry st e 0 False"

subsection \<open>The server\<close>

record readdir_fill =
  rf_out :: "u8 list"
  rf_start :: u64
  rf_index :: u64
  rf_written :: nat
  rf_full :: bool
  rf_too_long :: bool

definition fill_new :: "u8 list \<Rightarrow> u64 \<Rightarrow> readdir_fill" where
  "fill_new out start =
     \<lparr>rf_out = out, rf_start = start, rf_index = 0, rf_written = 0, rf_full = False,
      rf_too_long = False\<rparr>"

text \<open>\<open>out[at..at + len].copy_from_slice(src)\<close>.\<close>

definition splice :: "'a list \<Rightarrow> nat \<Rightarrow> 'a list \<Rightarrow> 'a list" where
  "splice out at src = take at out @ src @ drop (at + length src) out"

text \<open>The flag is \<open>ControlFlow::Break\<close>.\<close>

definition fill_push :: "readdir_fill \<Rightarrow> u8 list \<Rightarrow> u8 list \<Rightarrow> readdir_fill \<times> bool" where
  "fill_push f0 name suffix =
     (let here = rf_index f0;
          f = f0\<lparr>rf_index := rf_index f0 + 1\<rparr>
      in if rf_full f then (f, True)
         else if here < rf_start f then (f, False)
         else
           let w = rf_written f;
               len = length name + length suffix
           in if w + len > length (rf_out f)
              then (f\<lparr>rf_full := True, rf_too_long := (w = 0)\<rparr>, True)
              else
                let out1 = splice (rf_out f) w name;
                    out2 = splice out1 (w + length name) suffix;
                    f1 = f\<lparr>rf_out := out2, rf_written := w + len\<rparr>
                in if rf_written f1 = length (rf_out f1) then (f1\<lparr>rf_full := True\<rparr>, True)
                   else (f1, False))"

definition fill_finish :: "readdir_fill \<Rightarrow> nat option" where
  "fill_finish f = (if rf_too_long f then None else Some (rf_written f))"

text \<open>A server's walk: every entry in order, until \<open>push\<close> breaks.\<close>

fun fill_walk :: "readdir_fill \<Rightarrow> (u8 list \<times> u8 list) list \<Rightarrow> readdir_fill" where
  "fill_walk f [] = f"
| "fill_walk f ((name, suffix) # es) =
     (case fill_push f name suffix of (f1, brk) \<Rightarrow> if brk then f1 else fill_walk f1 es)"

section \<open>The page a walk fills\<close>

text \<open>The lines that fit: as many from the front as the window takes, whole.\<close>

fun fitting :: "nat \<Rightarrow> 'a list list \<Rightarrow> 'a list list" where
  "fitting c [] = []"
| "fitting c (l # ls) = (if length l \<le> c then l # fitting (c - length l) ls else [])"

definition lines_of :: "(u8 list \<times> u8 list) list \<Rightarrow> u8 list list" where
  "lines_of es = map (\<lambda>(n, s). n @ s) es"

definition page_of :: "readdir_fill \<Rightarrow> u8 list" where
  "page_of f = take (rf_written f) (rf_out f)"

lemma length_splice [simp]:
  "at + length src \<le> length out \<Longrightarrow> length (splice out at src) = length out"
  by (simp add: splice_def)

lemma take_splice:
  "at + length src \<le> length out \<Longrightarrow> take (at + length src) (splice out at src) = take at out @ src"
  by (simp add: splice_def)

lemma fitting_prefix: "fitting c ls = take (length (fitting c ls)) ls"
  by (induction c ls rule: fitting.induct) auto

lemma fitting_length: "length (concat (fitting c ls)) \<le> c"
  by (induction c ls rule: fitting.induct) auto

lemma fitting_none: "\<forall>l\<in>set ls. l \<noteq> [] \<Longrightarrow> fitting 0 ls = []"
  by (cases ls) auto

lemma of_nat_less_u64: "i < 2 ^ 64 \<Longrightarrow> s < 2 ^ 64 \<Longrightarrow> (of_nat i :: u64) < of_nat s \<longleftrightarrow> i < s"
  by (simp add: word_less_nat_alt unat_of_nat)

text \<open>A walk from any point: what it adds to the page, and when it refuses.\<close>

lemma fill_walk_page:
  assumes "\<not> rf_full f" "\<not> rf_too_long f" "rf_index f = of_nat i" "rf_start f = of_nat s"
    and "i + length es < 2 ^ 64" "s < 2 ^ 64" "rf_written f \<le> length (rf_out f)"
    and "\<forall>l\<in>set (lines_of es). l \<noteq> []"
    and "c = length (rf_out f) - rf_written f" "rem = drop (s - i) (lines_of es)"
  shows "page_of (fill_walk f es) = page_of f @ concat (fitting c rem) \<and>
    rf_written (fill_walk f es) = rf_written f + length (concat (fitting c rem)) \<and>
    length (rf_out (fill_walk f es)) = length (rf_out f) \<and>
    (rf_too_long (fill_walk f es) \<longleftrightarrow> rf_written f = 0 \<and> rem \<noteq> [] \<and> c < length (hd rem))"
  using assms
proof (induction es arbitrary: f i c rem)
  case Nil
  then show ?case by (simp add: lines_of_def)
next
  case (Cons e es)
  obtain n sf where e: "e = (n, sf)" by (cases e)
  let ?l = "n @ sf" and ?w = "rf_written f" and ?f = "f\<lparr>rf_index := rf_index f + 1\<rparr>"
  have lines: "lines_of (e # es) = ?l # lines_of es" by (simp add: lines_of_def e)
  have lt: "rf_index f < rf_start f \<longleftrightarrow> i < s"
    using Cons.prems by (simp add: of_nat_less_u64)
  have ix: "rf_index f + 1 = of_nat (Suc i)" using Cons.prems by simp
  consider "i < s" | "s \<le> i" "c < length ?l" | "s \<le> i" "length ?l = c" | "s \<le> i" "length ?l < c"
    by linarith
  then show ?case
  proof cases
    case 1
    have "fill_walk f (e # es) = fill_walk ?f es"
      using 1 Cons.prems lt by (simp add: e fill_push_def Let_def)
    moreover have "rem = drop (s - Suc i) (lines_of es)"
      using 1 Cons.prems(10) by (simp add: lines Suc_diff_Suc drop_Cons')
    moreover have "page_of ?f = page_of f" by (simp add: page_of_def)
    ultimately show ?thesis
      using Cons.IH [of ?f "Suc i" c rem] Cons.prems(1-9) ix by (simp add: lines)
  next
    case 2
    let ?g = "?f\<lparr>rf_full := True, rf_too_long := (?w = 0)\<rparr>"
    have "length (rf_out f) < ?w + (length n + length sf)" using 2 Cons.prems(7,9) by simp
    then have "fill_push f n sf = (?g, True)"
      using 2 Cons.prems(1) lt by (simp add: fill_push_def Let_def)
    then have "fill_walk f (e # es) = ?g" by (simp add: e)
    moreover have "rem = ?l # lines_of es" using 2 Cons.prems(10) lines by simp
    moreover have "page_of ?g = page_of f" by (simp add: page_of_def)
    ultimately show ?thesis using 2 Cons.prems(2) by simp
  next
    case 3
    let ?out = "splice (splice (rf_out f) ?w n) (?w + length n) sf"
    let ?g = "?f\<lparr>rf_out := ?out, rf_written := ?w + (length n + length sf), rf_full := True\<rparr>"
    have le: "?w + length n \<le> length (rf_out f)" "?w + length n + length sf = length (rf_out f)"
      using 3 Cons.prems(7,9) by auto
    then have "fill_push f n sf = (?g, True)"
      using 3 Cons.prems(1) lt by (simp add: fill_push_def Let_def)
    then have "fill_walk f (e # es) = ?g" by (simp add: e)
    moreover have "page_of ?g = page_of f @ ?l"
      using le take_splice [of ?w n "rf_out f"] by (simp add: page_of_def splice_def)
    moreover have "rem = ?l # lines_of es" using 3 Cons.prems(10) lines by simp
    moreover have "fitting 0 (lines_of es) = []" using Cons.prems(8) lines by (simp add: fitting_none)
    ultimately show ?thesis using 3 Cons.prems(2) le by simp
  next
    case 4
    let ?out = "splice (splice (rf_out f) ?w n) (?w + length n) sf"
    let ?f2 = "?f\<lparr>rf_out := ?out, rf_written := ?w + (length n + length sf)\<rparr>"
    have le: "?w + length n \<le> length (rf_out f)" "?w + length n + length sf < length (rf_out f)"
      using 4 Cons.prems by auto
    then have lo: "length ?out = length (rf_out f)" by simp
    have "fill_walk f (e # es) = fill_walk ?f2 es"
      using 4 Cons.prems lt le lo by (simp add: e fill_push_def Let_def)
    moreover have "page_of ?f2 = page_of f @ ?l"
      using le take_splice [of ?w n "rf_out f"] by (simp add: page_of_def splice_def)
    ultimately show ?thesis
      using Cons.IH [of ?f2 "Suc i" "c - length ?l" "lines_of es"] Cons.prems 4 ix le lo
      by (auto simp: lines)
  qed
qed

lemma fill_page:
  assumes "\<forall>l\<in>set (lines_of es). l \<noteq> []" "length es < 2 ^ 64" "s < 2 ^ 64"
    and f: "f = fill_walk (fill_new out (of_nat s)) es" and r: "rem = drop s (lines_of es)"
  shows "page_of f = concat (fitting (length out) rem) \<and>
    rf_written f = length (concat (fitting (length out) rem)) \<and>
    length (rf_out f) = length out \<and>
    (rf_too_long f \<longleftrightarrow> rem \<noteq> [] \<and> length out < length (hd rem))"
proof -
  let ?f = "fill_new out (of_nat s)"
  have "page_of ?f = []" "rf_written ?f = 0" "rf_out ?f = out"
    by (simp_all add: fill_new_def page_of_def)
  moreover have "page_of f = page_of ?f @ concat (fitting (length out) rem) \<and>
      rf_written f = rf_written ?f + length (concat (fitting (length out) rem)) \<and>
      length (rf_out f) = length (rf_out ?f) \<and>
      (rf_too_long f \<longleftrightarrow> rf_written ?f = 0 \<and> rem \<noteq> [] \<and> length out < length (hd rem))"
    unfolding f by (rule fill_walk_page [where i = 0]) (use assms(1-3) r in \<open>simp_all add: fill_new_def\<close>)
  ultimately show ?thesis by simp
qed

section \<open>A whole listing\<close>

text \<open>An entry as the protocol has it: a name without a newline, and the suffix of its kind.\<close>

definition entry_ok :: "nat \<Rightarrow> u8 list \<times> u8 list \<Rightarrow> bool" where
  "entry_ok plen e \<longleftrightarrow> fst e \<noteq> [] \<and> NL \<notin> set (fst e) \<and> (snd e = [NL] \<or> snd e = [0x2f, NL]) \<and>
     length (fst e) + length (snd e) \<le> plen"

text \<open>What the caller is given for it.\<close>

definition shown :: "u8 list \<times> u8 list \<Rightarrow> u8 list" where
  "shown e = fst e @ butlast (snd e)"

definition collect :: "u8 list list \<Rightarrow> u8 list \<Rightarrow> u8 list list \<times> bool" where
  "collect acc l = (acc @ [l], True)"

text \<open>A server over a directory that does not change, with a window of \<open>plen\<close> bytes; \<open>err\<close> is
  the code it refuses an entry too long for the window with.\<close>

definition serve :: "nat \<Rightarrow> u64 \<Rightarrow> (u8 list \<times> u8 list) list \<Rightarrow> unit \<Rightarrow> u64 \<Rightarrow>
    unit \<times> (u64 + nat \<times> u8 list)" where
  "serve plen err es st start =
     (let f = fill_walk (fill_new (replicate plen 0) start) es
      in ((), case fill_finish f of None \<Rightarrow> Inl err | Some n \<Rightarrow> Inr (n, rf_out f)))"

lemma line_of_ok:
  "entry_ok plen e \<Longrightarrow> fst e @ snd e = shown e @ [NL] \<and> NL \<notin> set (shown e) \<and> shown e \<noteq> [] \<and>
     length (shown e) + 1 \<le> plen"
  by (cases e) (auto simp: entry_ok_def shown_def NL_def)

lemma split_on_lines:
  "\<forall>l\<in>set ls. NL \<notin> set l \<Longrightarrow> split_on NL (concat (map (\<lambda>l. l @ [NL]) ls)) = ls @ [[]]"
  by (induction ls) (auto simp: split_on_part)

lemma count_nl_lines:
  "\<forall>l\<in>set ls. NL \<notin> set l \<Longrightarrow>
     length (filter (\<lambda>b. b = NL) (concat (map (\<lambda>l. l @ [NL]) ls))) = length ls"
proof (induction ls)
  case (Cons l ls)
  then have "filter (\<lambda>b. b = NL) l = []" by (auto simp: filter_empty_conv)
  then show ?case using Cons by simp
qed simp

lemma give_lines_collect:
  "\<forall>l\<in>set ls. l \<noteq> [] \<Longrightarrow> give_lines collect acc (ls @ [[]]) = (acc @ ls, True)"
  by (induction ls arbitrary: acc) (auto simp: collect_def)

text \<open>One answer of the server: from entry \<open>i\<close> on, the entries that fit, or the end.\<close>

lemma lines_of_shown:
  "\<forall>e\<in>set es. entry_ok plen e \<Longrightarrow> lines_of es = map (\<lambda>l. l @ [NL]) (map shown es)"
  by (induction es) (auto simp: lines_of_def dest!: line_of_ok)

lemma fitting_first:
  "ls \<noteq> [] \<Longrightarrow> length (hd ls) \<le> c \<Longrightarrow> fitting c ls \<noteq> []"
  by (cases ls) auto

lemma serve_page:
  assumes ok: "\<forall>e\<in>set es. entry_ok plen e" and "length es < 2 ^ 64" "i < 2 ^ 64"
  obtains k n page where "serve plen err es st (of_nat i) = ((), Inr (n, page))"
    and "k \<le> length es - i" and "i < length es \<longleftrightarrow> 0 < k" and "n \<le> plen"
    and "take n page = concat (map (\<lambda>l. l @ [NL]) (map shown (take k (drop i es))))"
    and "n = length (take n page)"
proof -
  define f where "f = fill_walk (fill_new (replicate plen 0) (of_nat i)) es"
  define rem where "rem = drop i (lines_of es)"
  define k where "k = length (fitting plen rem)"
  have ne: "\<forall>l\<in>set (lines_of es). l \<noteq> []"
    using ok by (auto simp: lines_of_shown)
  have sz: "\<forall>l\<in>set (lines_of es). length l \<le> plen"
    using line_of_ok [OF bspec [OF ok]] by (auto simp: lines_of_shown [OF ok])
  have len: "length (lines_of es) = length es" by (simp add: lines_of_def)
  have first: "rem \<noteq> [] \<Longrightarrow> length (hd rem) \<le> plen"
    using sz by (metis rem_def hd_in_set in_set_dropD)
  have page: "page_of f = concat (fitting plen rem)" "rf_written f = length (concat (fitting plen rem))"
    "\<not> rf_too_long f"
    using fill_page [OF ne assms(2,3) f_def rem_def] first by auto
  have "take k (drop i (lines_of es)) = fitting plen rem"
    unfolding k_def rem_def [symmetric] by (metis fitting_prefix)
  then have "page_of f = concat (map (\<lambda>l. l @ [NL]) (map shown (take k (drop i es))))"
    using page(1) ok by (simp add: lines_of_shown take_map drop_map)
  moreover have "serve plen err es st (of_nat i) = ((), Inr (rf_written f, rf_out f))"
    using page(3) by (simp add: serve_def fill_finish_def f_def Let_def)
  moreover have "k \<le> length es - i"
    using arg_cong [OF fitting_prefix [of plen rem], of length] len by (simp add: k_def rem_def)
  moreover have "i < length es \<longleftrightarrow> 0 < k"
    using first fitting_first [of rem plen] len unfolding k_def rem_def by (cases "i < length es") auto
  moreover have "rf_written f \<le> plen" using page(2) fitting_length by metis
  moreover have "rf_written f = length (page_of f)" using page(1,2) by simp
  ultimately show thesis using that unfolding page_of_def by blast
qed

lemma serve_past_end:
  assumes "\<forall>e\<in>set es. entry_ok plen e" "length es < 2 ^ 32 - 1"
  shows "\<exists>page. serve plen err es st READDIR_PAST_END = ((), Inr (0, page))"
proof -
  have "(READDIR_PAST_END :: u64) = of_nat (2 ^ 32 - 1)" by (simp add: READDIR_PAST_END_def)
  moreover have "\<exists>page. serve plen err es st (of_nat (2 ^ 32 - 1)) = ((), Inr (0, page))"
  proof (rule serve_page [OF assms(1), where i = "2 ^ 32 - 1" and err = err and st = st])
    show "length es < 2 ^ 64" "(2 ^ 32 - 1 :: nat) < 2 ^ 64" using assms(2) by auto
  next
    fix k n page
    assume "serve plen err es st (of_nat (2 ^ 32 - 1)) = ((), Inr (n, page))"
      "k \<le> length es - (2 ^ 32 - 1)"
      "take n page = concat (map (\<lambda>l. l @ [NL]) (map shown (take k (drop (2 ^ 32 - 1) es))))"
      "n = length (take n page)"
    then show ?thesis using assms(2) by auto
  qed
  ultimately show ?thesis by metis
qed

lemma u64_step:
  assumes "0 < k" "i + k < 2 ^ 64"
  shows "(of_nat i :: u64) + of_nat k \<noteq> of_nat i" "(of_nat i :: u64) + of_nat k = of_nat (i + k)"
proof -
  have "(of_nat k :: u64) \<noteq> 0" using assms by (simp add: of_nat_eq_0_iff unat_eq_zero [symmetric] unat_of_nat)
  then show "(of_nat i :: u64) + of_nat k \<noteq> of_nat i" by simp
qed simp

text \<open>The loop from entry \<open>i\<close> on: each round gives the caller a page and moves past it.\<close>

lemma readdir_loop_rest:
  assumes ok: "\<forall>e\<in>set es. entry_ok plen e" and len: "length es < 2 ^ 32 - 1"
    and "i \<le> length es" "length es - i < fuel"
  shows "readdir_loop fuel plen (serve plen err es) collect st acc (of_nat i) paging =
    Some ((), acc @ map shown (drop i es), Inr Complete)"
  using assms(3,4)
proof (induction fuel arbitrary: i acc paging)
  case (Suc fuel)
  have big: "length es < 2 ^ 64" "i < 2 ^ 64" using len Suc.prems by auto
  obtain k n page where sv: "serve plen err es st (of_nat i) = ((), Inr (n, page))"
    and k: "k \<le> length es - i" "i < length es \<longleftrightarrow> 0 < k" and n: "n \<le> plen" "n = length (take n page)"
    and pg: "take n page = concat (map (\<lambda>l. l @ [NL]) (map shown (take k (drop i es))))"
    using serve_page [OF ok big] by metis
  obtain pe where past: "serve plen err es () READDIR_PAST_END = ((), Inr (0, pe))"
    using serve_past_end [OF ok len] by metis
  have min: "min n plen = n" using n by simp
  show ?case
  proof (cases "k = 0")
    case True
    then have e: "take n page = []" "drop i es = []" using pg k Suc.prems by auto
    have "readdir_next (of_nat i) (take n page) = None" by (simp only: e readdir_next_def simp_thms if_True)
    then show ?thesis using sv min e(2) by (simp add: Let_def)
  next
    case False
    let ?ls = "map shown (take k (drop i es))"
    have ls: "\<forall>l\<in>set ?ls. NL \<notin> set l" "\<forall>l\<in>set ?ls. l \<noteq> []" "length ?ls = k"
      using line_of_ok [OF bspec [OF ok]] k by (auto dest!: in_set_takeD in_set_dropD)
    have ne: "take n page \<noteq> []" using pg ls(3) False by (cases ?ls) auto
    have next1: "readdir_next (of_nat i) (take n page) = Some (of_nat i + of_nat k)"
      using ne by (simp only: readdir_next_def if_False pg count_nl_lines [OF ls(1)] ls(3))
    have "0 < k" "i + k < 2 ^ 64" using False k(1) big(1) Suc.prems(1) by linarith+
    note step = u64_step [OF this]
    have given: "give_lines collect acc (split_on NL (take n page)) = (acc @ ?ls, True)"
      unfolding pg split_on_lines [OF ls(1)] by (rule give_lines_collect [OF ls(2)])
    have "readdir_loop fuel plen (serve plen err es) collect st (acc @ ?ls) (of_nat i + of_nat k) paging' =
        Some ((), (acc @ ?ls) @ map shown (drop (i + k) es), Inr Complete)" for paging'
      unfolding step(2) by (rule Suc.IH) (use k False Suc.prems in linarith)+
    moreover have "drop (i + k) es = drop k (drop i es)" by (simp add: add.commute)
    then have "?ls @ map shown (drop (i + k) es) = map shown (drop i es)"
      by (simp only: append_take_drop_id flip: map_append)
    ultimately show ?thesis
      using sv past step(1) by (simp add: min next1 given Let_def)
  qed
qed simp

text \<open>(C9) A listing is complete: against a server that fills its pages by the same rule from a
  directory of fewer than \<open>2 ^ 32 - 1\<close> entries that each fit a page, the client's loop ends, with
  \<open>Complete\<close>, having given its caller every entry exactly once and in the directory's order.\<close>

theorem listing_complete:
  assumes "\<forall>e\<in>set es. entry_ok plen e" and "length es < 2 ^ 32 - 1" and "length es < fuel"
  shows "readdir_pages fuel plen (serve plen err es) collect () [] =
    Some ((), map shown es, Inr Complete)"
  using readdir_loop_rest [OF assms(1,2), of 0 fuel err "()" "[]" False] assms(3)
  by (simp add: readdir_pages_def)

definition sample_dir :: "(u8 list \<times> u8 list) list" where
  "sample_dir = [([0x61], [NL]), ([0x62], [0x2f, NL]), ([0x63], [NL])]"

theorem listing_complete_witness:
  "readdir_pages 4 4 (serve 4 1 sample_dir) collect () [] =
     Some ((), [[0x61], [0x62, 0x2f], [0x63]], Inr Complete)"
  using listing_complete [of sample_dir 4 4 1]
  by (simp add: sample_dir_def entry_ok_def shown_def NL_def)

section \<open>A server from before paging\<close>

text \<open>A server that ignores the start: every answer is the same page.\<close>

definition serve_old :: "u8 list \<Rightarrow> unit \<Rightarrow> u64 \<Rightarrow> unit \<times> (u64 + nat \<times> u8 list)" where
  "serve_old page st start = ((), Inr (length page, page))"

text \<open>(C23) Against a server that answers page one whatever it is asked, the client gives its caller
  the entries of that page once and reports \<open>OldServer\<close>; it never loops on the repeated page.\<close>

theorem listing_old_server:
  assumes "ls \<noteq> []" "\<forall>l\<in>set ls. l \<noteq> [] \<and> NL \<notin> set l" "length ls < 2 ^ 63"
    and "page = concat (map (\<lambda>l. l @ [NL]) ls)" "length page \<le> plen"
  shows "readdir_pages (Suc (Suc fuel)) plen (serve_old page) collect () [] =
    Some ((), ls, Inr OldServer)"
proof -
  have ls: "\<forall>l\<in>set ls. NL \<notin> set l" "\<forall>l\<in>set ls. l \<noteq> []" using assms by auto
  have ne: "page \<noteq> []" using assms(1,4) by (cases ls) auto
  have nx: "readdir_next start page = Some (start + of_nat (length ls))" for start
    using ne count_nl_lines [OF ls(1)] by (simp add: readdir_next_def assms(4))
  have s1: "(of_nat 0 :: u64) + of_nat (length ls) \<noteq> of_nat 0"
    using assms(1,3) by (intro u64_step) auto
  have s2: "(of_nat (length ls) :: u64) + of_nat (length ls) \<noteq> of_nat (length ls)"
    using assms(1,3) by (intro u64_step) auto
  have gv: "give_lines collect [] (split_on NL page) = (ls, True)"
    using give_lines_collect [OF ls(2), of "[]"] by (simp add: assms(4) split_on_lines [OF ls(1)])
  have "(0 :: u64) < of_nat (length ls)" using s1 by (simp add: word_neq_0_conv)
  then show ?thesis
    using assms(5) s1 s2 ne
    by (simp add: readdir_pages_def serve_old_def nx gv min_absorb1 Let_def)
qed

theorem listing_old_server_witness:
  "readdir_pages (Suc (Suc 0)) 512 (serve_old [0x61, NL, 0x62, NL]) collect () [] =
     Some ((), [[0x61], [0x62]], Inr OldServer)"
  using listing_old_server [of "[[0x61], [0x62]]" "[0x61, NL, 0x62, NL]" 512 0]
  by (simp add: NL_def)

end
