(* ===== verification/Ninep_Names.thy ===== *)
theory Ninep_Names
  imports Prelude
begin

text \<open>
  Names and identities of the file protocol (\<open>src/ninep-abi/src/lib.rs\<close>): the open
  flags, the identity word a gateway states for a remote caller, the namespace
  resolver and its C entry point (\<open>src/nsresolve/src/lib.rs\<close>), and the test that one
  path lies below another.
\<close>

section \<open>Open flags\<close>

definition OPEN_READ :: u64 where "OPEN_READ = 1"
definition OPEN_WRITE :: u64 where "OPEN_WRITE = 2"
definition OPEN_CREATE :: u64 where "OPEN_CREATE = 4"
definition OPEN_TRUNC :: u64 where "OPEN_TRUNC = 8"
definition OPEN_EXCL :: u64 where "OPEN_EXCL = 16"

definition OPEN_FLAGS :: u64 where
  "OPEN_FLAGS = OPEN_READ OR OPEN_WRITE OR OPEN_CREATE OR OPEN_TRUNC OR OPEN_EXCL"

definition OPEN_DIR_REFUSED :: u64 where
  "OPEN_DIR_REFUSED = OPEN_WRITE OR OPEN_TRUNC OR OPEN_CREATE"

definition open_changes :: "u64 \<Rightarrow> bool \<Rightarrow> bool" where
  "open_changes flags exists \<longleftrightarrow>
     flags AND (OPEN_WRITE OR OPEN_TRUNC) \<noteq> 0 \<or> (flags AND OPEN_CREATE \<noteq> 0 \<and> \<not> exists)"

section \<open>The identity word\<close>

definition NP_ID_NONE :: u64 where "NP_ID_NONE = 0"
definition NP_ID_FIRST_PARTY :: u64 where "NP_ID_FIRST_PARTY = 1"
definition NP_ID_PROXY :: u64 where "NP_ID_PROXY = push_bit 63 1"
definition NP_ID_ANON_ID :: u32 where "NP_ID_ANON_ID = 65534"

definition NP_ID_ANON :: u64 where
  "NP_ID_ANON = NP_ID_PROXY OR push_bit 16 (ucast NP_ID_ANON_ID) OR ucast NP_ID_ANON_ID"

definition proxy_id :: "u32 \<Rightarrow> u32 \<Rightarrow> u64 option" where
  "proxy_id uid gid =
     (if uid > 0xffff \<or> gid > 0xffff then None
      else Some (NP_ID_PROXY OR push_bit 16 (ucast gid) OR ucast uid))"

definition proxy_parts :: "u64 \<Rightarrow> (u32 \<times> u32) option" where
  "proxy_parts word =
     (if word AND NP_ID_PROXY = 0 then None
      else Some (ucast (word AND 0xffff), ucast (drop_bit 16 word AND 0xffff)))"

section \<open>The namespace resolver\<close>

definition SLASH :: u8 where "SLASH = 0x2f"
definition NS_REMOTE_TREE :: u8 where "NS_REMOTE_TREE = 0xff"
definition NS_CON_TREE :: u8 where "NS_CON_TREE = 0xfe"
definition NS_NET_TREE :: u8 where "NS_NET_TREE = 0xfd"
definition NS_ENDPOINT_LEN :: nat where "NS_ENDPOINT_LEN = 6"

datatype ns_target = Fsd u8 | Console | NetLocal | Remote "u8 list"

record ns_resolved =
  nr_target :: ns_target
  nr_path :: "u8 list"

text \<open>A binding matches a path it equals, or that continues it with a slash.\<close>

definition ns_matches :: "u8 list \<Rightarrow> u8 list \<Rightarrow> bool" where
  "ns_matches pbytes pre \<longleftrightarrow>
     length pbytes \<ge> length pre \<and> take (length pre) pbytes = pre \<and>
     (length pbytes = length pre \<or> pbytes ! length pre = SLASH)"

text \<open>The loop over the blob, at offset \<open>i\<close> with the best binding so far.\<close>

function ns_scan :: "u8 list \<Rightarrow> u8 list \<Rightarrow> nat \<Rightarrow> u8 \<times> nat \<times> u8 list \<Rightarrow> u8 \<times> nat \<times> u8 list" where
  "ns_scan ns pbytes i best =
     (if i + 3 \<le> length ns then
        let tree = ns ! i;
            plen = unat (ns ! (i + 1));
            tlen = unat (ns ! (i + 2));
            pstart = i + 3;
            tstart = pstart + plen;
            tend = tstart + tlen
        in if tend > length ns then best
           else
             let pre = take plen (drop pstart ns);
                 target = take tlen (drop tstart ns)
             in ns_scan ns pbytes tend
                  (if ns_matches pbytes pre \<and> length pre > fst (snd best)
                   then (tree, length pre, target) else best)
      else best)"
  by pat_completeness auto
termination by (relation "measure (\<lambda>(ns, _, i, _). length ns - i)") auto

declare ns_scan.simps [simp del]

text \<open>The target, then the rest of the path, into a buffer of \<open>out_len\<close> bytes.\<close>

definition write_path :: "u8 list \<Rightarrow> u8 list \<Rightarrow> nat \<Rightarrow> u8 list" where
  "write_path target after out_len =
     (let target_is_root = (target = [SLASH]);
          out1 = (if \<not> (target_is_root \<and> after \<noteq> [])
                  then take (min (length target) out_len) target else []);
          out2 = out1 @ take (min (length after) (out_len - length out1)) after
      in if length out2 = 0 \<and> out_len \<noteq> 0 then [SLASH] else out2)"

text \<open>\<open>out_len\<close> is the room in the caller's buffer; the answer's path is what is written to it.\<close>

definition resolve_ns :: "u8 list \<Rightarrow> u8 list \<Rightarrow> nat \<Rightarrow> ns_resolved" where
  "resolve_ns ns pbytes out_len =
     (case ns_scan ns pbytes 0 (0, 0, []) of (best_tree, best_plen, best_target) \<Rightarrow>
        if best_plen = 0
        then \<lparr>nr_target = Fsd 0, nr_path = take (min (length pbytes) out_len) pbytes\<rparr>
        else
          let remote = (best_tree = NS_REMOTE_TREE \<and> length best_target \<ge> NS_ENDPOINT_LEN);
              endpoint = take NS_ENDPOINT_LEN best_target;
              target = (if remote then drop NS_ENDPOINT_LEN best_target else best_target);
              after = drop best_plen pbytes
          in \<lparr>nr_target = (if best_tree = NS_CON_TREE then Console
                           else if best_tree = NS_NET_TREE then NetLocal
                           else if remote then Remote endpoint
                           else Fsd best_tree),
              nr_path = write_path target after out_len\<rparr>)"

text \<open>
  The C entry point. The blob is what the \<open>GET_NS\<close> call left in the buffer and the
  length it answered; a pointer that may be null is a boolean here. The answer is
  the value of \<open>*target\<close>, the path and the endpoint written, or nothing for \<open>-1\<close>.
\<close>

definition NS_MAX :: nat where "NS_MAX = 256"

definition ouro_ns_resolve ::
  "u8 list \<Rightarrow> nat \<Rightarrow> bool \<Rightarrow> u8 list \<Rightarrow> bool \<Rightarrow> nat \<Rightarrow> bool \<Rightarrow> bool \<Rightarrow> bool \<Rightarrow>
     (u32 \<times> u8 list \<times> u8 list) option" where
  "ouro_ns_resolve ns nlen path_null path out_null out_cap out_len_null target_null endpoint_null =
     (if path_null \<or> out_null \<or> out_len_null \<or> target_null then None
      else if nlen > NS_MAX then None
      else
        let r = resolve_ns (take nlen ns) path out_cap
        in if length (nr_path r) \<ge> out_cap then None
           else case nr_target r of
             Fsd tree \<Rightarrow> Some (0 OR push_bit 8 (ucast tree), nr_path r, [])
           | Console \<Rightarrow> Some (1, nr_path r, [])
           | NetLocal \<Rightarrow> Some (2, nr_path r, [])
           | Remote ep \<Rightarrow> if endpoint_null then None else Some (3, nr_path r, ep))"

section \<open>One path below another\<close>

definition WITHIN_MAX_COMPONENTS :: nat where "WITHIN_MAX_COMPONENTS = 256"

definition DOT :: u8 where "DOT = 0x2e"

definition component :: "u8 list \<Rightarrow> u16 \<times> u16 \<Rightarrow> u8 list" where
  "component path sl = take (unat (snd sl)) (drop (unat (fst sl)) path)"

text \<open>The loop of \<open>components\<close>, at offset \<open>start\<close> with \<open>n\<close> components found.\<close>

function comp_loop :: "u8 list \<Rightarrow> (u16 \<times> u16) list \<Rightarrow> nat \<Rightarrow> nat \<Rightarrow> ((u16 \<times> u16) list \<times> nat) option" where
  "comp_loop path out n start =
     (if start \<le> length path then
        let end_at = start + length (takeWhile (\<lambda>c. c \<noteq> SLASH) (drop start path));
            part = take (end_at - start) (drop start path)
        in if part = [] \<or> part = [DOT] then comp_loop path out n (end_at + 1)
           else if part = [DOT, DOT] then comp_loop path out (n - 1) (end_at + 1)
           else if n < length out
             then comp_loop path (out[n := (of_nat start, of_nat (length part))]) (n + 1) (end_at + 1)
           else None
      else Some (out, n))"
  by pat_completeness auto
termination
  by (relation "measure (\<lambda>(path, _, _, start). Suc (length path) - start)") (auto simp: Let_def)

declare comp_loop.simps [simp del]

definition components :: "u8 list \<Rightarrow> (u16 \<times> u16) list \<Rightarrow> ((u16 \<times> u16) list \<times> nat) option" where
  "components path out = (if length path > 65535 then None else comp_loop path out 0 0)"

definition is_within :: "u8 list \<Rightarrow> u8 list \<Rightarrow> (u8 list \<Rightarrow> u8 list \<Rightarrow> bool) \<Rightarrow> bool" where
  "is_within outer inner same =
     (let blank = replicate WITHIN_MAX_COMPONENTS (0, 0)
      in case (components outer blank, components inner blank) of
           (Some (o1, on), Some (i1, inn)) \<Rightarrow>
             inn > on \<and>
             list_all (\<lambda>k. same (component outer (o1 ! k)) (component inner (i1 ! k))) [0..<on]
         | _ \<Rightarrow> True)"

section \<open>Lemmas: identities and flags\<close>

lemma low_half_bits:
  fixes w :: u32
  assumes "w \<le> 0xffff"
  shows "bit w n \<Longrightarrow> n < 16"
proof -
  have "take_bit 16 w = w"
    using assms
    by (simp add: word_unat_eq_iff unsigned_take_bit_eq word_le_nat_alt take_bit_nat_eq_self)
  then show "bit w n \<Longrightarrow> n < 16" by (metis bit_take_bit_iff)
qed

lemma and_ffff: "w AND 0xffff = take_bit 16 w" for w :: u64
  by (simp add: take_bit_eq_mask mask_eq_exp_minus_1)

lemma NP_ID_PROXY_bit: "bit NP_ID_PROXY n \<longleftrightarrow> n = 63"
  unfolding NP_ID_PROXY_def bit_push_bit_iff by (auto simp: bit_1_iff)

lemma proxy_word_bit:
  fixes uid gid :: u32
  assumes "uid \<le> 0xffff" "gid \<le> 0xffff" "w = NP_ID_PROXY OR push_bit 16 (ucast gid) OR ucast uid"
  shows "bit w n \<longleftrightarrow> n = 63 \<or> (16 \<le> n \<and> bit gid (n - 16)) \<or> bit uid n"
  using low_half_bits [OF assms(1), of n] low_half_bits [OF assms(2), of "n - 16"]
  unfolding assms(3)
  by (auto simp: bit_or_iff bit_push_bit_iff bit_ucast_iff NP_ID_PROXY_bit)

lemma proxy_word_parts:
  fixes uid gid :: u32
  assumes le: "uid \<le> 0xffff" "gid \<le> 0xffff"
    and w: "w = NP_ID_PROXY OR push_bit 16 (ucast gid) OR ucast uid"
  shows "w AND NP_ID_PROXY \<noteq> 0" "ucast (w AND 0xffff) = uid"
    "ucast (drop_bit 16 w AND 0xffff) = gid"
proof -
  note b = proxy_word_bit [OF le w]
  have "bit (w AND NP_ID_PROXY) 63" by (simp add: b bit_and_iff NP_ID_PROXY_bit)
  then show "w AND NP_ID_PROXY \<noteq> 0" by auto
  show "ucast (w AND 0xffff) = uid"
    unfolding and_ffff
    by (rule bit_word_eqI) (auto simp: bit_ucast_iff bit_take_bit_iff b dest: low_half_bits [OF le(1)])
  show "ucast (drop_bit 16 w AND 0xffff) = gid"
    unfolding and_ffff
    by (rule bit_word_eqI)
       (auto simp: bit_ucast_iff bit_take_bit_iff bit_drop_bit_eq b
          dest: low_half_bits [OF le(1)] low_half_bits [OF le(2)])
qed

text \<open>The identity word carries a remote caller exactly: packing succeeds for the ids that fit
  in 16 bits and for no others, unpacking the word gives back the same uid and gid, and the word is
  neither the unstated identity nor the gateway's own.\<close>

lemma proxy_id_roundtrip:
  "case proxy_id uid gid of
     None \<Rightarrow> 0xffff < uid \<or> 0xffff < gid
   | Some w \<Rightarrow> uid \<le> 0xffff \<and> gid \<le> 0xffff \<and> proxy_parts w = Some (uid, gid) \<and>
       w \<noteq> NP_ID_NONE \<and> w \<noteq> NP_ID_FIRST_PARTY"
proof (cases "uid \<le> 0xffff \<and> gid \<le> 0xffff")
  case True
  let ?w = "NP_ID_PROXY OR push_bit 16 (ucast gid) OR ucast uid :: u64"
  note p = proxy_word_parts [of uid gid ?w, OF _ _ refl]
  have "bit ?w 63" using True by (subst proxy_word_bit [OF _ _ refl]) auto
  then have "?w \<noteq> 0" "?w \<noteq> 1" by (auto simp: bit_1_iff simp del: bit_1_iff)
  then show ?thesis
    using True p by (auto simp: proxy_id_def proxy_parts_def NP_ID_NONE_def NP_ID_FIRST_PARTY_def)
next
  case False
  then show ?thesis by (auto simp: proxy_id_def)
qed

text \<open>The flags a directory is refused for are exactly those that count as a change of a name
  that does not exist.\<close>

lemma open_dir_refused_iff:
  "flags AND OPEN_DIR_REFUSED \<noteq> 0 \<longleftrightarrow> open_changes flags False"
proof -
  have "flags AND OPEN_DIR_REFUSED =
      (flags AND (OPEN_WRITE OR OPEN_TRUNC)) OR (flags AND OPEN_CREATE)"
    by (simp add: OPEN_DIR_REFUSED_def bit.conj_disj_distrib or.assoc)
  then show ?thesis by (simp add: open_changes_def or_eq_0_iff)
qed

section \<open>Lemmas: namespaces\<close>

text \<open>A binding and its encoding in the blob.\<close>

type_synonym binding = "u8 \<times> u8 list \<times> u8 list"

fun binding_ok :: "binding \<Rightarrow> bool" where
  "binding_ok (t, p, g) \<longleftrightarrow> length p < 256 \<and> length g < 256"

fun encode_binding :: "binding \<Rightarrow> u8 list" where
  "encode_binding (t, p, g) = [t, of_nat (length p), of_nat (length g)] @ p @ g"

definition encode_ns :: "binding list \<Rightarrow> u8 list" where
  "encode_ns bs = concat (map encode_binding bs)"

fun pick :: "u8 list \<Rightarrow> u8 \<times> nat \<times> u8 list \<Rightarrow> binding \<Rightarrow> u8 \<times> nat \<times> u8 list" where
  "pick path best (t, p, g) =
     (if ns_matches path p \<and> length p > fst (snd best) then (t, length p, g) else best)"

lemma ns_scan_encoded:
  "\<forall>b\<in>set bs. binding_ok b \<Longrightarrow>
     ns_scan (pre @ encode_ns bs) path (length pre) best = foldl (pick path) best bs"
proof (induction bs arbitrary: pre best)
  case Nil
  then show ?case by (simp add: encode_ns_def ns_scan.simps)
next
  case (Cons b bs)
  obtain t p g where b: "b = (t, p, g)" by (cases b)
  define ns where "ns = pre @ encode_ns (b # bs)"
  let ?pre = "pre @ encode_binding b"
  have ns: "ns = ?pre @ encode_ns bs" by (simp add: encode_ns_def ns_def)
  have lens: "unat (of_nat (length p) :: u8) = length p" "unat (of_nat (length g) :: u8) = length g"
    using Cons.prems by (auto simp: b unat_of_nat)
  have at: "ns ! length pre = t" "ns ! Suc (length pre) = of_nat (length p)"
    "ns ! Suc (Suc (length pre)) = of_nat (length g)"
    by (simp_all add: b ns_def encode_ns_def nth_append)
  have parts: "take (length p) (drop (length pre + 3) ns) = p"
    "take (length g) (drop (length pre + 3 + length p) ns) = g"
    by (simp_all add: b ns_def encode_ns_def numeral_3_eq_3)
  have len: "length pre + 3 + length p + length g \<le> length ns" by (simp add: b ns_def encode_ns_def)
  have "ns_scan ns path (length pre) best =
      ns_scan ns path (length pre + 3 + length p + length g) (pick path best b)"
    using len parts by (subst ns_scan.simps) (simp add: Let_def at lens b)
  also have "\<dots> = ns_scan (?pre @ encode_ns bs) path (length ?pre) (pick path best b)"
  proof -
    have "length pre + 3 + length p + length g = length ?pre" by (simp add: b)
    then show ?thesis by (simp only: ns)
  qed
  also have "\<dots> = foldl (pick path) best (b # bs)" by (subst Cons.IH) (use Cons.prems in auto)
  finally show ?case by (simp add: ns_def)
qed

lemma ns_scan_all:
  "\<forall>b\<in>set bs. binding_ok b \<Longrightarrow> ns_scan (encode_ns bs) path 0 best = foldl (pick path) best bs"
  using ns_scan_encoded [of bs "[]"] by simp

lemma pick_none:
  "\<forall>(t, p, g)\<in>set bs. ns_matches path p \<longrightarrow> length p \<le> fst (snd best) \<Longrightarrow>
     foldl (pick path) best bs = best"
  by (induction bs) (auto split: if_splits)

lemma pick_below:
  "\<forall>(t, p, g)\<in>set bs. ns_matches path p \<longrightarrow> length p < n \<Longrightarrow> fst (snd best) < n \<Longrightarrow>
     fst (snd (foldl (pick path) best bs)) < n"
  by (induction bs arbitrary: best) auto

text \<open>The first of the longest matching bindings is the one chosen.\<close>

lemma pick_first_longest:
  assumes "p \<noteq> []" "ns_matches path p"
    and xs: "\<forall>(t', p', g')\<in>set xs. ns_matches path p' \<longrightarrow> length p' < length p"
    and ys: "\<forall>(t', p', g')\<in>set ys. ns_matches path p' \<longrightarrow> length p' \<le> length p"
  shows "foldl (pick path) (0, 0, []) (xs @ (t, p, g) # ys) = (t, length p, g)"
  using pick_below [OF xs, of "(0, 0, [])"] assms pick_none [of ys path "(t, length p, g)"]
  by simp

text \<open>Where a binding leads, and the path it gives: its target, then what followed the prefix.\<close>

definition leads_to :: "u8 \<Rightarrow> u8 list \<Rightarrow> ns_target" where
  "leads_to t g =
     (if t = NS_CON_TREE then Console else if t = NS_NET_TREE then NetLocal
      else if t = NS_REMOTE_TREE \<and> NS_ENDPOINT_LEN \<le> length g then Remote (take NS_ENDPOINT_LEN g)
      else Fsd t)"

definition root_of :: "u8 \<Rightarrow> u8 list \<Rightarrow> u8 list" where
  "root_of t g =
     (if t = NS_REMOTE_TREE \<and> NS_ENDPOINT_LEN \<le> length g then drop NS_ENDPOINT_LEN g else g)"

definition join_path :: "u8 list \<Rightarrow> u8 list \<Rightarrow> u8 list" where
  "join_path root after =
     (if root = [SLASH] \<and> after \<noteq> [] then after
      else if root @ after = [] then [SLASH] else root @ after)"

lemma write_path_take:
  assumes "full = (if target = [SLASH] \<and> after \<noteq> [] then after else target @ after)"
  shows "write_path target after cap =
    (if take cap full = [] \<and> cap \<noteq> 0 then [SLASH] else take cap full)"
proof -
  have m: "take (min (length xs) n) xs = take n xs" for xs :: "u8 list" and n
    by (simp add: min_def)
  have "take cap target @ take (cap - length (take cap target)) after = take cap (target @ after)"
    by (cases "length target \<le> cap") auto
  then show ?thesis
    unfolding assms write_path_def Let_def m length_0_conv
    by (cases "target = [SLASH] \<and> after \<noteq> []") (simp_all only: if_True if_False simp_thms
          append_Nil list.size diff_zero)
qed

lemma write_path_room:
  "length target + length after < cap \<Longrightarrow> write_path target after cap = join_path target after"
  by (simp add: write_path_take [OF refl] join_path_def)

lemma write_path_stable:
  assumes "length (write_path target after cap) < cap" "cap \<le> cap'"
  shows "write_path target after cap' = write_path target after cap"
proof -
  define full where "full = (if target = [SLASH] \<and> after \<noteq> [] then after else target @ after)"
  note w = write_path_take [OF full_def]
  have "length full < cap" using assms(1) unfolding w by (cases "full = []") (auto simp: min_def split: if_splits)
  then have "take cap full = full" "take cap' full = full" "cap \<noteq> 0" "cap' \<noteq> 0" using assms(2) by auto
  then show ?thesis unfolding w by simp
qed

lemma resolve_chosen:
  assumes "ns_scan ns path 0 (0, 0, []) = (t, n, g)" "0 < n" "length g + length path < out_len"
  shows "resolve_ns ns path out_len =
    \<lparr>nr_target = leads_to t g, nr_path = join_path (root_of t g) (drop n path)\<rparr>"
proof -
  have "length (root_of t g) \<le> length g" by (simp add: root_of_def)
  then have "write_path (root_of t g) (drop n path) out_len = join_path (root_of t g) (drop n path)"
    using assms(3) by (intro write_path_room) simp
  then show ?thesis
    using assms(1,2) unfolding resolve_ns_def
    by (simp add: Let_def leads_to_def root_of_def)
qed

text \<open>(C10) The longest component-aligned binding wins, the first of them among equals: with room for
  the answer, a path resolves to where that binding leads and to its target followed by what came
  after the prefix.\<close>

theorem resolve_longest_binding:
  assumes "\<forall>b\<in>set (xs @ (t, p, g) # ys). binding_ok b" and "p \<noteq> []" "ns_matches path p"
    and "\<forall>(t', p', g')\<in>set xs. ns_matches path p' \<longrightarrow> length p' < length p"
    and "\<forall>(t', p', g')\<in>set ys. ns_matches path p' \<longrightarrow> length p' \<le> length p"
    and "length g + length path < out_len"
  shows "resolve_ns (encode_ns (xs @ (t, p, g) # ys)) path out_len =
    \<lparr>nr_target = leads_to t g, nr_path = join_path (root_of t g) (drop (length p) path)\<rparr>"
proof (rule resolve_chosen)
  show "ns_scan (encode_ns (xs @ (t, p, g) # ys)) path 0 (0, 0, []) = (t, length p, g)"
    unfolding ns_scan_all [OF assms(1)] by (rule pick_first_longest [OF assms(2-5)])
qed (use assms in auto)

theorem resolve_longest_binding_witness:
  "resolve_ns (encode_ns [(0, [0x2f, 0x61], [0x2f]), (3, [0x2f, 0x61, 0x2f, 0x62], [0x2f, 0x78])])
     [0x2f, 0x61, 0x2f, 0x62, 0x2f, 0x63] 64 =
   \<lparr>nr_target = Fsd 3, nr_path = [0x2f, 0x78, 0x2f, 0x63]\<rparr>"
  using resolve_longest_binding [of "[(0, [0x2f, 0x61], [0x2f])]" 3 "[0x2f, 0x61, 0x2f, 0x62]"
      "[0x2f, 0x78]" "[]" "[0x2f, 0x61, 0x2f, 0x62, 0x2f, 0x63]" 64]
  by (simp add: ns_matches_def SLASH_def leads_to_def root_of_def join_path_def
      NS_CON_TREE_def NS_NET_TREE_def NS_REMOTE_TREE_def)

text \<open>A path no binding covers is left as it is, on the boot disk.\<close>

lemma resolve_unbound:
  assumes "\<forall>b\<in>set bs. binding_ok b" "\<forall>(t, p, g)\<in>set bs. p \<noteq> [] \<longrightarrow> \<not> ns_matches path p"
    and "length path \<le> out_len"
  shows "resolve_ns (encode_ns bs) path out_len = \<lparr>nr_target = Fsd 0, nr_path = path\<rparr>"
proof -
  have "foldl (pick path) (0, 0, []) bs = (0, 0, [])"
    using assms(2) by (intro pick_none) auto
  then show ?thesis using assms by (simp add: resolve_ns_def ns_scan_all)
qed

lemma resolve_stable:
  assumes "length (nr_path (resolve_ns ns path cap)) < cap" "cap \<le> cap'"
  shows "resolve_ns ns path cap' = resolve_ns ns path cap"
proof -
  obtain t n g where sc: "ns_scan ns path 0 (0, 0, []) = (t, n, g)" by (cases "ns_scan ns path 0 (0, 0, [])")
  show ?thesis
  proof (cases "n = 0")
    case True
    then show ?thesis using assms by (simp add: resolve_ns_def sc)
  next
    case False
    then show ?thesis
      using assms write_path_stable [OF _ assms(2)] by (simp add: resolve_ns_def sc Let_def)
  qed
qed

text \<open>(C21) The C entry point never hands back a shortened path: when it answers at all, the path is
  the one any larger buffer would have been given.\<close>

theorem ouro_ns_resolve_untruncated:
  assumes "ouro_ns_resolve ns nlen pn path on cap ln tn en = Some (tg, bytes, ep)" "cap \<le> cap'"
  shows "bytes = nr_path (resolve_ns (take nlen ns) path cap') \<and> length bytes < cap"
  using assms resolve_stable [of "take nlen ns" path cap cap']
  by (auto simp: ouro_ns_resolve_def Let_def not_le split: if_splits ns_target.splits)

theorem ouro_ns_resolve_untruncated_witness:
  "ouro_ns_resolve [] 0 False [0x2f, 0x61] False 8 False False True = Some (0, [0x2f, 0x61], []) \<and>
   [0x2f, 0x61] = nr_path (resolve_ns (take 0 []) [0x2f, 0x61] 100)"
proof -
  have h: "ouro_ns_resolve [] 0 False [0x2f, 0x61] False 8 False False True =
      Some (0, [0x2f, 0x61], [])"
    by (simp add: ouro_ns_resolve_def resolve_ns_def ns_scan.simps NS_MAX_def)
  show ?thesis using ouro_ns_resolve_untruncated [OF h, of 100] h by simp
qed

section \<open>Lemmas: one path below another\<close>

text \<open>The names a path walks through: \<open>.\<close> and empty parts stay, \<open>..\<close> goes up, no further than the
  root.\<close>

definition walk_part :: "u8 list list \<Rightarrow> u8 list \<Rightarrow> u8 list list" where
  "walk_part acc part =
     (if part = [] \<or> part = [DOT] then acc
      else if part = [DOT, DOT] then butlast acc else acc @ [part])"

definition walked :: "u8 list \<Rightarrow> u8 list list" where
  "walked path = foldl walk_part [] (split_on SLASH path)"

lemma component_at:
  assumes "length path \<le> 65535" "start + n \<le> length path"
  shows "component path (of_nat start, of_nat n) = take n (drop start path)"
  using assms by (simp add: component_def unat_of_nat)

lemma comp_loop_walks:
  assumes "length path \<le> 512" "length out = 256" "2 * n \<le> start" "n \<le> 256"
    and "map (component path) (take n out) = acc"
  shows "\<exists>out' n'. comp_loop path out n start = Some (out', n') \<and> length out' = 256 \<and> n' \<le> 256 \<and>
    map (component path) (take n' out') =
      (if start \<le> length path then foldl walk_part acc (split_on SLASH (drop start path)) else acc)"
  using assms(2-5)
proof (induction "Suc (length path) - start" arbitrary: start n out acc rule: less_induct)
  case less
  show ?case
  proof (cases "start \<le> length path")
    case False
    then show ?thesis using less.prems by (subst comp_loop.simps) simp
  next
    case True
    define k where "k = length (takeWhile (\<lambda>c. c \<noteq> SLASH) (drop start path))"
    define part where "part = take k (drop start path)"
    define rest where "rest = (if start + k < length path then split_on SLASH (drop (start + k + 1) path) else [])"
    have k: "k \<le> length path - start" unfolding k_def by (metis length_drop length_takeWhile_le)
    have split: "split_on SLASH (drop start path) = part # rest"
      using split_on_first [OF k_def] k True by (auto simp: part_def rest_def add.commute)
    have len: "length part = k" using k by (simp add: part_def)
    have IH: "\<exists>out'' n''. comp_loop path out' n' (start + k + 1) = Some (out'', n'') \<and>
        length out'' = 256 \<and> n'' \<le> 256 \<and> map (component path) (take n'' out'') = foldl walk_part acc' rest"
      if "length out' = 256" "2 * n' \<le> start + k + 1" "n' \<le> 256" "map (component path) (take n' out') = acc'"
      for out' n' acc'
    proof -
      have "(start + k + 1 \<le> length path) = (start + k < length path)" by auto
      then show ?thesis
        using less.hyps [of "start + k + 1" out' n' acc'] that True
        by (auto simp: rest_def)
    qed
    note unf = comp_loop.simps [of path out n start]
    consider "part = [] \<or> part = [DOT]" | "part = [DOT, DOT]" | "part \<noteq> []" "part \<noteq> [DOT]" "part \<noteq> [DOT, DOT]"
      by blast
    then show ?thesis
    proof cases
      case 1
      then have "comp_loop path out n start = comp_loop path out n (start + k + 1)"
        using True by (subst unf) (auto simp: Let_def part_def k_def)
      moreover have "walk_part acc part = acc" using 1 by (simp add: walk_part_def)
      ultimately show ?thesis using IH [of out n acc] less.prems True split by simp
    next
      case 2
      then have "comp_loop path out n start = comp_loop path out (n - 1) (start + k + 1)"
        using True len k by (subst unf) (auto simp add: Let_def part_def [symmetric] k_def [symmetric])
      moreover have "walk_part acc part = butlast acc" using 2 by (simp add: walk_part_def)
      moreover have "map (component path) (take (n - 1) out) = butlast acc"
        using less.prems by (auto simp: map_butlast [symmetric] butlast_take)
      ultimately show ?thesis using IH [of out "n - 1" "butlast acc"] less.prems True split by simp
    next
      case 3
      have "0 < k" using 3 len by auto
      then have n: "n < 256" using k less.prems(2) True assms(1) by linarith
      let ?out = "out[n := (of_nat start, of_nat k)]"
      have "comp_loop path out n start = comp_loop path ?out (n + 1) (start + k + 1)"
        using True 3 n less.prems(1) len k
        by (subst unf) (auto simp add: Let_def part_def [symmetric] k_def [symmetric])
      moreover have "walk_part acc part = acc @ [part]" using 3 by (simp add: walk_part_def)
      moreover have "map (component path) (take (n + 1) ?out) = acc @ [part]"
        using n less.prems(1,4) component_at [of path start k] k True assms(1)
        by (simp add: take_Suc_conv_app_nth part_def)
      ultimately show ?thesis
        using IH [of ?out "n + 1" "acc @ [part]"] less.prems n \<open>0 < k\<close> True split by simp
    qed
  qed
qed

lemma components_walked:
  assumes "length path \<le> 512"
  obtains out n where "components path (replicate WITHIN_MAX_COMPONENTS (0, 0)) = Some (out, n)"
    "n \<le> length out" "map (component path) (take n out) = walked path"
proof -
  have "\<exists>out n. comp_loop path (replicate 256 (0, 0)) 0 0 = Some (out, n) \<and> length out = 256 \<and> n \<le> 256 \<and>
      map (component path) (take n out) = walked path"
    using comp_loop_walks [OF assms, of "replicate 256 (0, 0)" 0 0 "[]"] by (simp add: walked_def)
  then show thesis
    using that assms by (auto simp: components_def WITHIN_MAX_COMPONENTS_def)
qed

text \<open>(C11) For any two paths a request can carry, \<open>is_within\<close> decides exactly whether the second walks
  to an entry strictly below the first: the first path's names, under the file system's own rule
  for equal names, are a proper initial part of the second's.\<close>

theorem is_within_iff:
  assumes "length outer \<le> 512" "length inner \<le> 512"
  shows "is_within outer inner same \<longleftrightarrow>
    length (walked outer) < length (walked inner) \<and>
    list_all2 same (walked outer) (take (length (walked outer)) (walked inner))"
proof -
  obtain o1 on where o: "components outer (replicate WITHIN_MAX_COMPONENTS (0, 0)) = Some (o1, on)"
    "on \<le> length o1" "map (component outer) (take on o1) = walked outer"
    using components_walked [OF assms(1)] by blast
  obtain i1 inn where i: "components inner (replicate WITHIN_MAX_COMPONENTS (0, 0)) = Some (i1, inn)"
    "inn \<le> length i1" "map (component inner) (take inn i1) = walked inner"
    using components_walked [OF assms(2)] by blast
  have len: "length (walked outer) = on" "length (walked inner) = inn"
    using o(2,3) i(2,3) by (metis length_map length_take min.absorb2)+
  have no: "walked outer ! k = component outer (o1 ! k)" if "k < on" for k
    using that o(2) by (simp flip: o(3))
  have ni: "walked inner ! k = component inner (i1 ! k)" if "k < inn" for k
    using that i(2) by (simp flip: i(3))
  have "is_within outer inner same \<longleftrightarrow> on < inn \<and>
      (\<forall>k<on. same (component outer (o1 ! k)) (component inner (i1 ! k)))"
    by (auto simp: is_within_def o(1) i(1) list_all_iff Let_def)
  also have "\<dots> \<longleftrightarrow> on < inn \<and> (\<forall>k<on. same (walked outer ! k) (walked inner ! k))"
    using no ni by auto
  also have "\<dots> \<longleftrightarrow> on < inn \<and> list_all2 same (walked outer) (take on (walked inner))"
    using len by (auto simp: list_all2_conv_all_nth)
  finally show ?thesis by (simp add: len)
qed

theorem is_within_iff_witness:
  "is_within [0x2f, 0x61] [0x2f, 0x2f, 0x62, 0x2f, 0x2e, 0x2e, 0x2f, 0x61, 0x2f, 0x63] (=)"
proof -
  have "walked [0x2f, 0x61] = [[0x61]]"
    "walked [0x2f, 0x2f, 0x62, 0x2f, 0x2e, 0x2e, 0x2f, 0x61, 0x2f, 0x63] = [[0x61], [0x63]]"
    by code_simp+
  then show ?thesis
    using is_within_iff [of "[0x2f, 0x61]"
        "[0x2f, 0x2f, 0x62, 0x2f, 0x2e, 0x2e, 0x2f, 0x61, 0x2f, 0x63]" "(=)"] by simp
qed

end
