(* ===== verification/Part_Table.thy ===== *)
theory Part_Table
  imports Prelude
begin

text \<open>
  Partition tables as the kernel and the file server read them
  (\<open>src/parttable/src/lib.rs\<close>): CRC-32, the MBR, GPT validation in one pass, the list of
  partitions, the test for the boot disk, and what of a card is protected. A disk is a
  function from sector numbers to sectors, \<open>None\<close> where the read fails: the table is
  read from a disk that does not change meanwhile.
\<close>

section \<open>Model\<close>

definition SECTOR :: nat where "SECTOR = 512"

type_synonym disk = "u64 \<Rightarrow> u8 list option"

text \<open>\<open>bytes[a..b]\<close>.\<close>

definition slice :: "nat \<Rightarrow> nat \<Rightarrow> 'a list \<Rightarrow> 'a list" where
  "slice a b xs = take (b - a) (drop a xs)"

subsection \<open>CRC-32\<close>

definition CRC_INIT :: u32 where "CRC_INIT = 0xffffffff"

definition crc32_bit :: "u32 \<Rightarrow> u32" where
  "crc32_bit crc = (let mask = - (crc AND 1) in drop_bit 1 crc XOR (0xEDB88320 AND mask))"

definition crc32_byte :: "u32 \<Rightarrow> u8 \<Rightarrow> u32" where
  "crc32_byte crc byte = (crc32_bit ^^ 8) (crc XOR ucast byte)"

definition crc32_update :: "u32 \<Rightarrow> u8 list \<Rightarrow> u32" where
  "crc32_update crc bytes = foldl crc32_byte crc bytes"

definition crc32_finish :: "u32 \<Rightarrow> u32" where
  "crc32_finish crc = crc XOR 0xffffffff"

definition crc32 :: "u8 list \<Rightarrow> u32" where
  "crc32 bytes = crc32_finish (crc32_update CRC_INIT bytes)"

definition le_num :: "u8 list \<Rightarrow> u64" where
  "le_num bytes = foldl (\<lambda>v b. push_bit 8 v OR ucast b) 0 (rev bytes)"

subsection \<open>MBR\<close>

record mbr_entry =
  me_kind :: u8
  me_start :: u32
  me_sectors :: u32

definition mbr_entry_at :: "u8 list \<Rightarrow> nat \<Rightarrow> mbr_entry option" where
  "mbr_entry_at sector index =
     (if index > 3 then None
      else
        let e = 0x1BE + 16 * index
        in Some \<lparr>me_kind = sector ! (e + 4),
                 me_start = ucast (le_num (slice (e + 8) (e + 12) sector)),
                 me_sectors = ucast (le_num (slice (e + 12) (e + 16) sector))\<rparr>)"

definition has_boot_signature :: "u8 list \<Rightarrow> bool" where
  "has_boot_signature sector \<longleftrightarrow> sector ! 510 = 0x55 \<and> sector ! 511 = 0xAA"

definition mbr_signature :: "u8 list \<Rightarrow> u32" where
  "mbr_signature sector = ucast (le_num (slice 440 444 sector))"

definition PROTECTIVE :: u8 where "PROTECTIVE = 0xEE"

definition mbr_entries :: "u8 list \<Rightarrow> mbr_entry list" where
  "mbr_entries sector = List.map_filter (mbr_entry_at sector) [0..<4]"

definition is_protective :: "u8 list \<Rightarrow> bool" where
  "is_protective sector \<longleftrightarrow>
     has_boot_signature sector \<and> list_ex (\<lambda>e. me_kind e = PROTECTIVE) (mbr_entries sector)"

text \<open>"EFI PART".\<close>

definition EFI_PART :: "u8 list" where
  "EFI_PART = [0x45, 0x46, 0x49, 0x20, 0x50, 0x41, 0x52, 0x54]"

definition gpt_and_mbr :: "disk \<Rightarrow> (bool \<times> u8 list) option" where
  "gpt_and_mbr read =
     (case read 1 of
        None \<Rightarrow> None
      | Some lba1 \<Rightarrow>
          (case read 0 of
             None \<Rightarrow> None
           | Some lba0 \<Rightarrow> Some (slice 0 8 lba1 = EFI_PART \<or> is_protective lba0, lba0)))"

definition is_gpt :: "disk \<Rightarrow> bool option" where
  "is_gpt read = map_option fst (gpt_and_mbr read)"

definition is_blank :: "disk \<Rightarrow> bool option" where
  "is_blank read =
     (case gpt_and_mbr read of
        None \<Rightarrow> None
      | Some (gpt, mbr) \<Rightarrow>
          let listed = list_ex (\<lambda>e. me_kind e = PROTECTIVE \<or> (me_kind e \<noteq> 0 \<and> me_start e \<noteq> 0))
                         (mbr_entries mbr)
          in Some (\<not> gpt \<and> \<not> has_boot_signature mbr \<and> \<not> listed))"

subsection \<open>GPT\<close>

datatype gpt_copy = Copy_Valid | Copy_Invalid | Copy_Unreadable

definition GPT_PRIMARY :: u64 where "GPT_PRIMARY = 1"
definition MAX_GPT_ARRAY_SECTORS :: nat where "MAX_GPT_ARRAY_SECTORS = 128"

definition gpt_backup :: "u64 \<Rightarrow> u64 option" where
  "gpt_backup capacity =
     (case checked_sub capacity 1 of
        None \<Rightarrow> None | Some last1 \<Rightarrow> if last1 > GPT_PRIMARY then Some last1 else None)"

text \<open>
  The entries of one sector of the array, handed to the caller's closure, whose
  state is threaded: those that lie in its first \<open>n\<close> bytes, with their indexes.
\<close>

definition hand_entries ::
  "('e \<Rightarrow> u64 \<Rightarrow> u8 list \<Rightarrow> 'e) \<Rightarrow> nat \<Rightarrow> nat \<Rightarrow> nat \<Rightarrow> u8 list \<Rightarrow> 'e \<Rightarrow> 'e" where
  "hand_entries entry entry_size fin n sector e0 =
     foldl (\<lambda>e k. let at = k * entry_size
                  in entry e (of_nat ((fin + at) div entry_size))
                       (slice at (at + entry_size) sector))
       e0 [0..<n div entry_size]"

text \<open>The loop over the array: \<open>fin\<close> bytes are done, \<open>lba\<close> is the next sector. \<open>Inl\<close> when a read
  fails.\<close>

function gpt_array ::
  "disk \<Rightarrow> ('e \<Rightarrow> u64 \<Rightarrow> u8 list \<Rightarrow> 'e) \<Rightarrow> nat \<Rightarrow> nat \<Rightarrow> u32 \<Rightarrow> nat \<Rightarrow> u64 \<Rightarrow> 'e \<Rightarrow>
     'e + u32 \<times> 'e" where
  "gpt_array read entry entry_size array_bytes crc fin lba e =
     (if fin < array_bytes then
        case read lba of
          None \<Rightarrow> Inl e
        | Some sector \<Rightarrow>
            let n = min (array_bytes - fin) SECTOR
            in gpt_array read entry entry_size array_bytes (crc32_update crc (take n sector))
                 (fin + n) (lba + 1) (hand_entries entry entry_size fin n sector e)
      else Inr (crc, e))"
  by pat_completeness auto
termination
  by (relation "measure (\<lambda>(read, entry, es, ab, crc, fin, lba, e). ab - fin)")
     (auto simp: SECTOR_def)

declare gpt_array.simps [simp del]

definition read_gpt ::
  "disk \<Rightarrow> u64 \<Rightarrow> u64 option \<Rightarrow> ('e \<Rightarrow> u64 \<Rightarrow> u8 list \<Rightarrow> 'e) \<Rightarrow> 'e \<Rightarrow> gpt_copy \<times> 'e" where
  "read_gpt read header_lba capacity entry e0 =
     (case read header_lba of
        None \<Rightarrow> (Copy_Unreadable, e0)
      | Some header \<Rightarrow>
          let header_size = unat (le_num (slice 12 16 header));
              stored = (ucast (le_num (slice 16 20 header)) :: u32);
              zeroed = take 16 header @ replicate 4 0 @ drop 20 header;
              array_lba = le_num (slice 72 80 header);
              count = unat (le_num (slice 80 84 header));
              entry_size = unat (le_num (slice 84 88 header));
              stored_array = (ucast (le_num (slice 88 92 header)) :: u32);
              array_bytes = count * entry_size
          in if slice 0 8 header \<noteq> EFI_PART then (Copy_Invalid, e0)
             else if \<not> (92 \<le> header_size \<and> header_size \<le> SECTOR) then (Copy_Invalid, e0)
             else if crc32 (take header_size zeroed) \<noteq> stored then (Copy_Invalid, e0)
             else if \<not> (128 \<le> entry_size \<and> entry_size \<le> SECTOR) \<or> SECTOR mod entry_size \<noteq> 0
               then (Copy_Invalid, e0)
             else if \<not> (array_bytes < 2 ^ 64 \<and> 0 < array_bytes \<and>
                        array_bytes \<le> MAX_GPT_ARRAY_SECTORS * SECTOR) then (Copy_Invalid, e0)
             else (case checked_add array_lba (of_nat ((array_bytes + SECTOR - 1) div SECTOR)) of
                     None \<Rightarrow> (Copy_Invalid, e0)
                   | Some array_end \<Rightarrow>
                       if (case capacity of Some c \<Rightarrow> array_end > c | None \<Rightarrow> False)
                       then (Copy_Invalid, e0)
                       else (case gpt_array read entry entry_size array_bytes CRC_INIT 0 array_lba e0 of
                               Inl e \<Rightarrow> (Copy_Unreadable, e)
                             | Inr (crc, e) \<Rightarrow>
                                 (if crc32_finish crc \<noteq> stored_array then Copy_Invalid
                                  else Copy_Valid, e))))"

subsection \<open>Partitions, for a root\<close>

record partition =
  pt_start :: u64
  pt_sectors :: u64
  pt_root :: bool

definition MBR_LINUX :: u8 where "MBR_LINUX = 0x83"

definition GPT_ROOT_AARCH64 :: "u8 list" where
  "GPT_ROOT_AARCH64 =
     [0x45, 0xb0, 0x21, 0xb9, 0xf0, 0x1d, 0xc3, 0x41, 0xaf, 0x44, 0x4c, 0x6f, 0x28, 0x0d, 0x3f, 0xae]"

definition is_root_type :: "u8 \<Rightarrow> bool" where
  "is_root_type mbr_type \<longleftrightarrow> mbr_type = MBR_LINUX"

text \<open>The closure of the GPT branch: an entry in use is added while there is room for it.\<close>

definition add_gpt_entry :: "nat \<Rightarrow> partition list \<Rightarrow> u64 \<Rightarrow> u8 list \<Rightarrow> partition list" where
  "add_gpt_entry room out index bytes =
     (if list_all (\<lambda>b. b = 0) (slice 0 16 bytes) then out
      else
        let start = le_num (slice 32 40 bytes);
            sectors = (case checked_sub (le_num (slice 40 48 bytes)) start of
                         None \<Rightarrow> 0
                       | Some d \<Rightarrow> (case checked_add d 1 of None \<Rightarrow> 0 | Some n \<Rightarrow> n))
        in if start \<noteq> 0 \<and> length out < room
           then out @ [\<lparr>pt_start = start, pt_sectors = sectors,
                        pt_root = (slice 0 16 bytes = GPT_ROOT_AARCH64)\<rparr>]
           else out)"

definition add_mbr_entry :: "nat \<Rightarrow> partition list \<Rightarrow> mbr_entry \<Rightarrow> partition list" where
  "add_mbr_entry room out e =
     (if me_kind e = 0 \<or> me_kind e = PROTECTIVE \<or> me_start e = 0 then out
      else if length out < room
        then out @ [\<lparr>pt_start = ucast (me_start e), pt_sectors = ucast (me_sectors e),
                     pt_root = is_root_type (me_kind e)\<rparr>]
        else out)"

text \<open>\<open>room\<close> is the length of the caller's slice; the answer is the part of it filled, or
  \<open>None\<close> for \<open>Unreadable\<close>.\<close>

definition discover :: "disk \<Rightarrow> u64 option \<Rightarrow> nat \<Rightarrow> partition list option" where
  "discover read capacity room =
     (case gpt_and_mbr read of
        None \<Rightarrow> None
      | Some (gpt, mbr) \<Rightarrow>
          if gpt then
            (case read_gpt read GPT_PRIMARY capacity (add_gpt_entry room) [] of
               (Copy_Valid, out) \<Rightarrow> Some out
             | _ \<Rightarrow>
                 (case Option.bind capacity gpt_backup of
                    None \<Rightarrow> Some []
                  | Some header \<Rightarrow>
                      (case read_gpt read header capacity (add_gpt_entry room) [] of
                         (Copy_Valid, out) \<Rightarrow> Some out
                       | _ \<Rightarrow> Some [])))
          else Some (foldl (add_mbr_entry room) [] (mbr_entries mbr)))"

subsection \<open>The boot disk\<close>

datatype part_table = Table_Mbr | Table_Gpt | Table_Unknown

datatype disk_signature = Sig_None | Sig_Mbr u32 | Sig_Gpt "u8 list" | Sig_Unknown u8

record boot_partition =
  bp_table :: part_table
  bp_number :: u32
  bp_start_lba :: u64
  bp_size_blocks :: u64
  bp_signature :: disk_signature

datatype boot = Boot_Yes | Boot_No | Boot_Unreadable

definition boot_from :: "bool \<Rightarrow> boot" where
  "boot_from holds = (if holds then Boot_Yes else Boot_No)"

definition mbr_holds :: "boot_partition \<Rightarrow> u8 list \<Rightarrow> bool" where
  "mbr_holds boot sector =
     (if \<not> has_boot_signature sector then False
      else if (case bp_signature boot of
                 Sig_Mbr sig \<Rightarrow> sig \<noteq> mbr_signature sector
               | Sig_Gpt _ \<Rightarrow> True
               | _ \<Rightarrow> False) then False
      else
        (case (if bp_number boot = 0 then None
               else mbr_entry_at sector (unat (bp_number boot) - 1)) of
           None \<Rightarrow> False
         | Some e \<Rightarrow> me_kind e \<noteq> 0 \<and> ucast (me_start e) = bp_start_lba boot \<and>
                     ucast (me_sectors e) = bp_size_blocks boot))"

text \<open>The closure of \<open>gpt_holds\<close>: the entry with the wanted index, as (unique GUID, first, last).\<close>

definition find_entry ::
  "u64 option \<Rightarrow> (u8 list \<times> u64 \<times> u64) option \<Rightarrow> u64 \<Rightarrow> u8 list \<Rightarrow> (u8 list \<times> u64 \<times> u64) option" where
  "find_entry wanted found index bytes =
     (if Some index = wanted
      then Some (slice 16 32 bytes, le_num (slice 32 40 bytes), le_num (slice 40 48 bytes))
      else found)"

text \<open>\<open>Some (Inr holds)\<close>, \<open>Some (Inl ())\<close> when a read failed, \<open>None\<close> when it did not validate.\<close>

definition gpt_holds :: "boot_partition \<Rightarrow> disk \<Rightarrow> u64 \<Rightarrow> u64 \<Rightarrow> (unit + bool) option" where
  "gpt_holds boot read header capacity =
     (let wanted = checked_sub (ucast (bp_number boot)) 1
      in case read_gpt read header (Some capacity) (find_entry wanted) None of
           (Copy_Unreadable, _) \<Rightarrow> Some (Inl ())
         | (Copy_Invalid, _) \<Rightarrow> None
         | (Copy_Valid, None) \<Rightarrow> Some (Inr False)
         | (Copy_Valid, Some (unique, first, last1)) \<Rightarrow>
             let guid_ok = (case bp_signature boot of
                              Sig_Gpt guid \<Rightarrow> guid = unique
                            | Sig_Mbr _ \<Rightarrow> False
                            | _ \<Rightarrow> True);
                 ends = (case (checked_add last1 1, checked_add first (bp_size_blocks boot)) of
                           (Some a, Some b) \<Rightarrow> a = b
                         | _ \<Rightarrow> False)
             in Some (Inr (guid_ok \<and> first = bp_start_lba boot \<and> ends)))"

definition is_boot_disk :: "boot_partition \<Rightarrow> disk \<Rightarrow> u64 \<Rightarrow> boot option" where
  "is_boot_disk boot read capacity =
     (case bp_table boot of
        Table_Unknown \<Rightarrow> None
      | Table_Mbr \<Rightarrow>
          (case read 0 of
             None \<Rightarrow> Some Boot_Unreadable
           | Some sector \<Rightarrow> Some (boot_from (mbr_holds boot sector)))
      | Table_Gpt \<Rightarrow>
          let primary = gpt_holds boot read GPT_PRIMARY capacity
          in case primary of
               Some (Inr holds) \<Rightarrow> Some (boot_from holds)
             | _ \<Rightarrow>
                 let backup = map_option (\<lambda>last1. gpt_holds boot read last1 capacity) (gpt_backup capacity)
                 in Some (case backup of
                            Some (Some (Inr holds)) \<Rightarrow> boot_from holds
                          | _ \<Rightarrow> if primary = Some (Inl ()) then Boot_Unreadable else Boot_No))"

text \<open>\<open>None\<close> for \<open>Unreadable\<close>.\<close>

definition boot_start :: "boot_partition \<Rightarrow> disk \<Rightarrow> u64 \<Rightarrow> u64 option" where
  "boot_start boot read capacity =
     (if bp_table boot = Table_Unknown then Some 0
      else
        let named_gpt = (bp_table boot = Table_Gpt)
        in case is_gpt read of
             None \<Rightarrow> None
           | Some gpt \<Rightarrow>
               if gpt \<noteq> named_gpt then Some 0
               else (case is_boot_disk boot read capacity of
                       Some Boot_Yes \<Rightarrow> Some (bp_start_lba boot)
                     | Some Boot_Unreadable \<Rightarrow> None
                     | Some Boot_No \<Rightarrow> Some 0
                     | None \<Rightarrow> Some 0))"

subsection \<open>What is kept of a card, and the candidates for the root\<close>

definition firmware_sectors ::
  "partition list \<Rightarrow> (u64 \<times> u64) option \<Rightarrow> (u64 \<times> u64) option \<Rightarrow> (u64 \<times> u64) \<times> (u64 \<times> u64)" where
  "firmware_sectors partitions boot backup =
     (let first = (case boot of
                     Some b \<Rightarrow> Some b
                   | None \<Rightarrow>
                       (case partitions of
                          p # _ \<Rightarrow> if \<not> pt_root p then Some (pt_start p, pt_sectors p) else None
                        | [] \<Rightarrow> None))
      in case first of
           None \<Rightarrow> ((0, 0), (0, 0))
         | Some (start, count) \<Rightarrow>
             ((0, saturating_add start count), case backup of Some b \<Rightarrow> b | None \<Rightarrow> (0, 0)))"

definition root_candidates :: "partition list \<Rightarrow> u64 option \<Rightarrow> partition list" where
  "root_candidates parts boot =
     (let beside = (\<lambda>p. Some (pt_start p) \<noteq> boot);
          typed = list_ex pt_root (filter beside parts)
      in filter (\<lambda>p. if typed then pt_root p else boot \<noteq> None) (filter beside parts))"

definition GPT_TABLE_SECTORS :: u64 where "GPT_TABLE_SECTORS = 33"

text \<open>Where the backup header is: where a valid primary puts it, else at the last sector.\<close>

definition backup_header_lba :: "disk \<Rightarrow> u64 \<Rightarrow> u64 option" where
  "backup_header_lba read capacity =
     (case gpt_backup capacity of
        None \<Rightarrow> None
      | Some at \<Rightarrow>
          (case fst (read_gpt read GPT_PRIMARY (Some capacity) (\<lambda>e _ _. e) ()) of
             Copy_Unreadable \<Rightarrow> None
           | Copy_Valid \<Rightarrow>
               (case read GPT_PRIMARY of
                  None \<Rightarrow> None
                | Some header \<Rightarrow>
                    let alternate = le_num (slice 32 40 header)
                    in Some (if alternate > GPT_PRIMARY \<and> alternate < capacity
                             then alternate else at))
           | Copy_Invalid \<Rightarrow> Some at))"

definition gpt_backup_extent :: "disk \<Rightarrow> u64 \<Rightarrow> (u64 \<times> u64) option" where
  "gpt_backup_extent read capacity =
     (case backup_header_lba read capacity of
        None \<Rightarrow> None
      | Some at \<Rightarrow>
          (case read at of
             None \<Rightarrow> None
           | Some header \<Rightarrow>
               let array = le_num (slice 72 80 header);
                   first = (if slice 0 8 header = EFI_PART \<and> array < at \<and>
                               at - array \<le> of_nat MAX_GPT_ARRAY_SECTORS
                            then array
                            else max (saturating_sub at (GPT_TABLE_SECTORS - 1)) (GPT_PRIMARY + 1))
               in Some (first, at - first + 1)))"

section \<open>CRC-32 detects every corrupted byte\<close>

lemma crc32_bit_if:
  "crc32_bit crc = drop_bit 1 crc XOR (if bit crc 0 then 0xEDB88320 else 0)"
proof -
  have "crc AND 1 = of_bool (bit crc 0)" by (simp add: and_one_eq bit_0 mod_2_eq_odd)
  then show ?thesis by (simp add: crc32_bit_def Let_def)
qed

lemma crc32_bit_low: "bit (crc32_bit crc) 31 \<longleftrightarrow> bit crc 0"
  by (auto simp: crc32_bit_if bit_xor_iff bit_drop_bit_eq dest: bit_imp_le_length)

lemma crc32_bit_inj: "crc32_bit a = crc32_bit b \<longleftrightarrow> a = b"
proof
  assume eq: "crc32_bit a = crc32_bit b"
  then have low: "bit a 0 = bit b 0" by (metis crc32_bit_low)
  then have "drop_bit 1 a = drop_bit 1 b"
    using eq unfolding crc32_bit_if by (simp add: xor_cancel_right)
  then have "bit a (Suc n) = bit b (Suc n)" for n
    by (metis bit_drop_bit_eq plus_1_eq_Suc comp_apply)
  then show "a = b" using low by (metis bit_eq_iff not0_implies_Suc)
qed simp

lemma crc32_bits_inj: "(crc32_bit ^^ n) a = (crc32_bit ^^ n) b \<longleftrightarrow> a = b"
  by (induction n) (auto simp: crc32_bit_inj)

lemma crc32_byte_inj:
  "crc32_byte a x = crc32_byte b x \<longleftrightarrow> a = b"
  "crc32_byte a x = crc32_byte a y \<longleftrightarrow> x = y"
proof -
  show "crc32_byte a x = crc32_byte b x \<longleftrightarrow> a = b"
    by (simp add: crc32_byte_def crc32_bits_inj xor_cancel_right)
  show "crc32_byte a x = crc32_byte a y \<longleftrightarrow> x = y"
    by (simp add: crc32_byte_def crc32_bits_inj xor_cancel_left ucast_up_inj)
qed

lemma crc32_update_append: "crc32_update crc (xs @ ys) = crc32_update (crc32_update crc xs) ys"
  by (simp add: crc32_update_def)

lemma crc32_update_inj: "crc32_update a xs = crc32_update b xs \<longleftrightarrow> a = b"
  by (induction xs arbitrary: a b) (auto simp: crc32_update_def crc32_byte_inj)

text \<open>(C17) The CRC the tables are checked with notices any one corrupted byte: changing a single byte
  of a message, wherever it is and whatever it becomes, changes the CRC.\<close>

theorem crc32_detects_byte:
  assumes "b \<noteq> c"
  shows "crc32 (xs @ b # ys) \<noteq> crc32 (xs @ c # ys)"
proof
  assume "crc32 (xs @ b # ys) = crc32 (xs @ c # ys)"
  then have "crc32_update CRC_INIT (xs @ b # ys) = crc32_update CRC_INIT (xs @ c # ys)"
    unfolding crc32_def crc32_finish_def by (simp add: xor_cancel_right)
  then have "crc32_byte (crc32_update CRC_INIT xs) b = crc32_byte (crc32_update CRC_INIT xs) c"
    using crc32_update_inj
    by (simp add: crc32_update_append) (simp add: crc32_update_def)
  then show False using assms by (simp add: crc32_byte_inj)
qed

theorem crc32_detects_byte_witness: "crc32 [1, 2, 3] \<noteq> crc32 [1, 7, 3]"
  using crc32_detects_byte [of 2 7 "[1]" "[3]"] by simp

section \<open>A GPT copy read in one pass\<close>

definition disk_ok :: "disk \<Rightarrow> bool" where
  "disk_ok read \<longleftrightarrow> (\<forall>lba s. read lba = Some s \<longrightarrow> length s = SECTOR)"

text \<open>The closure that keeps every entry it is handed.\<close>

definition keep :: "(u64 \<times> u8 list) list \<Rightarrow> u64 \<Rightarrow> u8 list \<Rightarrow> (u64 \<times> u8 list) list" where
  "keep es i b = es @ [(i, b)]"

definition hand_all :: "('e \<Rightarrow> u64 \<Rightarrow> u8 list \<Rightarrow> 'e) \<Rightarrow> 'e \<Rightarrow> (u64 \<times> u8 list) list \<Rightarrow> 'e" where
  "hand_all entry = foldl (\<lambda>e (i, b). entry e i b)"

lemma hand_entries_keep:
  "hand_all entry e (hand_entries keep es fin n sector kept) =
     hand_entries entry es fin n sector (hand_all entry e kept)"
proof -
  have "hand_all entry e (foldl (\<lambda>l k. keep l (f k) (g k)) kept ks) =
      foldl (\<lambda>e k. entry e (f k) (g k)) (hand_all entry e kept) ks" for f g and ks :: "nat list"
    by (induction ks arbitrary: kept) (auto simp: keep_def hand_all_def)
  then show ?thesis by (simp add: hand_entries_def Let_def)
qed

lemma gpt_array_keep:
  "gpt_array read entry es ab crc fin lba (hand_all entry e kept) =
     (case gpt_array read keep es ab crc fin lba kept of
        Inl l \<Rightarrow> Inl (hand_all entry e l)
      | Inr (c, l) \<Rightarrow> Inr (c, hand_all entry e l))"
proof (induction read keep es ab crc fin lba kept rule: gpt_array.induct)
  case (1 read es ab crc fin lba kept)
  show ?case
    by (subst (1 2) gpt_array.simps) (auto simp: 1 Let_def hand_entries_keep [symmetric] split: option.splits)
qed

text \<open>Whatever closure is given, a copy answers the same and hands over the same entries.\<close>

lemma read_gpt_keep:
  "read_gpt read lba cap entry e =
     (case read_gpt read lba cap keep [] of (c, l) \<Rightarrow> (c, hand_all entry e l))"
proof -
  have e: "hand_all entry e [] = e" by (simp add: hand_all_def)
  show ?thesis
    unfolding read_gpt_def Let_def
    using gpt_array_keep [of read entry _ _ _ _ _ e "[]", unfolded e]
    by (auto simp: e split: option.splits sum.splits)
qed

text \<open>The bytes on the disk from a sector on.\<close>

definition on_disk :: "disk \<Rightarrow> u64 \<Rightarrow> u8 list \<Rightarrow> bool" where
  "on_disk read lba bytes \<longleftrightarrow>
     (\<forall>i<length bytes. \<exists>s. read (lba + of_nat (i div SECTOR)) = Some s \<and> bytes ! i = s ! (i mod SECTOR))"

lemma on_disk_last:
  "read lba = Some s \<Longrightarrow> length s = SECTOR \<Longrightarrow> n \<le> SECTOR \<Longrightarrow> on_disk read lba (take n s)"
  by (auto simp: on_disk_def)

lemma on_disk_append:
  assumes s: "read lba = Some s" "length s = SECTOR" and rest: "on_disk read (lba + 1) bytes"
  shows "on_disk read lba (s @ bytes)"
  unfolding on_disk_def
proof (intro allI impI)
  fix i assume i: "i < length (s @ bytes)"
  show "\<exists>s'. read (lba + of_nat (i div SECTOR)) = Some s' \<and> (s @ bytes) ! i = s' ! (i mod SECTOR)"
  proof (cases "i < SECTOR")
    case True
    then show ?thesis using s by (simp add: nth_append)
  next
    case False
    define j where "j = i - SECTOR"
    have j: "i = j + SECTOR" using False by (simp add: j_def)
    have "lba + of_nat (i div SECTOR) = lba + 1 + of_nat (j div SECTOR)"
      using div_add_self2 [of SECTOR j] by (simp add: j) (simp add: SECTOR_def)
    moreover have "i mod SECTOR = j mod SECTOR" by (simp add: j)
    moreover have "j < length bytes" using i s(2) j by simp
    ultimately show ?thesis
      using rest s(2) unfolding on_disk_def by (metis j add.commute nth_append_length_plus)
  qed
qed

text \<open>The entries of a stretch of the array that starts at entry \<open>k0\<close>.\<close>

definition entries_from :: "nat \<Rightarrow> nat \<Rightarrow> u8 list \<Rightarrow> (u64 \<times> u8 list) list" where
  "entries_from es k0 bytes =
     map (\<lambda>k. (of_nat (k0 + k), slice (k * es) ((k + 1) * es) bytes)) [0..<length bytes div es]"

lemma entries_from_append:
  assumes "length xs = m * es" "0 < es"
  shows "entries_from es k0 (xs @ ys) = entries_from es k0 xs @ entries_from es (k0 + m) ys"
proof -
  have d: "length (xs @ ys) div es = m + length ys div es" using assms by simp
  have "slice (k * es) ((k + 1) * es) (xs @ ys) = slice (k * es) ((k + 1) * es) xs" if "k < m" for k
  proof -
    have "(k + 1) * es \<le> length xs" using that assms(1) by (metis Suc_eq_plus1 Suc_leI mult_le_mono1)
    then show ?thesis by (simp add: slice_def)
  qed
  moreover have "slice ((m + k) * es) ((m + k + 1) * es) (xs @ ys) = slice (k * es) ((k + 1) * es) ys" for k
    using assms(1) by (simp add: slice_def add_mult_distrib)
  ultimately show ?thesis
    using assms unfolding entries_from_def d map_upt_add by (simp add: add.assoc)
qed

lemma hand_entries_from:
  assumes "0 < es" "es dvd fin" "n \<le> length sector"
  shows "hand_entries keep es fin n sector kept = kept @ entries_from es (fin div es) (take n sector)"
proof -
  have idx: "(fin + k * es) div es = fin div es + k" for k
    using assms(1,2) by (simp add: div_plus_div_distrib_dvd_left)
  have sl: "slice (k * es) (k * es + es) sector = slice (k * es) ((k + 1) * es) (take n sector)"
    if "k < n div es" for k
  proof -
    have "(k + 1) * es \<le> n" using that by (metis Suc_eq_plus1 Suc_leI less_eq_div_iff_mult_less_eq assms(1))
    then show ?thesis by (simp add: slice_def drop_take min_absorb1)
  qed
  have fold: "foldl (\<lambda>l k. keep l (f k) (g k)) kept ks = kept @ map (\<lambda>k. (f k, g k)) ks"
    for f g and ks :: "nat list"
    by (induction ks arbitrary: kept) (auto simp: keep_def)
  show ?thesis
    using sl assms(3) by (simp add: hand_entries_def Let_def fold idx entries_from_def)
qed

text \<open>What the loop over the array leaves: the CRC of the bytes on the disk, and their entries.\<close>

lemma gpt_array_entries:
  assumes "gpt_array read keep es ab crc fin lba kept = Inr (c, l)"
    and "disk_ok read" "0 < es" "es dvd SECTOR" "es dvd fin" "fin \<le> ab"
  shows "\<exists>bytes. length bytes = ab - fin \<and> on_disk read lba bytes \<and> c = crc32_update crc bytes \<and>
    l = kept @ entries_from es (fin div es) bytes"
  using assms
proof (induction read keep es ab crc fin lba kept rule: gpt_array.induct)
  case (1 read es ab crc fin lba kept)
  show ?case
  proof (cases "fin < ab")
    case False
    then have "Inr (crc, kept) = Inr (c, l)" using 1(2) by (subst (asm) gpt_array.simps) simp
    then show ?thesis using False 1(7)
      by (intro exI [of _ "[]"]) (auto simp: on_disk_def crc32_update_def entries_from_def)
  next
    case True
    define n where "n = min (ab - fin) SECTOR"
    obtain sector where rd: "read lba = Some sector"
      using 1(2) True by (subst (asm) gpt_array.simps) (auto split: option.splits)
    then have len: "length sector = SECTOR" using 1(3) by (auto simp: disk_ok_def)
    have run: "gpt_array read keep es ab (crc32_update crc (take n sector)) (fin + n) (lba + 1)
        (hand_entries keep es fin n sector kept) = Inr (c, l)"
      using 1(2) True rd by (subst (asm) gpt_array.simps) (simp add: Let_def n_def)
    have kept': "hand_entries keep es fin n sector kept =
        kept @ entries_from es (fin div es) (take n sector)"
      using 1(4,6) len by (intro hand_entries_from) (auto simp: n_def)
    show ?thesis
    proof (cases "ab - fin \<le> SECTOR")
      case last: True
      then have n: "n = ab - fin" by (simp add: n_def)
      have "Inr (crc32_update crc (take n sector), hand_entries keep es fin n sector kept) =
          (Inr (c, l) :: (u64 \<times> u8 list) list + u32 \<times> (u64 \<times> u8 list) list)"
        using run n True by (subst (asm) gpt_array.simps) simp
      then show ?thesis
        using last n len rd kept' by (intro exI [of _ "take n sector"]) (auto simp: on_disk_last)
    next
      case False
      then have n: "n = SECTOR" by (simp add: n_def)
      have "es dvd fin + n" using n 1(5,6) by simp
      moreover have "fin + n \<le> ab" using n False by simp
      ultimately obtain bytes where b: "length bytes = ab - (fin + n)" "on_disk read (lba + 1) bytes"
        "c = crc32_update (crc32_update crc (take n sector)) bytes"
        "l = hand_entries keep es fin n sector kept @ entries_from es ((fin + n) div es) bytes"
        using 1(1) [OF True rd n_def run 1(3,4,5)] by blast
      have m: "length sector = SECTOR div es * es" using len 1(5) by simp
      have "(fin + n) div es = fin div es + SECTOR div es"
        using n 1(5,6) by (simp add: div_plus_div_distrib_dvd_left)
      then have "l = kept @ entries_from es (fin div es) (sector @ bytes)"
        using b(4) kept' n len entries_from_append [OF m 1(4)] by simp
      then show ?thesis
        using b n len rd on_disk_append [OF rd len b(2)] False
        by (intro exI [of _ "sector @ bytes"]) (simp add: crc32_update_append)
    qed
  qed
qed

text \<open>What it is for a table of \<open>count\<close> entries of \<open>es\<close> bytes to be good: the rules of the UEFI
  specification for the header and for the array, both present on the disk and inside it.\<close>

definition good_table :: "disk \<Rightarrow> u64 \<Rightarrow> u64 option \<Rightarrow> nat \<Rightarrow> u8 list \<Rightarrow> bool" where
  "good_table read lba capacity es bytes \<longleftrightarrow>
     (\<exists>header. read lba = Some header \<and> slice 0 8 header = EFI_PART \<and>
        (let hs = unat (le_num (slice 12 16 header)); array = le_num (slice 72 80 header);
             sectors = (length bytes + SECTOR - 1) div SECTOR
         in 92 \<le> hs \<and> hs \<le> SECTOR \<and>
            crc32 (take hs (take 16 header @ replicate 4 0 @ drop 20 header)) =
              ucast (le_num (slice 16 20 header)) \<and>
            es = unat (le_num (slice 84 88 header)) \<and> 128 \<le> es \<and> es \<le> SECTOR \<and> es dvd SECTOR \<and>
            length bytes = unat (le_num (slice 80 84 header)) * es \<and>
            0 < length bytes \<and> length bytes \<le> MAX_GPT_ARRAY_SECTORS * SECTOR \<and>
            crc32 bytes = ucast (le_num (slice 88 92 header)) \<and>
            on_disk read array bytes \<and>
            unat array + sectors < 2 ^ 64 \<and>
            (\<forall>c. capacity = Some c \<longrightarrow> unat array + sectors \<le> unat c)))"

lemma read_gpt_keep_valid:
  assumes v: "read_gpt read lba capacity keep [] = (Copy_Valid, l)" and "disk_ok read"
  shows "\<exists>es bytes. good_table read lba capacity es bytes \<and> l = entries_from es 0 bytes"
proof -
  obtain header where h: "read lba = Some header"
    using v by (auto simp: read_gpt_def split: option.splits)
  define es where "es = unat (le_num (slice 84 88 header))"
  define ab where "ab = unat (le_num (slice 80 84 header)) * es"
  define array where "array = le_num (slice 72 80 header)"
  define hs where "hs = unat (le_num (slice 12 16 header))"
  define sectors where "sectors = (ab + SECTOR - 1) div SECTOR"
  note v' = v [unfolded read_gpt_def h option.case Let_def,
      folded es_def, folded ab_def array_def hs_def, folded sectors_def]
  obtain crc array_end where
    g: "slice 0 8 header = EFI_PART" "92 \<le> hs" "hs \<le> SECTOR"
      "crc32 (take hs (take 16 header @ replicate 4 0 @ drop 20 header)) =
        ucast (le_num (slice 16 20 header))"
      "128 \<le> es" "es \<le> SECTOR" "SECTOR mod es = 0" "0 < ab" "ab \<le> MAX_GPT_ARRAY_SECTORS * SECTOR"
    and ae: "checked_add array (of_nat sectors) = Some array_end"
      "\<forall>c. capacity = Some c \<longrightarrow> array_end \<le> c"
    and run: "gpt_array read keep es ab CRC_INIT 0 array [] = Inr (crc, l)"
      "crc32_finish crc = ucast (le_num (slice 88 92 header))"
    using v' by (auto split: if_splits option.splits sum.splits prod.splits simp: not_less)
  have "\<exists>bytes. length bytes = ab - 0 \<and> on_disk read array bytes \<and> crc = crc32_update CRC_INIT bytes \<and>
      l = [] @ entries_from es (0 div es) bytes"
    using run(1) assms(2) g by (intro gpt_array_entries) auto
  then obtain bytes where b: "length bytes = ab" "on_disk read array bytes"
    "crc = crc32_update CRC_INIT bytes" "l = entries_from es 0 bytes" by auto
  have "sectors < 2 ^ 64" using g(9) by (simp add: sectors_def MAX_GPT_ARRAY_SECTORS_def SECTOR_def)
  then have us: "unat (of_nat sectors :: u64) = sectors" by (simp add: unat_of_nat)
  have "unat array + sectors < 2 ^ 64" "unat array_end = unat array + sectors"
    using ae(1) us checked_add_unat [OF ae(1)] by (auto simp: unat_checked_add)
  then have "good_table read lba capacity es bytes"
    unfolding good_table_def Let_def
    using h g b run(2) ae(2)
    by (intro exI [of _ header])
       (auto simp: hs_def es_def [symmetric] array_def [symmetric] ab_def [symmetric] sectors_def
          crc32_def word_le_nat_alt mod_eq_0_iff_dvd)
  then show ?thesis using b(4) by blast
qed

text \<open>Conversely: an array that is on the disk is read to its end.\<close>

lemma gpt_array_reads:
  assumes "\<forall>i<ab - fin. read (lba + of_nat (i div SECTOR)) \<noteq> None"
  shows "\<exists>r. gpt_array read entry es ab crc fin lba e = Inr r"
  using assms
proof (induction read entry es ab crc fin lba e rule: gpt_array.induct)
  case (1 read entry es ab crc fin lba e)
  show ?case
  proof (cases "fin < ab")
    case False
    then show ?thesis by (subst gpt_array.simps) simp
  next
    case True
    then obtain sector where rd: "read lba = Some sector" using 1(2) by fastforce
    define n where "n = min (ab - fin) SECTOR"
    have "read (lba + 1 + of_nat (i div SECTOR)) \<noteq> None" if "i < ab - (fin + n)" for i
    proof -
      have n: "n = SECTOR" using that by (simp add: n_def min_def split: if_splits)
      have "(i + SECTOR) div SECTOR = i div SECTOR + 1" by (simp add: SECTOR_def)
      moreover have "i + SECTOR < ab - fin" using that n by simp
      ultimately show ?thesis using 1(2) by (metis add.assoc add.commute of_nat_1 of_nat_add)
    qed
    then have "\<exists>r. gpt_array read entry es ab (crc32_update crc (take n sector)) (fin + n) (lba + 1)
        (hand_entries entry es fin n sector e) = Inr r"
      using 1(1) [OF True rd n_def] by blast
    then show ?thesis using True rd by (subst gpt_array.simps) (simp add: Let_def n_def)
  qed
qed

lemma on_disk_unique:
  "on_disk read lba xs \<Longrightarrow> on_disk read lba ys \<Longrightarrow> length xs = length ys \<Longrightarrow> xs = ys"
  unfolding on_disk_def by (intro nth_equalityI) (auto, metis option.inject)

lemma read_gpt_keep_good:
  assumes g: "good_table read lba capacity es bytes" and "disk_ok read"
  shows "read_gpt read lba capacity keep [] = (Copy_Valid, entries_from es 0 bytes)"
proof -
  obtain header where h: "read lba = Some header" "slice 0 8 header = EFI_PART"
    and hs: "92 \<le> unat (le_num (slice 12 16 header))" "unat (le_num (slice 12 16 header)) \<le> SECTOR"
      "crc32 (take (unat (le_num (slice 12 16 header))) (take 16 header @ replicate 4 0 @ drop 20 header)) =
        ucast (le_num (slice 16 20 header))"
    and es: "es = unat (le_num (slice 84 88 header))" "128 \<le> es" "es \<le> SECTOR" "es dvd SECTOR"
    and len: "length bytes = unat (le_num (slice 80 84 header)) * es" "0 < length bytes"
      "length bytes \<le> MAX_GPT_ARRAY_SECTORS * SECTOR"
    and crc: "crc32 bytes = ucast (le_num (slice 88 92 header))"
    and disk: "on_disk read (le_num (slice 72 80 header)) bytes"
    and fit: "unat (le_num (slice 72 80 header)) + (length bytes + SECTOR - 1) div SECTOR < 2 ^ 64"
      "\<forall>c. capacity = Some c \<longrightarrow>
        unat (le_num (slice 72 80 header)) + (length bytes + SECTOR - 1) div SECTOR \<le> unat c"
    using g unfolding good_table_def Let_def by blast
  define array where "array = le_num (slice 72 80 header)"
  define sectors where "sectors = (length bytes + SECTOR - 1) div SECTOR"
  have us: "unat (of_nat sectors :: u64) = sectors"
    using fit(1) by (simp add: unat_of_nat sectors_def)
  have fit': "unat array + sectors < 2 ^ 64" using fit(1) by (simp add: array_def sectors_def)
  have "checked_add array (of_nat sectors) = Some (array + of_nat sectors)"
    using fit' us by (simp add: unat_checked_add)
  moreover have "unat (array + of_nat sectors) = unat array + sectors"
    using fit' us unat_add_no_wrap [of array "of_nat sectors"] by simp
  moreover have "\<exists>r. gpt_array read keep es (length bytes) CRC_INIT 0 array [] = Inr r"
    using disk by (intro gpt_array_reads) (fastforce simp: on_disk_def array_def)
  then obtain c l where run: "gpt_array read keep es (length bytes) CRC_INIT 0 array [] = Inr (c, l)"
    by (metis prod.exhaust)
  have "\<exists>bs. length bs = length bytes - 0 \<and> on_disk read array bs \<and> c = crc32_update CRC_INIT bs \<and>
      l = [] @ entries_from es (0 div es) bs"
    using run assms(2) es by (intro gpt_array_entries) auto
  then have "c = crc32_update CRC_INIT bytes" "l = entries_from es 0 bytes"
    using on_disk_unique [of read array _ bytes] disk by (auto simp: array_def)
  moreover have "SECTOR mod es = 0" using es by (simp add: mod_eq_0_iff_dvd)
  moreover have "length bytes < 2 ^ 64" using len(3) by (simp add: MAX_GPT_ARRAY_SECTORS_def SECTOR_def)
  ultimately show ?thesis
    using h(2) hs es(2,3) len(2,3) crc run fit(2)
    unfolding read_gpt_def h(1) option.case Let_def es(1) [symmetric] len(1) [symmetric]
      array_def [symmetric] sectors_def [symmetric]
    by (simp add: crc32_def word_less_nat_alt not_less split: option.split)
qed

text \<open>(C7) A GPT copy validates exactly when it is a good table, and then the closure was handed
  exactly its entries: \<open>read_gpt\<close> answers \<open>Valid\<close> if and only if the header and the array pass their
  CRCs and the array lies inside the disk, and the caller's state is then the fold of its closure
  over all the entries of the array, in order, each with its own index and its own bytes.\<close>

theorem read_gpt_valid_iff:
  assumes "disk_ok read"
  shows "read_gpt read lba capacity entry e0 = (Copy_Valid, e) \<longleftrightarrow>
    (\<exists>es bytes. good_table read lba capacity es bytes \<and>
       e = hand_all entry e0 (entries_from es 0 bytes))"
  using read_gpt_keep_valid [OF _ assms] read_gpt_keep_good [OF _ assms]
  unfolding read_gpt_keep [of read lba capacity entry e0]
  by (cases "read_gpt read lba capacity keep []") fastforce

definition sample_header :: "u8 list" where
  "sample_header =
     [0x45, 0x46, 0x49, 0x20, 0x50, 0x41, 0x52, 0x54, 0x00, 0x00, 0x01, 0x00, 0x5c, 0x00, 0x00, 0x00,
      0xba, 0x23, 0x01, 0xb0, 0x00, 0x00, 0x00, 0x00, 0x01, 0x00, 0x00, 0x00, 0x00, 0x00, 0x00, 0x00,
      0x09, 0x00, 0x00, 0x00, 0x00, 0x00, 0x00, 0x00, 0x00, 0x00, 0x00, 0x00, 0x00, 0x00, 0x00, 0x00,
      0x00, 0x00, 0x00, 0x00, 0x00, 0x00, 0x00, 0x00, 0x00, 0x00, 0x00, 0x00, 0x00, 0x00, 0x00, 0x00,
      0x00, 0x00, 0x00, 0x00, 0x00, 0x00, 0x00, 0x00, 0x02, 0x00, 0x00, 0x00, 0x00, 0x00, 0x00, 0x00,
      0x01, 0x00, 0x00, 0x00, 0x80, 0x00, 0x00, 0x00, 0x8d, 0xfe, 0xa0, 0xb8] @ replicate 420 0"

definition sample_array :: "u8 list" where
  "sample_array =
     [0x45, 0xb0, 0x21, 0xb9, 0xf0, 0x1d, 0xc3, 0x41, 0xaf, 0x44, 0x4c, 0x6f, 0x28, 0x0d, 0x3f, 0xae,
      0x07, 0x07, 0x07, 0x07, 0x07, 0x07, 0x07, 0x07, 0x07, 0x07, 0x07, 0x07, 0x07, 0x07, 0x07, 0x07,
      0x03, 0x00, 0x00, 0x00, 0x00, 0x00, 0x00, 0x00, 0x05, 0x00, 0x00, 0x00, 0x00, 0x00, 0x00, 0x00,
      0x00, 0x00, 0x00, 0x00, 0x00, 0x00, 0x00, 0x00, 0x00, 0x00, 0x00, 0x00, 0x00, 0x00, 0x00, 0x00,
      0x00, 0x00, 0x00, 0x00, 0x00, 0x00, 0x00, 0x00, 0x00, 0x00, 0x00, 0x00, 0x00, 0x00, 0x00, 0x00,
      0x00, 0x00, 0x00, 0x00, 0x00, 0x00, 0x00, 0x00, 0x00, 0x00, 0x00, 0x00, 0x00, 0x00, 0x00, 0x00,
      0x00, 0x00, 0x00, 0x00, 0x00, 0x00, 0x00, 0x00, 0x00, 0x00, 0x00, 0x00, 0x00, 0x00, 0x00, 0x00,
      0x00, 0x00, 0x00, 0x00, 0x00, 0x00, 0x00, 0x00, 0x00, 0x00, 0x00, 0x00, 0x00, 0x00, 0x00, 0x00] @ replicate 384 0"

text \<open>A disk of ten sectors: a GPT with one entry, a root partition at sectors 3 to 5.\<close>

definition sample_gpt :: disk where
  "sample_gpt lba =
     (if lba = 1 then Some sample_header else if lba = 2 then Some sample_array
      else if lba < 10 then Some (replicate 512 0) else None)"

lemma crc32_update_simps:
  "crc32_update c [] = c" "crc32_update c (b # bs) = crc32_update (crc32_byte c b) bs"
  by (simp_all add: crc32_update_def)

lemma crc32_byte_unfold:
  "crc32_byte c b = crc32_bit (crc32_bit (crc32_bit (crc32_bit (crc32_bit (crc32_bit (crc32_bit
     (crc32_bit (c XOR ucast b))))))))"
  by (simp add: crc32_byte_def numeral_eq_Suc)

lemmas crc32_eval = crc32_def crc32_update_simps crc32_byte_unfold crc32_bit_if crc32_finish_def
  CRC_INIT_def

lemma sample_lengths [simp]: "length sample_header = 512" "length sample_array = 512"
  by (simp_all add: sample_header_def sample_array_def)

lemma sample_gpt_ok: "disk_ok sample_gpt"
  by (auto simp: disk_ok_def sample_gpt_def SECTOR_def split: if_splits)

lemma sample_header_fields:
  "slice 0 8 sample_header = EFI_PART" "le_num (slice 12 16 sample_header) = 92"
  "le_num (slice 72 80 sample_header) = 2" "le_num (slice 80 84 sample_header) = 1"
  "le_num (slice 84 88 sample_header) = 128"
  by (simp_all add: sample_header_def slice_def le_num_def EFI_PART_def)

lemma replicate_4: "replicate 4 x = [x, x, x, x]"
  by (simp add: numeral_eq_Suc)

lemma sample_header_crc:
  "crc32 (take 92 (take 16 sample_header @ replicate 4 0 @ drop 20 sample_header)) =
     ucast (le_num (slice 16 20 sample_header))"
  by (simp add: sample_header_def slice_def le_num_def replicate_4 crc32_eval)

lemma sample_array_crc:
  "crc32 (take 128 sample_array) = ucast (le_num (slice 88 92 sample_header))"
  by (simp add: sample_array_def sample_header_def slice_def le_num_def crc32_eval)

lemma sample_gpt_good: "good_table sample_gpt 1 (Some 10) 128 (take 128 sample_array)"
proof -
  have "on_disk sample_gpt 2 (take 128 sample_array)"
    by (rule on_disk_last) (simp_all add: sample_gpt_def SECTOR_def)
  moreover have "sample_gpt 1 = Some sample_header" by (simp add: sample_gpt_def)
  ultimately show ?thesis
    unfolding good_table_def Let_def
    using sample_header_crc sample_array_crc
    by (intro exI [of _ sample_header])
       (simp add: sample_header_fields SECTOR_def MAX_GPT_ARRAY_SECTORS_def min_def)
qed

theorem read_gpt_valid_iff_witness:
  "read_gpt sample_gpt 1 (Some 10) keep [] =
     (Copy_Valid, hand_all keep [] (entries_from 128 0 (take 128 sample_array)))"
  using read_gpt_valid_iff [OF sample_gpt_ok, of 1 "Some 10" keep "[]"
      "hand_all keep [] (entries_from 128 0 (take 128 sample_array))"] sample_gpt_good
  by blast

end
