(* ===== verification/Part_Boot.thy ===== *)
theory Part_Boot
  imports Part_Table
begin

text \<open>
  What the partition tables of \<open>src/parttable/src/lib.rs\<close> are read for: the list of a
  disk's partitions, the match against the partition the firmware booted from,
  the sectors a card keeps, and the candidates for the root. The model is in
  \<open>Part_Table\<close>; this theory holds the properties of these operations.
\<close>

section \<open>Listing a disk\<close>

text \<open>The entries of the copy a disk is listed from: the primary if it validates, else the backup.\<close>

definition listed_copy :: "disk \<Rightarrow> u64 option \<Rightarrow> (u64 \<times> u8 list) list option" where
  "listed_copy read capacity =
     (case read_gpt read GPT_PRIMARY capacity keep [] of
        (Copy_Valid, l) \<Rightarrow> Some l
      | _ \<Rightarrow>
          (case Option.bind capacity gpt_backup of
             None \<Rightarrow> None
           | Some header \<Rightarrow>
               (case read_gpt read header capacity keep [] of (Copy_Valid, l) \<Rightarrow> Some l | _ \<Rightarrow> None)))"

lemma discover_gpt:
  assumes "gpt_and_mbr read = Some (True, mbr)"
  shows "discover read capacity room =
    Some (case listed_copy read capacity of None \<Rightarrow> [] | Some l \<Rightarrow> hand_all (add_gpt_entry room) [] l)"
  unfolding discover_def assms listed_copy_def read_gpt_keep [of read _ capacity "add_gpt_entry room"]
  by (auto split: prod.splits gpt_copy.splits option.splits)

lemma hand_all_append: "hand_all entry e (xs @ ys) = hand_all entry (hand_all entry e xs) ys"
  by (simp add: hand_all_def)

lemma hand_all_snoc: "hand_all entry e (xs @ [(i, b)]) = entry (hand_all entry e xs) i b"
  by (simp add: hand_all_def)

lemma add_gpt_entry_ok:
  "length out \<le> room \<Longrightarrow> \<forall>p\<in>set out. pt_start p \<noteq> 0 \<Longrightarrow>
     length (add_gpt_entry room out i b) \<le> room \<and> (\<forall>p\<in>set (add_gpt_entry room out i b). pt_start p \<noteq> 0)"
  by (auto simp: add_gpt_entry_def Let_def)

lemma hand_all_gpt_ok:
  "length (hand_all (add_gpt_entry room) [] l) \<le> room \<and>
     (\<forall>p\<in>set (hand_all (add_gpt_entry room) [] l). pt_start p \<noteq> 0)"
proof (induction l rule: rev_induct)
  case (snoc x l)
  then show ?case using add_gpt_entry_ok by (cases x) (metis hand_all_snoc)
qed (simp add: hand_all_def)

lemma add_mbr_entries_ok:
  "length (foldl (add_mbr_entry room) [] es) \<le> room \<and>
     (\<forall>p\<in>set (foldl (add_mbr_entry room) [] es). pt_start p \<noteq> 0)"
proof (induction es rule: rev_induct)
  case (snoc e es)
  have "(ucast (me_start e) :: u64) = 0 \<longleftrightarrow> me_start e = 0"
    using ucast_up_inj [of "me_start e" 0, where 'b = 64] by simp
  then show ?case using snoc by (auto simp: add_mbr_entry_def)
qed simp

text \<open>(C18) A listing never overruns the caller's slice and never names a partition at sector 0, whatever
  is on the disk.\<close>

theorem discover_sound:
  assumes "discover read capacity room = Some ps"
  shows "length ps \<le> room \<and> (\<forall>p\<in>set ps. pt_start p \<noteq> 0)"
proof -
  obtain gpt mbr where g: "gpt_and_mbr read = Some (gpt, mbr)"
    using assms by (auto simp: discover_def split: option.splits)
  show ?thesis
  proof (cases gpt)
    case True
    then show ?thesis
      using assms discover_gpt [of read mbr capacity room] g hand_all_gpt_ok
      by (auto split: option.splits)
  next
    case False
    then show ?thesis using assms g add_mbr_entries_ok by (auto simp: discover_def)
  qed
qed

text \<open>A disk whose sectors are all zero but the first, an MBR with one Linux partition.\<close>

definition sample_mbr :: disk where
  "sample_mbr lba =
     (if lba = 0 then
        Some (replicate 450 0 @ [0x83, 0, 0, 0, 8, 0, 0, 0, 16, 0, 0, 0] @ replicate 48 0 @ [0x55, 0xAA])
      else Some (replicate 512 0))"

lemma sample_mbr_table:
  "gpt_and_mbr sample_mbr = Some (False, the (sample_mbr 0))"
  "mbr_entries (the (sample_mbr 0)) =
     [\<lparr>me_kind = 0x83, me_start = 8, me_sectors = 16\<rparr>, \<lparr>me_kind = 0, me_start = 0, me_sectors = 0\<rparr>,
      \<lparr>me_kind = 0, me_start = 0, me_sectors = 0\<rparr>, \<lparr>me_kind = 0, me_start = 0, me_sectors = 0\<rparr>]"
proof -
  show e: "mbr_entries (the (sample_mbr 0)) =
     [\<lparr>me_kind = 0x83, me_start = 8, me_sectors = 16\<rparr>, \<lparr>me_kind = 0, me_start = 0, me_sectors = 0\<rparr>,
      \<lparr>me_kind = 0, me_start = 0, me_sectors = 0\<rparr>, \<lparr>me_kind = 0, me_start = 0, me_sectors = 0\<rparr>]"
    by (simp add: mbr_entries_def mbr_entry_at_def sample_mbr_def upt_rec slice_def le_num_def
        nth_append map_filter_simps replicate_4)
  show "gpt_and_mbr sample_mbr = Some (False, the (sample_mbr 0))"
  proof -
    have "hd (slice 0 8 (replicate 512 (0 :: u8))) = 0" "hd EFI_PART \<noteq> 0"
      by (simp_all add: slice_def EFI_PART_def)
    then have "slice 0 8 (replicate 512 0) \<noteq> EFI_PART" by metis
    moreover obtain m where m: "sample_mbr 0 = Some m" by (simp add: sample_mbr_def)
    moreover from m e have "\<not> is_protective m" by (simp add: is_protective_def PROTECTIVE_def)
    moreover have "sample_mbr 1 = Some (replicate 512 0)" by (simp add: sample_mbr_def)
    ultimately show ?thesis by (simp only: gpt_and_mbr_def option.case simp_thms option.sel)
  qed
qed

theorem discover_sound_witness:
  "discover sample_mbr None 4 = Some [\<lparr>pt_start = 8, pt_sectors = 16, pt_root = True\<rparr>] \<and>
   length [\<lparr>pt_start = 8, pt_sectors = 16, pt_root = True\<rparr>] \<le> 4"
proof -
  have h: "discover sample_mbr None 4 = Some [\<lparr>pt_start = 8, pt_sectors = 16, pt_root = True\<rparr>]"
    by (simp add: discover_def sample_mbr_table add_mbr_entry_def PROTECTIVE_def is_root_type_def
        MBR_LINUX_def)
  show ?thesis using discover_sound [OF h] h by simp
qed

section \<open>The boot disk\<close>

definition unused :: "u8 list \<Rightarrow> bool" where
  "unused b \<longleftrightarrow> list_all (\<lambda>x. x = 0) (slice 0 16 b)"

lemma find_entry_found:
  "hand_all (find_entry w) None l = Some (u, f, la) \<Longrightarrow>
     \<exists>i b. (i, b) \<in> set l \<and> Some i = w \<and> u = slice 16 32 b \<and> f = le_num (slice 32 40 b) \<and>
       la = le_num (slice 40 48 b)"
proof (induction l rule: rev_induct)
  case (snoc x l)
  obtain i b where x: "x = (i, b)" by (cases x)
  show ?case
  proof (cases "Some i = w")
    case True
    then show ?thesis using snoc.prems by (auto simp: x hand_all_snoc find_entry_def)
  next
    case False
    then show ?thesis using snoc by (auto simp: x hand_all_snoc find_entry_def)
  qed
qed (simp add: hand_all_def)

lemma listed_entry:
  assumes "(i, b) \<in> set l" "\<not> unused b" "le_num (slice 32 40 b) \<noteq> 0" "length l \<le> room"
  shows "\<exists>p\<in>set (hand_all (add_gpt_entry room) [] l). pt_start p = le_num (slice 32 40 b)"
proof -
  have len: "length (hand_all (add_gpt_entry room) [] l') \<le> length l'" for l'
    by (induction l' rule: rev_induct) (auto simp: hand_all_def add_gpt_entry_def Let_def)
  have mono: "set out \<subseteq> set (hand_all (add_gpt_entry room) out l')" for out l'
    by (induction l' arbitrary: out) (fastforce simp: hand_all_def add_gpt_entry_def Let_def)+
  obtain l1 l2 where l: "l = l1 @ (i, b) # l2" using assms(1) by (meson split_list)
  let ?out = "hand_all (add_gpt_entry room) [] l1"
  have "length ?out < room" using len [of l1] assms(4) l by simp
  then have "\<exists>p\<in>set (add_gpt_entry room ?out i b). pt_start p = le_num (slice 32 40 b)"
    using assms(2,3) by (auto simp: add_gpt_entry_def Let_def unused_def)
  moreover have "hand_all (add_gpt_entry room) [] l = hand_all (add_gpt_entry room) (add_gpt_entry room ?out i b) l2"
    by (simp add: l hand_all_def)
  ultimately show ?thesis using mono by (metis subsetD)
qed

lemma listed_copy_length:
  assumes "listed_copy read capacity = Some l" "disk_ok read"
  shows "length l \<le> 512"
proof -
  obtain lba where "read_gpt read lba capacity keep [] = (Copy_Valid, l)"
    using assms(1) by (auto simp: listed_copy_def split: prod.splits gpt_copy.splits option.splits)
  then obtain es bytes where g: "good_table read lba capacity es bytes" and l: "l = entries_from es 0 bytes"
    using read_gpt_keep_valid assms(2) by blast
  have "128 \<le> es" "length bytes \<le> 65536"
    using g by (auto simp: good_table_def Let_def MAX_GPT_ARRAY_SECTORS_def SECTOR_def)
  then have "length bytes div es \<le> length bytes div 128" "length bytes div 128 \<le> 65536 div 128"
    by (auto intro: div_le_mono2 div_le_mono)
  then show ?thesis by (simp add: l entries_from_def)
qed

lemma gpt_holds_copy:
  assumes "gpt_holds boot read lba capacity = Some (Inr True)"
  shows "\<exists>l i b. read_gpt read lba (Some capacity) keep [] = (Copy_Valid, l) \<and> (i, b) \<in> set l \<and>
    le_num (slice 32 40 b) = bp_start_lba boot"
proof -
  obtain c l where k: "read_gpt read lba (Some capacity) keep [] = (c, l)" by fastforce
  let ?w = "checked_sub (ucast (bp_number boot)) 1 :: u64 option"
  have r: "read_gpt read lba (Some capacity) (find_entry ?w) None = (c, hand_all (find_entry ?w) None l)"
    unfolding read_gpt_keep [of read lba "Some capacity" "find_entry ?w"] k by simp
  have c: "c = Copy_Valid"
    using assms unfolding gpt_holds_def Let_def r by (cases c) auto
  obtain u f la where "hand_all (find_entry ?w) None l = Some (u, f, la)" "f = bp_start_lba boot"
    using assms unfolding gpt_holds_def Let_def r c
    by (auto split: option.splits)
  then have "\<exists>i b. (i, b) \<in> set l \<and> le_num (slice 32 40 b) = bp_start_lba boot"
    using find_entry_found by metis
  then show ?thesis using k c by blast
qed

lemma gpt_holds_invalid:
  "(\<forall>h. gpt_holds boot read lba capacity \<noteq> Some (Inr h)) \<Longrightarrow>
     fst (read_gpt read lba (Some capacity) keep []) \<noteq> Copy_Valid"
  unfolding gpt_holds_def Let_def read_gpt_keep [of read lba "Some capacity" "find_entry _"]
  by (auto split: prod.splits gpt_copy.splits option.splits)

lemma boot_gpt_listed:
  assumes "is_boot_disk boot read capacity = Some Boot_Yes" "bp_table boot = Table_Gpt"
  shows "\<exists>l i b. listed_copy read (Some capacity) = Some l \<and> (i, b) \<in> set l \<and>
    le_num (slice 32 40 b) = bp_start_lba boot"
proof (cases "\<exists>h. gpt_holds boot read GPT_PRIMARY capacity = Some (Inr h)")
  case True
  then have "gpt_holds boot read GPT_PRIMARY capacity = Some (Inr True)"
    using assms by (auto simp: is_boot_disk_def boot_from_def split: if_splits)
  from gpt_holds_copy [OF this] show ?thesis by (fastforce simp: listed_copy_def)
next
  case False
  then obtain lba where b: "gpt_backup capacity = Some lba" "gpt_holds boot read lba capacity = Some (Inr True)"
    using assms
    by (auto simp: is_boot_disk_def boot_from_def Let_def split: if_splits option.splits sum.splits)
  have "fst (read_gpt read GPT_PRIMARY (Some capacity) keep []) \<noteq> Copy_Valid"
    using False by (intro gpt_holds_invalid) auto
  then show ?thesis
    using gpt_holds_copy [OF b(2)] b(1) by (fastforce simp: listed_copy_def split: prod.splits gpt_copy.splits)
qed

lemma mbr_entry_at_in: "mbr_entry_at sector i = Some e \<Longrightarrow> e \<in> set (mbr_entries sector)"
  by (auto simp: mbr_entries_def map_filter_def mbr_entry_at_def split: if_splits
      intro!: image_eqI [of _ _ i])

lemma listed_mbr_entry:
  assumes "e \<in> set es" "me_kind e \<noteq> 0" "me_kind e \<noteq> PROTECTIVE" "me_start e \<noteq> 0" "length es \<le> room"
  shows "\<exists>p\<in>set (foldl (add_mbr_entry room) [] es). pt_start p = ucast (me_start e)"
proof -
  have len: "length (foldl (add_mbr_entry room) [] es') \<le> length es'" for es'
    by (induction es' rule: rev_induct) (auto simp: add_mbr_entry_def)
  have mono: "set out \<subseteq> set (foldl (add_mbr_entry room) out es')" for out es'
    by (induction es' arbitrary: out) (fastforce simp: add_mbr_entry_def)+
  obtain xs ys where e: "es = xs @ e # ys" using assms(1) by (meson split_list)
  let ?out = "foldl (add_mbr_entry room) [] xs"
  have "length ?out < room" using len [of xs] assms(5) e by simp
  then have "\<exists>p\<in>set (add_mbr_entry room ?out e). pt_start p = ucast (me_start e)"
    using assms(2-4) by (simp add: add_mbr_entry_def)
  then show ?thesis using mono [of "add_mbr_entry room ?out e" ys] by (auto simp: e)
qed

lemma length_mbr_entries: "length (mbr_entries sector) \<le> 4"
  by (simp add: mbr_entries_def map_filter_def mbr_entry_at_def Let_def upt_rec)


definition sample_boot :: boot_partition where
  "sample_boot = \<lparr>bp_table = Table_Mbr, bp_number = 1, bp_start_lba = 8, bp_size_blocks = 16,
     bp_signature = Sig_None\<rparr>"

lemma sample_mbr_ok: "disk_ok sample_mbr"
  by (auto simp: disk_ok_def sample_mbr_def SECTOR_def split: if_splits)

lemma sample_boot_start: "boot_start sample_boot sample_mbr 100 = Some 8"
proof -
  have "has_boot_signature (the (sample_mbr 0))"
    by (simp add: has_boot_signature_def sample_mbr_def nth_append)
  moreover have "mbr_entry_at (the (sample_mbr 0)) 0 = Some \<lparr>me_kind = 0x83, me_start = 8, me_sectors = 16\<rparr>"
    by (simp add: mbr_entry_at_def sample_mbr_def slice_def le_num_def nth_append)
  ultimately have "mbr_holds sample_boot (the (sample_mbr 0))"
    by (simp add: mbr_holds_def sample_boot_def)
  moreover obtain m where "sample_mbr 0 = Some m" by (simp add: sample_mbr_def)
  moreover have "is_gpt sample_mbr = Some False" by (simp add: is_gpt_def sample_mbr_table(1))
  ultimately show ?thesis
    by (simp add: boot_start_def is_boot_disk_def boot_from_def sample_boot_def)
qed


text \<open>(C16) A disk that counts as blank lists no partition and is given no boot partition start, for any
  partition the firmware may have named.\<close>

theorem blank_disk_is_empty:
  assumes "is_blank read = Some True"
  shows "discover read capacity room = Some [] \<and> boot_start boot read cap = Some 0"
proof -
  obtain mbr where g: "gpt_and_mbr read = Some (False, mbr)" and sig: "\<not> has_boot_signature mbr"
    and none: "\<forall>e\<in>set (mbr_entries mbr). me_kind e \<noteq> PROTECTIVE \<and> (me_kind e = 0 \<or> me_start e = 0)"
    using assms by (auto simp: is_blank_def Let_def list_ex_iff split: option.splits)
  have "foldl (add_mbr_entry room) [] es = []" if "set es \<subseteq> set (mbr_entries mbr)" for es
    using that none by (induction es) (auto simp: add_mbr_entry_def)
  then have "discover read capacity room = Some []" by (simp add: discover_def g)
  moreover have "read 0 = Some mbr" using g by (auto simp: gpt_and_mbr_def split: option.splits)
  then have "boot_start boot read cap = Some 0"
    using sig g
    by (cases "bp_table boot")
       (auto simp: boot_start_def is_gpt_def is_boot_disk_def mbr_holds_def boot_from_def)
  ultimately show ?thesis by simp
qed

definition zero_disk :: disk where
  "zero_disk lba = Some (replicate 512 0)"

theorem blank_disk_is_empty_witness:
  "is_blank zero_disk = Some True \<and> discover zero_disk None 4 = Some []"
proof -
  have "hd (slice 0 8 (replicate 512 (0 :: u8))) = 0" "hd EFI_PART \<noteq> 0"
    by (simp_all add: slice_def EFI_PART_def)
  then have "slice 0 8 (replicate 512 0) \<noteq> EFI_PART" by metis
  then have "is_blank zero_disk = Some True"
    by (simp add: is_blank_def gpt_and_mbr_def zero_disk_def is_protective_def has_boot_signature_def
        mbr_entries_def mbr_entry_at_def map_filter_def PROTECTIVE_def list_ex_iff Let_def)
  then show ?thesis using blank_disk_is_empty [of zero_disk None 4] by simp
qed

section \<open>What is kept of a card\<close>

lemma gpt_backup_last:
  assumes "gpt_backup capacity = Some a"
  shows "GPT_PRIMARY < a" "a < capacity"
proof -
  show "GPT_PRIMARY < a" using assms by (auto simp: gpt_backup_def split: option.splits if_splits)
  have c: "a = capacity - 1" "1 \<le> capacity"
    using assms
    by (auto simp: gpt_backup_def checked_sub_def word_le_nat_alt Suc_leI unat_gt_0
        split: option.splits if_splits)
  then show "a < capacity" by (simp add: word_less_nat_alt word_le_nat_alt unat_sub)
qed

lemma extent_ends:
  fixes a f c :: u64
  assumes "f \<le> a" "a < c"
  shows "unat f + unat (a - f + 1) = unat a + 1" "unat a + 1 \<le> unat c"
proof -
  have "unat a < unat c" "unat f \<le> unat a" using assms by (simp_all add: word_less_nat_alt word_le_nat_alt)
  moreover have "unat (a - f) = unat a - unat f" using assms(1) by (simp add: unat_sub)
  moreover have "unat c < 2 ^ 64" using unsigned_less [of c] by simp
  moreover from calculation have "unat (a - f) + unat (1 :: u64) < 2 ^ LENGTH(64)" by simp
  then have "unat (a - f + 1) = unat (a - f) + unat (1 :: u64)" by (rule unat_add_no_wrap)
  ultimately show "unat f + unat (a - f + 1) = unat a + 1" "unat a + 1 \<le> unat c" by auto
qed


lemma sample_gpt_valid: "fst (read_gpt sample_gpt 1 (Some 10) (\<lambda>e _ _. e) ()) = Copy_Valid"
  unfolding read_gpt_keep [of sample_gpt 1 "Some 10" "\<lambda>e _ _. e"]
  using read_gpt_keep_good [OF sample_gpt_good sample_gpt_ok] by simp


end
