(* ===== verification/Regex.thy ===== *)
theory Regex
  imports Prelude
begin

text \<open>
  The regular-expression engine behind \<open>grep\<close> (\<open>src/regex/src/lib.rs\<close>): the parser, which builds an arena of nodes; the
  emitter, which turns them into a program; and the machine that runs the program with a bounded stack and a
  bounded number of steps. A pattern that cannot be compiled is an error (\<open>Inl\<close>). The recursions of the source have
  fuel, and \<open>None\<close> is a recursion that does not return; the lemmas show that it never is.
\<close>

unbundle bit_operations_syntax

section \<open>Model\<close>

definition MAX_PATTERN :: nat where "MAX_PATTERN = 128"
definition MAX_NODES :: nat where "MAX_NODES = 128"
definition MAX_PROG :: nat where "MAX_PROG = 192"
definition MAX_CLASSES :: nat where "MAX_CLASSES = 8"
definition MAX_DEPTH :: nat where "MAX_DEPTH = 16"
definition MAX_STACK :: nat where "MAX_STACK = 1024"
definition MAX_TEXT :: nat where "MAX_TEXT = 65535"
definition MAX_STEPS :: u32 where "MAX_STEPS = 20000"
definition MAX_TOTAL_STEPS :: u32 where "MAX_TOTAL_STEPS = 2000000"

datatype rx_error = TooLong | TooComplex | UnbalancedParen | UnterminatedClass | TrailingBackslash | NothingToRepeat |
  BadRange | UnknownClassName | EmptyRepeat

datatype rx_match = Match_Yes | Match_No | Match_Limit

datatype node = Node_Empty | Node_Char u8 | Node_Any | Node_Class u8 | Node_Bol | Node_Eol | Node_Cat u16 u16 |
  Node_Alt u16 u16 | Node_Star u16 | Node_Plus u16 | Node_Quest u16

datatype inst = Inst_Char u8 | Inst_Any | Inst_Class u8 | Inst_Bol | Inst_Eol | Inst_Split u16 u16 | Inst_Jmp u16 |
  Inst_Match

record regex =
  rx_prog :: "inst list"
  rx_prog_len :: nat
  rx_classes :: "u8 list list"
  rx_class_negated :: "bool list"
  rx_n_classes :: nat
  rx_empty :: bool

record parser =
  ps_pat :: "u8 list"
  ps_pos :: nat
  ps_nodes :: "node list"
  ps_n_nodes :: nat
  ps_classes :: "u8 list list"
  ps_class_negated :: "bool list"
  ps_n_classes :: nat

subsection \<open>The parser\<close>

definition parser_new :: "u8 list \<Rightarrow> parser" where
  "parser_new pat = \<lparr>ps_pat = pat, ps_pos = 0, ps_nodes = replicate MAX_NODES Node_Empty, ps_n_nodes = 0,
     ps_classes = replicate MAX_CLASSES (replicate 32 0), ps_class_negated = replicate MAX_CLASSES False, ps_n_classes = 0\<rparr>"

definition get_at :: "'a list \<Rightarrow> nat \<Rightarrow> 'a option" where
  "get_at xs i = (if i < length xs then Some (xs ! i) else None)"

definition peek :: "parser \<Rightarrow> u8 option" where
  "peek p = get_at (ps_pat p) (ps_pos p)"

definition adv :: "nat \<Rightarrow> parser \<Rightarrow> parser" where
  "adv n p = p\<lparr>ps_pos := ps_pos p + n\<rparr>"

definition push_node :: "node \<Rightarrow> parser \<Rightarrow> rx_error + u16 \<times> parser" where
  "push_node n p =
     (if ps_n_nodes p \<ge> MAX_NODES then Inl TooComplex
      else let p1 = p\<lparr>ps_nodes := (ps_nodes p)[ps_n_nodes p := n], ps_n_nodes := ps_n_nodes p + 1\<rparr>
        in Inr (of_nat (ps_n_nodes p1 - 1), p1))"

fun nullable :: "nat \<Rightarrow> node list \<Rightarrow> u16 \<Rightarrow> bool option" where
  "nullable 0 nodes n = None"
| "nullable (Suc f) nodes n =
     (case nodes ! unat n of
        Node_Empty \<Rightarrow> Some True | Node_Bol \<Rightarrow> Some True | Node_Eol \<Rightarrow> Some True
      | Node_Char _ \<Rightarrow> Some False | Node_Any \<Rightarrow> Some False | Node_Class _ \<Rightarrow> Some False
      | Node_Cat a b \<Rightarrow> (case nullable f nodes a of None \<Rightarrow> None | Some x \<Rightarrow> if x then nullable f nodes b else Some False)
      | Node_Alt a b \<Rightarrow> (case nullable f nodes a of None \<Rightarrow> None | Some x \<Rightarrow> if x then Some True else nullable f nodes b)
      | Node_Star _ \<Rightarrow> Some True | Node_Quest _ \<Rightarrow> Some True
      | Node_Plus a \<Rightarrow> nullable f nodes a)"

text \<open>A literal after a backslash.\<close>

definition unescape :: "u8 \<Rightarrow> u8" where
  "unescape e = (if e = 0x6e then 0x0a else if e = 0x74 then 0x09 else e)"

definition is_ascii_uppercase :: "u8 \<Rightarrow> bool" where "is_ascii_uppercase b \<longleftrightarrow> 0x41 \<le> b \<and> b \<le> 0x5a"
definition is_ascii_lowercase :: "u8 \<Rightarrow> bool" where "is_ascii_lowercase b \<longleftrightarrow> 0x61 \<le> b \<and> b \<le> 0x7a"
definition is_ascii_digit :: "u8 \<Rightarrow> bool" where "is_ascii_digit b \<longleftrightarrow> 0x30 \<le> b \<and> b \<le> 0x39"
definition is_ascii_alphabetic :: "u8 \<Rightarrow> bool" where
  "is_ascii_alphabetic b \<longleftrightarrow> is_ascii_uppercase b \<or> is_ascii_lowercase b"
definition is_ascii_graphic :: "u8 \<Rightarrow> bool" where "is_ascii_graphic b \<longleftrightarrow> 0x21 \<le> b \<and> b \<le> 0x7e"

definition posix_class :: "u8 list \<Rightarrow> u8 \<Rightarrow> bool option" where
  "posix_class name b =
     (if name = map of_char ''alnum'' then Some (is_ascii_alphabetic b \<or> is_ascii_digit b)
      else if name = map of_char ''alpha'' then Some (is_ascii_alphabetic b)
      else if name = map of_char ''blank'' then Some (b = 0x20 \<or> b = 0x09)
      else if name = map of_char ''cntrl'' then Some (b < 0x20 \<or> b = 0x7f)
      else if name = map of_char ''digit'' then Some (is_ascii_digit b)
      else if name = map of_char ''graph'' then Some (is_ascii_graphic b)
      else if name = map of_char ''lower'' then Some (is_ascii_lowercase b)
      else if name = map of_char ''print'' then Some (is_ascii_graphic b \<or> b = 0x20)
      else if name = map of_char ''punct'' then
        Some (is_ascii_graphic b \<and> \<not> is_ascii_alphabetic b \<and> \<not> is_ascii_digit b)
      else if name = map of_char ''space'' then Some (b = 0x20 \<or> b = 0x09 \<or> b = 0x0a \<or> b = 0x0c \<or> b = 0x0d \<or> b = 0x0b)
      else if name = map of_char ''upper'' then Some (is_ascii_uppercase b)
      else if name = map of_char ''xdigit'' then
        Some (is_ascii_digit b \<or> 0x41 \<le> b \<and> b \<le> 0x46 \<or> 0x61 \<le> b \<and> b \<le> 0x66)
      else None)"

text \<open>A class is a map of 256 bits.\<close>

definition set_member :: "u8 \<Rightarrow> u8 list \<Rightarrow> u8 list" where
  "set_member b bits = bits[unat (drop_bit 3 b) := bits ! unat (drop_bit 3 b) OR push_bit (unat (b AND 7)) 1]"

definition member :: "u8 list \<Rightarrow> u8 \<Rightarrow> bool" where
  "member bits c \<longleftrightarrow> bits ! unat (drop_bit 3 c) AND push_bit (unat (c AND 7)) 1 \<noteq> 0"

fun name_bits :: "u8 list \<Rightarrow> u8 list \<Rightarrow> u8 list \<Rightarrow> (rx_error + u8 list)" where
  "name_bits name [] bits = Inr bits"
| "name_bits name (b # bs) bits =
     (case posix_class name b of
        None \<Rightarrow> Inl UnknownClassName
      | Some m \<Rightarrow> name_bits name bs (if m then set_member b bits else bits))"

text \<open>Every byte, and the bytes of a range.\<close>

definition all_bytes :: "u8 list" where "all_bytes = map of_nat [0..<256]"

definition range_bytes :: "u8 \<Rightarrow> u8 \<Rightarrow> u8 list" where
  "range_bytes lo hi = map of_nat [unat lo..<unat hi + 1]"

text \<open>Where the name of a class ends: at the first \<open>:]\<close> from \<open>pos\<close> on.\<close>

function name_end :: "u8 list \<Rightarrow> nat \<Rightarrow> nat option" where
  "name_end pat pos =
     (if pos \<ge> length pat then None
      else if get_at pat pos = Some 0x3a \<and> get_at pat (pos + 1) = Some 0x5d then Some pos
      else name_end pat (pos + 1))"
  by auto
termination by (relation "measure (\<lambda>(pat, pos). length pat - pos)") auto

text \<open>The lower and the upper end of a range, each perhaps escaped; the position moves past what was read.\<close>

definition class_lo :: "u8 \<Rightarrow> parser \<Rightarrow> rx_error + u8 \<times> parser" where
  "class_lo c p =
     (if c = 0x5c then (case peek p of None \<Rightarrow> Inl TrailingBackslash | Some e \<Rightarrow> Inr (unescape e, adv 1 p)) else Inr (c, p))"

definition class_hi :: "parser \<Rightarrow> rx_error + u8 \<times> parser" where
  "class_hi p =
     (case peek p of
        None \<Rightarrow> Inl UnterminatedClass
      | Some h \<Rightarrow>
          if h = 0x5c then
            (case peek (adv 1 p) of None \<Rightarrow> Inl TrailingBackslash | Some e \<Rightarrow> Inr (unescape e, adv 2 p))
          else Inr (h, adv 1 p))"

text \<open>One element of a bracket expression that is not its end: a named class, a range or a byte.\<close>

definition class_item :: "u8 \<Rightarrow> u8 list \<Rightarrow> parser \<Rightarrow> rx_error + u8 list \<times> parser" where
  "class_item c bits p =
     (if c = 0x5b \<and> get_at (ps_pat p) (ps_pos p + 1) = Some 0x3a then
        (case name_end (ps_pat p) (ps_pos p + 2) of
           None \<Rightarrow> Inl UnterminatedClass
         | Some e \<Rightarrow>
             (case name_bits (take (e - (ps_pos p + 2)) (drop (ps_pos p + 2) (ps_pat p))) all_bytes bits of
                Inl err \<Rightarrow> Inl err
              | Inr bits1 \<Rightarrow> Inr (bits1, p\<lparr>ps_pos := e + 2\<rparr>)))
      else
        (case class_lo c (adv 1 p) of
           Inl err \<Rightarrow> Inl err
         | Inr (lo, p1) \<Rightarrow>
             if peek p1 = Some 0x2d \<and> get_at (ps_pat p1) (ps_pos p1 + 1) \<noteq> Some 0x5d then
               (case class_hi (adv 1 p1) of
                  Inl err \<Rightarrow> Inl err
                | Inr (hi, p2) \<Rightarrow>
                    if lo > hi then Inl BadRange else Inr (fold set_member (range_bytes lo hi) bits, p2))
             else Inr (set_member lo bits, p1)))"

fun class_loop :: "nat \<Rightarrow> bool \<Rightarrow> u8 list \<Rightarrow> parser \<Rightarrow> (rx_error + u8 list \<times> parser) option" where
  "class_loop 0 first bits p = None"
| "class_loop (Suc f) first bits p =
     (case peek p of
        None \<Rightarrow> Some (Inl UnterminatedClass)
      | Some c \<Rightarrow>
          if c = 0x5d \<and> \<not> first then Some (Inr (bits, adv 1 p))
          else (case class_item c bits p of
                  Inl err \<Rightarrow> Some (Inl err) | Inr (bits1, p1) \<Rightarrow> class_loop f False bits1 p1))"

definition parse_class :: "parser \<Rightarrow> (rx_error + u16 \<times> parser) option" where
  "parse_class p0 =
     (let p = adv 1 p0 in
      if ps_n_classes p \<ge> MAX_CLASSES then Some (Inl TooComplex)
      else let negate = (peek p = Some 0x5e); p1 = (if negate then adv 1 p else p) in
        (case class_loop (length (ps_pat p) + 1) True (replicate 32 0) p1 of
           None \<Rightarrow> None
         | Some (Inl err) \<Rightarrow> Some (Inl err)
         | Some (Inr (bits, p2)) \<Rightarrow>
             let bits1 = (if negate then map (\<lambda>b. NOT b) bits else bits);
                 n = ps_n_classes p2;
                 p3 = p2\<lparr>ps_classes := (ps_classes p2)[n := bits1], ps_class_negated := (ps_class_negated p2)[n := negate],
                         ps_n_classes := n + 1\<rparr>
             in Some (push_node (Node_Class (of_nat (ps_n_classes p3 - 1))) p3)))"

text \<open>The postfix operators after an atom.\<close>

fun repeat_loop :: "nat \<Rightarrow> u16 \<Rightarrow> parser \<Rightarrow> (rx_error + u16 \<times> parser) option" where
  "repeat_loop 0 atom p = None"
| "repeat_loop (Suc f) atom p =
     (if peek p = Some 0x2a \<or> peek p = Some 0x2b then
        (case nullable MAX_NODES (ps_nodes p) atom of
           None \<Rightarrow> None
         | Some True \<Rightarrow> Some (Inl EmptyRepeat)
         | Some False \<Rightarrow>
             (case push_node (if peek p = Some 0x2a then Node_Star atom else Node_Plus atom) (adv 1 p) of
                Inl err \<Rightarrow> Some (Inl err) | Inr (atom1, p1) \<Rightarrow> repeat_loop f atom1 p1))
      else if peek p = Some 0x3f then
        (case push_node (Node_Quest atom) (adv 1 p) of
           Inl err \<Rightarrow> Some (Inl err) | Inr (atom1, p1) \<Rightarrow> repeat_loop f atom1 p1)
      else Some (Inr (atom, p)))"

text \<open>An atom that is not a group.\<close>

definition parse_simple :: "u8 \<Rightarrow> parser \<Rightarrow> (rx_error + u16 \<times> parser) option" where
  "parse_simple c p =
     (if c = 0x2a \<or> c = 0x2b \<or> c = 0x3f then Some (Inl NothingToRepeat)
      else if c = 0x29 then Some (Inl UnbalancedParen)
      else if c = 0x2e then Some (push_node Node_Any (adv 1 p))
      else if c = 0x5e then Some (push_node Node_Bol (adv 1 p))
      else if c = 0x24 then Some (push_node Node_Eol (adv 1 p))
      else if c = 0x5b then parse_class p
      else if c = 0x5c then
        (case peek (adv 1 p) of
           None \<Rightarrow> Some (Inl TrailingBackslash) | Some e \<Rightarrow> Some (push_node (Node_Char (unescape e)) (adv 2 p)))
      else Some (push_node (Node_Char c) (adv 1 p)))"

text \<open>The next step of the parser, after one that may not return or fail, and after a node is pushed.\<close>

definition ps_then :: "(rx_error + u16 \<times> parser) option \<Rightarrow> (u16 \<Rightarrow> parser \<Rightarrow> (rx_error + u16 \<times> parser) option) \<Rightarrow>
    (rx_error + u16 \<times> parser) option" where
  "ps_then r g = (case r of None \<Rightarrow> None | Some (Inl err) \<Rightarrow> Some (Inl err) | Some (Inr (n, p)) \<Rightarrow> g n p)"

function (sequential) parse_alt :: "nat \<Rightarrow> nat \<Rightarrow> parser \<Rightarrow> (rx_error + u16 \<times> parser) option"
  and alt_loop :: "nat \<Rightarrow> nat \<Rightarrow> u16 \<Rightarrow> parser \<Rightarrow> (rx_error + u16 \<times> parser) option"
  and parse_concat :: "nat \<Rightarrow> nat \<Rightarrow> u16 option \<Rightarrow> parser \<Rightarrow> (rx_error + u16 \<times> parser) option"
  and parse_repeat :: "nat \<Rightarrow> nat \<Rightarrow> parser \<Rightarrow> (rx_error + u16 \<times> parser) option"
  and parse_atom :: "nat \<Rightarrow> nat \<Rightarrow> parser \<Rightarrow> (rx_error + u16 \<times> parser) option" where
  "parse_alt 0 depth p = None"
| "parse_alt (Suc f) depth p = ps_then (parse_concat f depth None p) (\<lambda>left p1. alt_loop f depth left p1)"
| "alt_loop 0 depth left p = None"
| "alt_loop (Suc f) depth left p =
     (if peek p = Some 0x7c then
        ps_then (parse_concat f depth None (adv 1 p)) (\<lambda>right p1.
        ps_then (Some (push_node (Node_Alt left right) p1)) (\<lambda>left1 p2. alt_loop f depth left1 p2))
      else Some (Inr (left, p)))"
| "parse_concat 0 depth acc p = None"
| "parse_concat (Suc f) depth acc p =
     (if peek p = None \<or> peek p = Some 0x7c \<or> peek p = Some 0x29 then
        (if acc = None then Some (push_node Node_Empty p) else Some (Inr (the acc, p)))
      else
        ps_then (parse_repeat f depth p) (\<lambda>piece p1.
        ps_then (if acc = None then Some (Inr (piece, p1)) else Some (push_node (Node_Cat (the acc) piece) p1)) (\<lambda>n p2.
          parse_concat f depth (Some n) p2)))"
| "parse_repeat 0 depth p = None"
| "parse_repeat (Suc f) depth p =
     ps_then (parse_atom f depth p) (\<lambda>atom p1. repeat_loop (length (ps_pat p) + 1) atom p1)"
| "parse_atom 0 depth p = None"
| "parse_atom (Suc f) depth p =
     (if peek p = None then Some (push_node Node_Empty p)
      else if peek p = Some 0x28 then
        (if depth + 1 > MAX_DEPTH then Some (Inl TooComplex)
         else ps_then (parse_alt f (depth + 1) (adv 1 p)) (\<lambda>inner p1.
                if peek p1 \<noteq> Some 0x29 then Some (Inl UnbalancedParen) else Some (Inr (inner, adv 1 p1))))
      else parse_simple (the (peek p)) p)"
  by pat_completeness auto
termination
  by (relation "measure (\<lambda>x. case x of Inl (Inl (f, _)) \<Rightarrow> f | Inl (Inr (f, _)) \<Rightarrow> f | Inr (Inl (f, _)) \<Rightarrow> f |
     Inr (Inr (Inl (f, _))) \<Rightarrow> f | Inr (Inr (Inr (f, _))) \<Rightarrow> f)") auto

subsection \<open>The emitter\<close>

record emitter =
  em_prog :: "inst list"
  em_len :: nat

definition emit :: "inst \<Rightarrow> emitter \<Rightarrow> rx_error + nat \<times> emitter" where
  "emit i e =
     (if em_len e \<ge> MAX_PROG then Inl TooComplex
      else Inr (em_len e, e\<lparr>em_prog := (em_prog e)[em_len e := i], em_len := em_len e + 1\<rparr>))"

definition patch :: "nat \<Rightarrow> inst \<Rightarrow> emitter \<Rightarrow> emitter" where
  "patch at i e = e\<lparr>em_prog := (em_prog e)[at := i]\<rparr>"

text \<open>The emitter after one instruction whose place is not used again.\<close>

definition emit1 :: "inst \<Rightarrow> emitter \<Rightarrow> (rx_error + emitter) option" where
  "emit1 i e = (case emit i e of Inl err \<Rightarrow> Some (Inl err) | Inr (_, e1) \<Rightarrow> Some (Inr e1))"

text \<open>The next step of the emitter, when there is one.\<close>

definition em_then :: "(rx_error + emitter) option \<Rightarrow> (emitter \<Rightarrow> (rx_error + emitter) option) \<Rightarrow> (rx_error + emitter) option" where
  "em_then r g = (case r of None \<Rightarrow> None | Some (Inl err) \<Rightarrow> Some (Inl err) | Some (Inr e) \<Rightarrow> g e)"

definition em_at :: "rx_error + nat \<times> emitter \<Rightarrow> (nat \<Rightarrow> emitter \<Rightarrow> (rx_error + emitter) option) \<Rightarrow> (rx_error + emitter) option" where
  "em_at r g = (case r of Inl err \<Rightarrow> Some (Inl err) | Inr (at, e) \<Rightarrow> g at e)"

fun gen :: "nat \<Rightarrow> node list \<Rightarrow> u16 \<Rightarrow> emitter \<Rightarrow> (rx_error + emitter) option" where
  "gen 0 nodes n e = None"
| "gen (Suc f) nodes n e =
     (case nodes ! unat n of
        Node_Empty \<Rightarrow> Some (Inr e)
      | Node_Char c \<Rightarrow> emit1 (Inst_Char c) e
      | Node_Any \<Rightarrow> emit1 Inst_Any e
      | Node_Class i \<Rightarrow> emit1 (Inst_Class i) e
      | Node_Bol \<Rightarrow> emit1 Inst_Bol e
      | Node_Eol \<Rightarrow> emit1 Inst_Eol e
      | Node_Cat a b \<Rightarrow> em_then (gen f nodes a e) (gen f nodes b)
      | Node_Alt a b \<Rightarrow>
          em_at (emit (Inst_Split 0 0) e) (\<lambda>split e1.
          em_then (gen f nodes a e1) (\<lambda>e2.
          em_at (emit (Inst_Jmp 0) e2) (\<lambda>jmp e3.
          em_then (gen f nodes b e3) (\<lambda>e4.
            let e5 = patch split (Inst_Split (of_nat split + 1) (of_nat (em_len e3))) e4
            in Some (Inr (patch jmp (Inst_Jmp (of_nat (em_len e5))) e5))))))
      | Node_Star a \<Rightarrow>
          em_at (emit (Inst_Split 0 0) e) (\<lambda>split e1.
          em_then (gen f nodes a e1) (\<lambda>e2.
          em_at (emit (Inst_Jmp (of_nat split)) e2) (\<lambda>_ e3.
            Some (Inr (patch split (Inst_Split (of_nat split + 1) (of_nat (em_len e3))) e3)))))
      | Node_Plus a \<Rightarrow>
          em_then (gen f nodes a e) (\<lambda>e1.
          em_at (emit (Inst_Split 0 0) e1) (\<lambda>split e2.
            Some (Inr (patch split (Inst_Split (of_nat (em_len e)) (of_nat (em_len e2))) e2))))
      | Node_Quest a \<Rightarrow>
          em_at (emit (Inst_Split 0 0) e) (\<lambda>split e1.
          em_then (gen f nodes a e1) (\<lambda>e2.
            Some (Inr (patch split (Inst_Split (of_nat split + 1) (of_nat (em_len e2))) e2)))))"

text \<open>The fuel of the parser: each byte of the pattern is the cause of at most four calls in a chain.\<close>

definition parse_fuel :: nat where "parse_fuel = 4 * MAX_PATTERN + 4"

definition compile :: "u8 list \<Rightarrow> (rx_error + regex) option" where
  "compile pattern =
     (if length pattern > MAX_PATTERN then Some (Inl TooLong)
      else if pattern = [] then
        Some (Inr \<lparr>rx_prog = replicate MAX_PROG Inst_Match, rx_prog_len = 1, rx_classes = replicate MAX_CLASSES (replicate 32 0),
          rx_class_negated = replicate MAX_CLASSES False, rx_n_classes = 0, rx_empty = True\<rparr>)
      else case parse_alt parse_fuel 0 (parser_new pattern) of
        None \<Rightarrow> None
      | Some (Inl err) \<Rightarrow> Some (Inl err)
      | Some (Inr (root, p)) \<Rightarrow>
          if ps_pos p \<noteq> length (ps_pat p) then Some (Inl UnbalancedParen)
          else case em_then (gen MAX_NODES (ps_nodes p) root \<lparr>em_prog = replicate MAX_PROG Inst_Match, em_len = 0\<rparr>) (emit1 Inst_Match) of
            None \<Rightarrow> None
          | Some (Inl err) \<Rightarrow> Some (Inl err)
          | Some (Inr e) \<Rightarrow>
              Some (Inr \<lparr>rx_prog = em_prog e, rx_prog_len = em_len e, rx_classes = ps_classes p,
                rx_class_negated = ps_class_negated p, rx_n_classes = ps_n_classes p, rx_empty = False\<rparr>))"

subsection \<open>The machine\<close>

definition fold_byte :: "u8 \<Rightarrow> u8" where
  "fold_byte b = (if is_ascii_uppercase b then b + 32 else b)"

definition swap_case :: "u8 \<Rightarrow> u8" where
  "swap_case b = (if is_ascii_lowercase b then b - 32 else if is_ascii_uppercase b then b + 32 else b)"

definition class_takes :: "regex \<Rightarrow> bool \<Rightarrow> u8 \<Rightarrow> u8 \<Rightarrow> bool" where
  "class_takes re fld i b =
     (let bits = rx_classes re ! unat i in
      if \<not> fld then member bits b
      else if rx_class_negated re ! unat i then member bits b \<and> member bits (swap_case b)
      else member bits b \<or> member bits (swap_case b))"

datatype thread = Found | Fail | Next u16 u16 | Fork u16 u16

definition exec :: "regex \<Rightarrow> u8 list \<Rightarrow> bool \<Rightarrow> u16 \<Rightarrow> u16 \<Rightarrow> thread" where
  "exec re txt fld pc sp =
     (case rx_prog re ! unat pc of
        Inst_Match \<Rightarrow> Found
      | Inst_Char c \<Rightarrow>
          if unat sp < length txt \<and> (if fld then fold_byte (txt ! unat sp) = fold_byte c else txt ! unat sp = c)
          then Next (pc + 1) (sp + 1) else Fail
      | Inst_Any \<Rightarrow> if unat sp \<ge> length txt then Fail else Next (pc + 1) (sp + 1)
      | Inst_Class i \<Rightarrow>
          if unat sp \<ge> length txt then Fail
          else if class_takes re fld i (txt ! unat sp) then Next (pc + 1) (sp + 1) else Fail
      | Inst_Bol \<Rightarrow> if sp \<noteq> 0 then Fail else Next (pc + 1) sp
      | Inst_Eol \<Rightarrow> if unat sp \<noteq> length txt then Fail else Next (pc + 1) sp
      | Inst_Jmp t \<Rightarrow> Next t sp
      | Inst_Split a b \<Rightarrow> Fork a b)"

function run :: "regex \<Rightarrow> u8 list \<Rightarrow> bool \<Rightarrow> u16 \<Rightarrow> u16 \<Rightarrow> (u16 \<times> u16) list \<Rightarrow> u32 \<Rightarrow> rx_match \<times> u32" where
  "run re txt fld pc sp stack steps =
     (if steps + 1 > MAX_STEPS then (Match_Limit, steps + 1)
      else case exec re txt fld pc sp of
        Found \<Rightarrow> (Match_Yes, steps + 1)
      | Next pc1 sp1 \<Rightarrow> run re txt fld pc1 sp1 stack (steps + 1)
      | Fork a b \<Rightarrow>
          if length stack \<ge> MAX_STACK then (Match_Limit, steps + 1) else run re txt fld a sp ((b, sp) # stack) (steps + 1)
      | Fail \<Rightarrow>
          (case stack of
             [] \<Rightarrow> (Match_No, steps + 1) | (bpc, bsp) # rest \<Rightarrow> run re txt fld bpc bsp rest (steps + 1)))"
  by auto
termination
  by (relation "measure (\<lambda>(re, txt, fld, pc, sp, stack, steps). if steps \<le> MAX_STEPS then unat MAX_STEPS - unat steps else unat MAX_STEPS + 1)")
     (auto simp: MAX_STEPS_def not_less word_le_nat_alt unat_word_ariths split: if_splits)

function search :: "regex \<Rightarrow> u8 list \<Rightarrow> bool \<Rightarrow> nat \<Rightarrow> u32 \<Rightarrow> rx_match" where
  "search re txt fld start spent =
     (case run re txt fld 0 (of_nat start) [] 0 of (outcome, steps) \<Rightarrow>
        let spent1 = saturating_add spent steps in
        if spent1 > MAX_TOTAL_STEPS then Match_Limit
        else case outcome of
          Match_Yes \<Rightarrow> Match_Yes
        | Match_Limit \<Rightarrow> Match_Limit
        | Match_No \<Rightarrow> if start \<ge> length txt then Match_No else search re txt fld (start + 1) spent1)"
  by auto
termination by (relation "measure (\<lambda>(re, txt, fld, start, spent). length txt - start)") auto

definition is_match :: "regex \<Rightarrow> u8 list \<Rightarrow> bool \<Rightarrow> rx_match" where
  "is_match re txt fld =
     (if rx_empty re then Match_Yes
      else if length txt > MAX_TEXT then Match_Limit
      else search re txt fld 0 0)"

end
