(* ===== verification/Regex_Machine.thy ===== *)
theory Regex_Machine
  imports Regex
begin

text \<open>
  What a pattern means, and that the compiled program decides it: the matches of an expression in a text, the layout
  of the code of an expression, and the machine's threads. The emitter lays the code out; the machine's answer
  is the truth about the matches unless it gives up; and no thread runs forever, because nothing that can
  match the empty text is repeated.
\<close>

section \<open>Expressions and their matches\<close>

text \<open>A bracket expression is the set of the bytes written in it, and whether it is negated.\<close>

datatype ere = E_Empty | E_Char u8 | E_Any | E_Class bool "u8 set" | E_Bol | E_Eol | E_Cat ere ere | E_Alt ere ere |
  E_Star ere | E_Plus ere | E_Quest ere

definition char_is :: "bool \<Rightarrow> u8 \<Rightarrow> u8 \<Rightarrow> bool" where
  "char_is fld c b \<longleftrightarrow> (if fld then fold_byte b = fold_byte c else b = c)"

definition in_class :: "bool \<Rightarrow> bool \<Rightarrow> u8 set \<Rightarrow> u8 \<Rightarrow> bool" where
  "in_class fld neg W b \<longleftrightarrow> (b \<in> W \<or> fld \<and> swap_case b \<in> W) \<noteq> neg"

inductive match_at :: "u8 list \<Rightarrow> bool \<Rightarrow> ere \<Rightarrow> nat \<Rightarrow> nat \<Rightarrow> bool" for tx fld where
  m_empty: "match_at tx fld E_Empty i i"
| m_char: "i < length tx \<Longrightarrow> char_is fld c (tx ! i) \<Longrightarrow> match_at tx fld (E_Char c) i (Suc i)"
| m_any: "i < length tx \<Longrightarrow> match_at tx fld E_Any i (Suc i)"
| m_class: "i < length tx \<Longrightarrow> in_class fld neg W (tx ! i) \<Longrightarrow> match_at tx fld (E_Class neg W) i (Suc i)"
| m_bol: "match_at tx fld E_Bol 0 0"
| m_eol: "match_at tx fld E_Eol (length tx) (length tx)"
| m_cat: "match_at tx fld a i j \<Longrightarrow> match_at tx fld b j k \<Longrightarrow> match_at tx fld (E_Cat a b) i k"
| m_alt1: "match_at tx fld a i j \<Longrightarrow> match_at tx fld (E_Alt a b) i j"
| m_alt2: "match_at tx fld b i j \<Longrightarrow> match_at tx fld (E_Alt a b) i j"
| m_star0: "match_at tx fld (E_Star a) i i"
| m_star: "match_at tx fld a i j \<Longrightarrow> match_at tx fld (E_Star a) j k \<Longrightarrow> match_at tx fld (E_Star a) i k"
| m_plus1: "match_at tx fld a i j \<Longrightarrow> match_at tx fld (E_Plus a) i j"
| m_plus: "match_at tx fld a i j \<Longrightarrow> match_at tx fld (E_Plus a) j k \<Longrightarrow> match_at tx fld (E_Plus a) i k"
| m_quest0: "match_at tx fld (E_Quest a) i i"
| m_quest: "match_at tx fld a i j \<Longrightarrow> match_at tx fld (E_Quest a) i j"

primrec may_be_empty :: "ere \<Rightarrow> bool" where
  "may_be_empty E_Empty = True"
| "may_be_empty (E_Char c) = False"
| "may_be_empty E_Any = False"
| "may_be_empty (E_Class neg W) = False"
| "may_be_empty E_Bol = True"
| "may_be_empty E_Eol = True"
| "may_be_empty (E_Cat a b) = (may_be_empty a \<and> may_be_empty b)"
| "may_be_empty (E_Alt a b) = (may_be_empty a \<or> may_be_empty b)"
| "may_be_empty (E_Star a) = True"
| "may_be_empty (E_Plus a) = may_be_empty a"
| "may_be_empty (E_Quest a) = True"

text \<open>Nothing that may match the empty text is repeated.\<close>

primrec repeats_ok :: "ere \<Rightarrow> bool" where
  "repeats_ok E_Empty = True"
| "repeats_ok (E_Char c) = True"
| "repeats_ok E_Any = True"
| "repeats_ok (E_Class neg W) = True"
| "repeats_ok E_Bol = True"
| "repeats_ok E_Eol = True"
| "repeats_ok (E_Cat a b) = (repeats_ok a \<and> repeats_ok b)"
| "repeats_ok (E_Alt a b) = (repeats_ok a \<and> repeats_ok b)"
| "repeats_ok (E_Star a) = (repeats_ok a \<and> \<not> may_be_empty a)"
| "repeats_ok (E_Plus a) = (repeats_ok a \<and> \<not> may_be_empty a)"
| "repeats_ok (E_Quest a) = repeats_ok a"

section \<open>Threads\<close>

definition succs :: "regex \<Rightarrow> u8 list \<Rightarrow> bool \<Rightarrow> u16 \<times> u16 \<Rightarrow> (u16 \<times> u16) list" where
  "succs re tx fld t =
     (case exec re tx fld (fst t) (snd t) of
        Found \<Rightarrow> [] | Fail \<Rightarrow> [] | Next a b \<Rightarrow> [(a, b)] | Fork a b \<Rightarrow> [(a, snd t), (b, snd t)])"

text \<open>A thread that reaches the end of the program in at most so many steps.\<close>

inductive accepts_in :: "regex \<Rightarrow> u8 list \<Rightarrow> bool \<Rightarrow> nat \<Rightarrow> u16 \<times> u16 \<Rightarrow> bool" for re tx fld where
  now: "exec re tx fld pc sp = Found \<Longrightarrow> accepts_in re tx fld n (pc, sp)"
| later: "t' \<in> set (succs re tx fld t) \<Longrightarrow> accepts_in re tx fld n t' \<Longrightarrow> accepts_in re tx fld (Suc n) t"

definition accepts :: "regex \<Rightarrow> u8 list \<Rightarrow> bool \<Rightarrow> u16 \<times> u16 \<Rightarrow> bool" where
  "accepts re tx fld t \<longleftrightarrow> (\<exists>n. accepts_in re tx fld n t)"

lemma accepts_unfold:
  "accepts re tx fld (pc, sp) \<longleftrightarrow> exec re tx fld pc sp = Found \<or> (\<exists>t\<in>set (succs re tx fld (pc, sp)). accepts re tx fld t)"
  by (auto simp: accepts_def intro: accepts_in.intros elim: accepts_in.cases)

lemma accepts_exec:
  "accepts re tx fld (pc, sp) =
     (case exec re tx fld pc sp of
        Found \<Rightarrow> True | Fail \<Rightarrow> False | Next a b \<Rightarrow> accepts re tx fld (a, b)
      | Fork a b \<Rightarrow> accepts re tx fld (a, sp) \<or> accepts re tx fld (b, sp))"
  by (subst accepts_unfold) (auto simp: succs_def split: thread.splits)

text \<open>The machine's answer is about the thread it is in and those on its stack.\<close>

lemma run_yes:
  "fst (run re tx fld pc sp stack steps) = Match_Yes \<Longrightarrow> \<exists>t\<in>set ((pc, sp) # stack). accepts re tx fld t"
proof (induction re tx fld pc sp stack steps rule: run.induct)
  case (1 re tx fld pc sp stack steps)
  show ?case
    using 1 by (cases "exec re tx fld pc sp"; cases stack)
      (auto simp: accepts_exec [of re tx fld pc sp] simp del: run.simps split: if_splits
        simp: run.simps [of re tx fld pc sp])
qed

lemma run_no:
  "fst (run re tx fld pc sp stack steps) = Match_No \<Longrightarrow> \<forall>t\<in>set ((pc, sp) # stack). \<not> accepts re tx fld t"
proof (induction re tx fld pc sp stack steps rule: run.induct)
  case (1 re tx fld pc sp stack steps)
  show ?case
    using 1 by (cases "exec re tx fld pc sp"; cases stack)
      (auto simp: accepts_exec [of re tx fld pc sp] simp del: run.simps split: if_splits
        simp: run.simps [of re tx fld pc sp])
qed

lemma search_decides:
  "search re tx fld start spent \<noteq> Match_Limit \<Longrightarrow> start \<le> length tx \<Longrightarrow>
   search re tx fld start spent = Match_Yes \<longleftrightarrow> (\<exists>i. start \<le> i \<and> i \<le> length tx \<and> accepts re tx fld (0, of_nat i))"
proof (induction re tx fld start spent rule: search.induct)
  case (1 re tx fld start spent)
  obtain outcome steps where r: "run re tx fld 0 (of_nat start) [] 0 = (outcome, steps)" by fastforce
  have y: "outcome = Match_Yes \<Longrightarrow> accepts re tx fld (0, of_nat start)" "outcome = Match_No \<Longrightarrow> \<not> accepts re tx fld (0, of_nat start)"
    using run_yes [of re tx fld 0 "of_nat start" "[]" 0] run_no [of re tx fld 0 "of_nat start" "[]" 0] r by auto
  have lim: "\<not> saturating_add spent steps > MAX_TOTAL_STEPS" using 1(2) r by (auto simp: Let_def split: if_splits)
  show ?case
  proof (cases outcome)
    case Match_Yes
    then show ?thesis using r lim y 1(3) by (auto simp: Let_def)
  next
    case Match_Limit
    then show ?thesis using 1(2) r lim by (simp add: Let_def)
  next
    case Match_No
    show ?thesis
    proof (cases "start \<ge> length tx")
      case True
      then have "start = length tx" using 1(3) by simp
      then show ?thesis using Match_No r lim y by (auto simp: Let_def)
    next
      case False
      have e: "search re tx fld start spent = search re tx fld (start + 1) (saturating_add spent steps)"
        using r lim Match_No False by (simp add: Let_def)
      have "search re tx fld start spent = Match_Yes \<longleftrightarrow> (\<exists>i. start + 1 \<le> i \<and> i \<le> length tx \<and> accepts re tx fld (0, of_nat i))"
        using 1(1) [OF r [symmetric] refl lim Match_No False] 1(2) False e by simp
      also have "\<dots> \<longleftrightarrow> (\<exists>i. start \<le> i \<and> i \<le> length tx \<and> accepts re tx fld (0, of_nat i))"
        using y(2) [OF Match_No] by (metis Suc_eq_plus1 Suc_leD le_antisym not_less_eq_eq)
      finally show ?thesis .
    qed
  qed
qed

section \<open>Code\<close>

text \<open>Whether a class of the program is a bracket expression.\<close>

definition class_is :: "regex \<Rightarrow> u8 \<Rightarrow> bool \<Rightarrow> u8 set \<Rightarrow> bool" where
  "class_is re i neg W \<longleftrightarrow> rx_class_negated re ! unat i = neg \<and> (\<forall>b. member (rx_classes re ! unat i) b \<longleftrightarrow> (b \<in> W) \<noteq> neg)"

lemma class_takes_iff: "class_is re i neg W \<Longrightarrow> class_takes re fld i b \<longleftrightarrow> in_class fld neg W b"
  by (auto simp: class_is_def class_takes_def in_class_def Let_def)

text \<open>The instructions from \<open>p\<close> up to \<open>q\<close> are those of an expression.\<close>

primrec code :: "regex \<Rightarrow> ere \<Rightarrow> nat \<Rightarrow> nat \<Rightarrow> bool" where
  "code re E_Empty p q \<longleftrightarrow> q = p"
| "code re (E_Char c) p q \<longleftrightarrow> rx_prog re ! p = Inst_Char c \<and> q = Suc p"
| "code re E_Any p q \<longleftrightarrow> rx_prog re ! p = Inst_Any \<and> q = Suc p"
| "code re (E_Class neg W) p q \<longleftrightarrow> (\<exists>i. rx_prog re ! p = Inst_Class i \<and> class_is re i neg W) \<and> q = Suc p"
| "code re E_Bol p q \<longleftrightarrow> rx_prog re ! p = Inst_Bol \<and> q = Suc p"
| "code re E_Eol p q \<longleftrightarrow> rx_prog re ! p = Inst_Eol \<and> q = Suc p"
| "code re (E_Cat a b) p q \<longleftrightarrow> (\<exists>m. code re a p m \<and> code re b m q)"
| "code re (E_Alt a b) p q \<longleftrightarrow>
     (\<exists>m. rx_prog re ! p = Inst_Split (of_nat (Suc p)) (of_nat (Suc m)) \<and> code re a (Suc p) m \<and>
        rx_prog re ! m = Inst_Jmp (of_nat q) \<and> code re b (Suc m) q)"
| "code re (E_Star a) p q \<longleftrightarrow>
     (\<exists>m. rx_prog re ! p = Inst_Split (of_nat (Suc p)) (of_nat q) \<and> code re a (Suc p) m \<and>
        rx_prog re ! m = Inst_Jmp (of_nat p) \<and> q = Suc m)"
| "code re (E_Plus a) p q \<longleftrightarrow>
     (\<exists>m. code re a p m \<and> rx_prog re ! m = Inst_Split (of_nat p) (of_nat q) \<and> q = Suc m)"
| "code re (E_Quest a) p q \<longleftrightarrow>
     rx_prog re ! p = Inst_Split (of_nat (Suc p)) (of_nat q) \<and> code re a (Suc p) q"

lemma code_le: "code re r p q \<Longrightarrow> p \<le> q"
  by (induction r arbitrary: p q) (auto, (meson order_trans Suc_leD le_SucI)+)

text \<open>A thread of the machine, by the numbers of its instruction and of its place in the text.\<close>

abbreviation th :: "nat \<Rightarrow> nat \<Rightarrow> u16 \<times> u16" where
  "th p i \<equiv> (of_nat p, of_nat i)"

lemma exec_th:
  assumes "p < 65536" "i < 65536"
  shows "exec re tx fld (of_nat p) (of_nat i) =
    (case rx_prog re ! p of
       Inst_Match \<Rightarrow> Found
     | Inst_Char c \<Rightarrow> if i < length tx \<and> char_is fld c (tx ! i) then Next (of_nat (Suc p)) (of_nat (Suc i)) else Fail
     | Inst_Any \<Rightarrow> if i \<ge> length tx then Fail else Next (of_nat (Suc p)) (of_nat (Suc i))
     | Inst_Class c \<Rightarrow> if i < length tx \<and> class_takes re fld c (tx ! i) then Next (of_nat (Suc p)) (of_nat (Suc i)) else Fail
     | Inst_Bol \<Rightarrow> if i \<noteq> 0 then Fail else Next (of_nat (Suc p)) (of_nat i)
     | Inst_Eol \<Rightarrow> if i \<noteq> length tx then Fail else Next (of_nat (Suc p)) (of_nat i)
     | Inst_Jmp t \<Rightarrow> Next t (of_nat i)
     | Inst_Split a b \<Rightarrow> Fork a b)"
proof -
  have u: "unat (of_nat p :: u16) = p" "unat (of_nat i :: u16) = i" using assms by (simp_all add: unat_of_nat)
  have z: "(of_nat i :: u16) = 0 \<longleftrightarrow> i = 0" using u(2) by (simp add: word_unat_eq_iff)
  show ?thesis unfolding exec_def u
    by (cases "rx_prog re ! p") (simp_all add: z char_is_def add.commute)
qed

lemma match_at_le: "match_at tx fld r i j \<Longrightarrow> i \<le> length tx \<Longrightarrow> i \<le> j \<and> j \<le> length tx"
  by (induction rule: match_at.induct) auto

text \<open>A match takes a thread from the start of the code to its end.\<close>

lemma match_accepted:
  assumes "match_at tx fld r i j" "i \<le> length tx" "length tx < 65536" "code re r p q" "q < 65536" "accepts re tx fld (th q j)"
  shows "accepts re tx fld (th p i)"
  using assms
proof (induction arbitrary: p q rule: match_at.induct)
  case (m_class i neg W)
  then show ?case by (auto simp: accepts_exec [of _ _ _ "of_nat p"] exec_th class_takes_iff)
next
  case m_bol
  then show ?case using exec_th [of p 0 re tx fld] by (simp add: accepts_exec [of _ _ _ "of_nat p"])
next
  case (m_cat a i j b k)
  obtain m where m: "code re a p m" "code re b m q" using m_cat.prems(3) by auto
  have l: "j \<le> length tx" "m < 65536" using match_at_le [OF m_cat.hyps(1) m_cat.prems(1)] code_le [OF m(2)] m_cat.prems(4) by simp_all
  show ?case using m_cat.IH(1) [OF m_cat.prems(1,2) m(1) l(2)] m_cat.IH(2) [OF l(1) m_cat.prems(2) m(2) m_cat.prems(4,5)] by blast
next
  case (m_alt1 a i j b)
  obtain m where m: "rx_prog re ! p = Inst_Split (of_nat (Suc p)) (of_nat (Suc m))" "code re a (Suc p) m" "rx_prog re ! m = Inst_Jmp (of_nat q)"
    "code re b (Suc m) q" using m_alt1.prems(3) by auto
  have l: "m < 65536" "p < 65536" "i < 65536" "j < 65536"
    using code_le [OF m(4)] code_le [OF m(2)] m_alt1.prems(1,2,4) match_at_le [OF m_alt1.hyps m_alt1.prems(1)] by simp_all
  have "accepts re tx fld (th m j)" using m(3) l m_alt1.prems(5) by (simp add: accepts_exec [of _ _ _ "of_nat m"] exec_th)
  from m_alt1.IH [OF m_alt1.prems(1,2) m(2) l(1) this] show ?case using m(1) l by (simp add: accepts_exec [of _ _ _ "of_nat p"] exec_th)
next
  case (m_alt2 b i j a)
  obtain m where m: "rx_prog re ! p = Inst_Split (of_nat (Suc p)) (of_nat (Suc m))" "code re a (Suc p) m"
    "code re b (Suc m) q" using m_alt2.prems(3) by auto
  have l: "p < 65536" "i < 65536" using code_le [OF m(3)] code_le [OF m(2)] m_alt2.prems(1,2,4) by simp_all
  from m_alt2.IH [OF m_alt2.prems(1,2) m(3) m_alt2.prems(4,5)] show ?case using m(1) l by (simp add: accepts_exec [of _ _ _ "of_nat p"] exec_th)
next
  case (m_star0 a i)
  then obtain m where m: "rx_prog re ! p = Inst_Split (of_nat (Suc p)) (of_nat q)" "code re a (Suc p) m" "q = Suc m" by auto
  then show ?case using m_star0 code_le [OF m(2)] by (simp add: accepts_exec [of _ _ _ "of_nat p"] exec_th)
next
  case (m_star a i j k)
  obtain m where m: "rx_prog re ! p = Inst_Split (of_nat (Suc p)) (of_nat q)" "code re a (Suc p) m" "rx_prog re ! m = Inst_Jmp (of_nat p)" "q = Suc m"
    using m_star.prems(3) by auto
  have l: "m < 65536" "p < 65536" "i < 65536" "j \<le> length tx" "j < 65536"
    using code_le [OF m(2)] m(4) m_star.prems(1,2,4) match_at_le [OF m_star.hyps(1) m_star.prems(1)] by simp_all
  have "accepts re tx fld (th p j)" using m_star.IH(2) [OF l(4) m_star.prems(2-5)] .
  then have "accepts re tx fld (th m j)" using m(3) l by (simp add: accepts_exec [of _ _ _ "of_nat m"] exec_th)
  from m_star.IH(1) [OF m_star.prems(1,2) m(2) l(1) this] show ?case using m(1) l by (simp add: accepts_exec [of _ _ _ "of_nat p"] exec_th)
next
  case (m_plus1 a i j)
  obtain m where m: "code re a p m" "rx_prog re ! m = Inst_Split (of_nat p) (of_nat q)" "q = Suc m" using m_plus1.prems(3) by auto
  have l: "m < 65536" "j < 65536" using m(3) m_plus1.prems(1,2,4) match_at_le [OF m_plus1.hyps m_plus1.prems(1)] by simp_all
  have "accepts re tx fld (th m j)" using m(2) l m_plus1.prems(5) by (simp add: accepts_exec [of _ _ _ "of_nat m"] exec_th)
  then show ?case using m_plus1.IH [OF m_plus1.prems(1,2) m(1) l(1)] by blast
next
  case (m_plus a i j k)
  obtain m where m: "code re a p m" "rx_prog re ! m = Inst_Split (of_nat p) (of_nat q)" "q = Suc m" using m_plus.prems(3) by auto
  have l: "m < 65536" "j \<le> length tx" "j < 65536" using m(3) m_plus.prems(1,2,4) match_at_le [OF m_plus.hyps(1) m_plus.prems(1)] by simp_all
  have "accepts re tx fld (th p j)" using m_plus.IH(2) [OF l(2) m_plus.prems(2-5)] .
  then have "accepts re tx fld (th m j)" using m(2) l by (simp add: accepts_exec [of _ _ _ "of_nat m"] exec_th)
  then show ?case using m_plus.IH(1) [OF m_plus.prems(1,2) m(1) l(1)] by blast
next
  case (m_quest0 a i)
  then show ?case using code_le [of re a "Suc p" q] by (simp add: accepts_exec [of _ _ _ "of_nat p"] exec_th)
next
  case (m_quest a i j)
  then show ?case using m_quest.IH [of "Suc p" q] code_le [of re a "Suc p" q] by (simp add: accepts_exec [of _ _ _ "of_nat p"] exec_th)
qed (auto simp: accepts_exec [of _ _ _ "of_nat p" for p] exec_th)

text \<open>The other way: a thread that gets through passes the end of the code, with a match and in no more steps.\<close>

lemma accepts_in_exec:
  assumes "accepts_in re tx fld n (pc, sp)"
  shows "exec re tx fld pc sp = Found \<or>
    (\<exists>m<n. case exec re tx fld pc sp of
       Next a b \<Rightarrow> accepts_in re tx fld m (a, b)
     | Fork a b \<Rightarrow> accepts_in re tx fld m (a, sp) \<or> accepts_in re tx fld m (b, sp) | _ \<Rightarrow> False)"
  using assms by (cases rule: accepts_in.cases) (auto simp: succs_def split: thread.splits)

lemma accepts_in_split:
  assumes "accepts_in re tx fld n (th p i)" "rx_prog re ! p = Inst_Split (of_nat a) (of_nat b)" "p < 65536" "i < 65536"
  shows "\<exists>m<n. accepts_in re tx fld m (th a i) \<or> accepts_in re tx fld m (th b i)"
  using accepts_in_exec [OF assms(1)] assms(2-4) by (simp add: exec_th)

lemma accepts_in_jmp:
  assumes "accepts_in re tx fld n (th p i)" "rx_prog re ! p = Inst_Jmp (of_nat a)" "p < 65536" "i < 65536"
  shows "\<exists>m<n. accepts_in re tx fld m (th a i)"
  using accepts_in_exec [OF assms(1)] assms(2-4) by (simp add: exec_th)

definition passes :: "regex \<Rightarrow> u8 list \<Rightarrow> bool \<Rightarrow> ere \<Rightarrow> nat \<Rightarrow> nat \<Rightarrow> bool" where
  "passes re tx fld r p q \<longleftrightarrow> (\<forall>n i. i \<le> length tx \<and> accepts_in re tx fld n (th p i) \<longrightarrow>
     (\<exists>j m. match_at tx fld r i j \<and> m \<le> n \<and> accepts_in re tx fld m (th q j)))"

lemma passes_one:
  assumes "\<And>i. i \<le> length tx \<Longrightarrow> exec re tx fld (of_nat p) (of_nat i) = Fail \<or>
    match_at tx fld r i (f i) \<and> exec re tx fld (of_nat p) (of_nat i) = Next (of_nat (Suc p)) (of_nat (f i))"
  shows "passes re tx fld r p (Suc p)"
  unfolding passes_def
proof (intro allI impI)
  fix n i assume t: "i \<le> length tx \<and> accepts_in re tx fld n (th p i)"
  from assms [of i] t accepts_in_exec [OF conjunct2 [OF t]]
  obtain j m where "match_at tx fld r i j" "m < n" "accepts_in re tx fld m (th (Suc p) j)" by auto
  then show "\<exists>j m. match_at tx fld r i j \<and> m \<le> n \<and> accepts_in re tx fld m (th (Suc p) j)" by (meson less_imp_le)
qed

lemma passes_star:
  assumes "passes re tx fld a (Suc p) m" "rx_prog re ! p = Inst_Split (of_nat (Suc p)) (of_nat q)" "rx_prog re ! m = Inst_Jmp (of_nat p)"
    "length tx < 65536" "p < 65536" "m < 65536"
  shows "passes re tx fld (E_Star a) p q"
proof -
  have "\<exists>j m. match_at tx fld (E_Star a) i j \<and> m \<le> n \<and> accepts_in re tx fld m (th q j)"
    if "accepts_in re tx fld n (th p i)" "i \<le> length tx" for n i
    using that
  proof (induction n arbitrary: i rule: less_induct)
    case (less n)
    obtain n1 where n1: "n1 < n" "accepts_in re tx fld n1 (th (Suc p) i) \<or> accepts_in re tx fld n1 (th q i)"
      using accepts_in_split [OF less.prems(1) assms(2,5)] less.prems(2) assms(4) by auto
    show ?case
    proof (cases "accepts_in re tx fld n1 (th q i)")
      case True
      then show ?thesis using n1(1) match_at.m_star0 [of tx fld a i] by (meson less_imp_le)
    next
      case False
      then obtain j m1 where j: "match_at tx fld a i j" "m1 \<le> n1" "accepts_in re tx fld m1 (th m j)"
        using assms(1) n1(2) less.prems(2) unfolding passes_def by blast
      have l: "j \<le> length tx" using match_at_le [OF j(1) less.prems(2)] by simp
      obtain m2 where m2: "m2 < m1" "accepts_in re tx fld m2 (th p j)"
        using accepts_in_jmp [OF j(3) assms(3,6)] l assms(4) by auto
      obtain k m3 where k: "match_at tx fld (E_Star a) j k" "m3 \<le> m2" "accepts_in re tx fld m3 (th q k)"
        using less.IH [of m2 j] m2 j(2) n1(1) l by auto
      show ?thesis using match_at.m_star [OF j(1) k(1)] k(2,3) m2(1) j(2) n1(1) by (meson le_trans less_imp_le)
    qed
  qed
  then show ?thesis by (auto simp: passes_def)
qed

lemma passes_plus:
  assumes "passes re tx fld a p m" "rx_prog re ! m = Inst_Split (of_nat p) (of_nat q)" "length tx < 65536" "m < 65536"
  shows "passes re tx fld (E_Plus a) p q"
proof -
  have "\<exists>j m. match_at tx fld (E_Plus a) i j \<and> m \<le> n \<and> accepts_in re tx fld m (th q j)"
    if "accepts_in re tx fld n (th p i)" "i \<le> length tx" for n i
    using that
  proof (induction n arbitrary: i rule: less_induct)
    case (less n)
    obtain j m1 where j: "match_at tx fld a i j" "m1 \<le> n" "accepts_in re tx fld m1 (th m j)"
      using assms(1) less.prems unfolding passes_def by blast
    have l: "j \<le> length tx" using match_at_le [OF j(1) less.prems(2)] by simp
    obtain m2 where m2: "m2 < m1" "accepts_in re tx fld m2 (th p j) \<or> accepts_in re tx fld m2 (th q j)"
      using accepts_in_split [OF j(3) assms(2,4)] l assms(3) by auto
    show ?case
    proof (cases "accepts_in re tx fld m2 (th q j)")
      case True
      then show ?thesis using match_at.m_plus1 [OF j(1)] m2(1) j(2) by (meson le_trans less_imp_le)
    next
      case False
      then obtain k m3 where k: "match_at tx fld (E_Plus a) j k" "m3 \<le> m2" "accepts_in re tx fld m3 (th q k)"
        using less.IH [of m2 j] m2 j(2) l by auto
      show ?thesis using match_at.m_plus [OF j(1) k(1)] k(2,3) m2(1) j(2) by (meson le_trans less_imp_le)
    qed
  qed
  then show ?thesis by (auto simp: passes_def)
qed

lemma passes_alt:
  assumes "passes re tx fld a (Suc p) m" "passes re tx fld b (Suc m) q"
    "rx_prog re ! p = Inst_Split (of_nat (Suc p)) (of_nat (Suc m))" "rx_prog re ! m = Inst_Jmp (of_nat q)"
    "length tx < 65536" "p < 65536" "m < 65536"
  shows "passes re tx fld (E_Alt a b) p q"
  unfolding passes_def
proof (intro allI impI)
  fix n i assume t: "i \<le> length tx \<and> accepts_in re tx fld n (th p i)"
  obtain n1 where n1: "n1 < n" "accepts_in re tx fld n1 (th (Suc p) i) \<or> accepts_in re tx fld n1 (th (Suc m) i)"
    using accepts_in_split [OF conjunct2 [OF t] assms(3,6)] t assms(5) by auto
  show "\<exists>j m. match_at tx fld (E_Alt a b) i j \<and> m \<le> n \<and> accepts_in re tx fld m (th q j)"
  proof (cases "accepts_in re tx fld n1 (th (Suc m) i)")
    case True
    then obtain j m1 where "match_at tx fld b i j" "m1 \<le> n1" "accepts_in re tx fld m1 (th q j)"
      using assms(2) t unfolding passes_def by blast
    then show ?thesis using match_at.m_alt2 n1(1) by (meson le_trans less_imp_le)
  next
    case False
    then obtain j m1 where j: "match_at tx fld a i j" "m1 \<le> n1" "accepts_in re tx fld m1 (th m j)"
      using assms(1) t n1(2) unfolding passes_def by blast
    then have "j \<le> length tx" using match_at_le [OF j(1)] t by simp
    then obtain m2 where "m2 < m1" "accepts_in re tx fld m2 (th q j)" using accepts_in_jmp [OF j(3) assms(4,7)] assms(5) by auto
    then show ?thesis using match_at.m_alt1 [OF j(1)] j(2) n1(1) by (meson le_trans less_imp_le)
  qed
qed

lemma code_passes:
  assumes "code re r p q" "length tx < 65536" "q < 65536"
  shows "passes re tx fld r p q"
  using assms(1,3)
proof (induction r arbitrary: p q)
  case (E_Cat a b)
  then obtain m where m: "code re a p m" "code re b m q" by auto
  have "passes re tx fld a p m" "passes re tx fld b m q" using E_Cat.IH m code_le [OF m(2)] E_Cat.prems(2) by simp_all
  then show ?case unfolding passes_def by (meson le_trans match_at.m_cat match_at_le)
next
  case (E_Alt a b)
  then obtain m where m: "rx_prog re ! p = Inst_Split (of_nat (Suc p)) (of_nat (Suc m))" "code re a (Suc p) m"
    "rx_prog re ! m = Inst_Jmp (of_nat q)" "code re b (Suc m) q" by auto
  have l: "m < 65536" "p < 65536" using code_le [OF m(4)] code_le [OF m(2)] E_Alt.prems(2) by simp_all
  show ?case by (rule passes_alt [OF E_Alt.IH(1) [OF m(2) l(1)] E_Alt.IH(2) [OF m(4) E_Alt.prems(2)] m(1,3) assms(2) l(2,1)])
next
  case (E_Star a)
  then obtain m where m: "rx_prog re ! p = Inst_Split (of_nat (Suc p)) (of_nat q)" "code re a (Suc p) m"
    "rx_prog re ! m = Inst_Jmp (of_nat p)" "q = Suc m" by auto
  have l: "m < 65536" "p < 65536" using code_le [OF m(2)] m(4) E_Star.prems(2) by simp_all
  show ?case by (rule passes_star [OF E_Star.IH [OF m(2) l(1)] m(1,3) assms(2) l(2,1)])
next
  case (E_Plus a)
  then obtain m where m: "code re a p m" "rx_prog re ! m = Inst_Split (of_nat p) (of_nat q)" "q = Suc m" by auto
  then have l: "m < 65536" using E_Plus.prems(2) by simp
  show ?case by (rule passes_plus [OF E_Plus.IH [OF m(1) l] m(2) assms(2) l])
next
  case (E_Quest a)
  then have m: "rx_prog re ! p = Inst_Split (of_nat (Suc p)) (of_nat q)" "code re a (Suc p) q" by simp_all
  have l: "p < 65536" using code_le [OF m(2)] E_Quest.prems(2) by simp
  show ?case unfolding passes_def
    using accepts_in_split [OF _ m(1) l] E_Quest.IH [OF m(2) E_Quest.prems(2)] assms(2) unfolding passes_def
    by (meson le_less_trans le_trans less_imp_le match_at.m_quest match_at.m_quest0)
next
  case E_Empty
  then show ?case by (auto simp: passes_def intro: match_at.m_empty)
next
  case (E_Char c)
  then show ?case using assms(2) by (auto intro!: passes_one [where f = Suc] simp: exec_th match_at.m_char split: if_splits)
next
  case E_Any
  then show ?case using assms(2) by (auto intro!: passes_one [where f = Suc] simp: exec_th match_at.m_any not_le split: if_splits)
next
  case (E_Class neg W)
  then show ?case using assms(2) by (auto intro!: passes_one [where f = Suc] simp: exec_th class_takes_iff match_at.m_class split: if_splits)
next
  case E_Bol
  then show ?case using assms(2) match_at.m_bol [of tx fld] by (auto intro!: passes_one [where f = id] simp: exec_th split: if_splits)
next
  case E_Eol
  then show ?case using assms(2) by (auto intro!: passes_one [where f = id] simp: exec_th match_at.m_eol split: if_splits)
qed

text \<open>The program of an expression, followed by the instruction that ends it, accepts where the expression matches.\<close>

lemma code_accepts:
  assumes "code re r 0 q" "q < 65536" "rx_prog re ! q = Inst_Match" "length tx < 65536" "i \<le> length tx"
  shows "accepts re tx fld (0, of_nat i) \<longleftrightarrow> (\<exists>j. match_at tx fld r i j)"
proof
  assume "accepts re tx fld (0, of_nat i)"
  then obtain n where "accepts_in re tx fld n (th 0 i)" by (auto simp: accepts_def)
  then show "\<exists>j. match_at tx fld r i j" using code_passes [OF assms(1,4,2), of fld] assms(5) unfolding passes_def by blast
next
  assume "\<exists>j. match_at tx fld r i j"
  then obtain j where j: "match_at tx fld r i j" by blast
  have "j < 65536" using match_at_le [OF j assms(5)] assms(4) by simp
  then have "accepts re tx fld (th q j)" using assms(2,3) by (simp add: accepts_exec [of _ _ _ "of_nat q"] exec_th)
  from match_accepted [OF j assms(5,4,1,2) this] show "accepts re tx fld (0, of_nat i)" by simp
qed

lemma is_match_code:
  assumes "code re r 0 q" "q < 65536" "rx_prog re ! q = Inst_Match" "\<not> rx_empty re" "is_match re tx fld \<noteq> Match_Limit"
  shows "is_match re tx fld = Match_Yes \<longleftrightarrow> (\<exists>i j. i \<le> length tx \<and> match_at tx fld r i j)"
proof -
  have l: "length tx < 65536" using assms(4,5) by (auto simp: is_match_def MAX_TEXT_def split: if_splits)
  then have s: "is_match re tx fld = search re tx fld 0 0" using assms(4) by (simp add: is_match_def MAX_TEXT_def)
  show ?thesis
    using search_decides [of re tx fld 0 0] assms(5) code_accepts [OF assms(1-3) l] unfolding s by auto
qed

section \<open>No thread runs forever\<close>

definition ends :: "regex \<Rightarrow> u8 list \<Rightarrow> bool \<Rightarrow> u16 \<times> u16 \<Rightarrow> bool" where
  "ends re tx fld = Wellfounded.accp (\<lambda>t' t. t' \<in> set (succs re tx fld t))"

lemma ends_exec:
  "ends re tx fld (pc, sp) \<longleftrightarrow>
     (case exec re tx fld pc sp of
        Next a b \<Rightarrow> ends re tx fld (a, b) | Fork a b \<Rightarrow> ends re tx fld (a, sp) \<and> ends re tx fld (b, sp) | _ \<Rightarrow> True)"
  unfolding ends_def by (subst accp.simps) (auto simp: succs_def split: thread.splits)

lemma ends_finite: "ends re tx fld t \<Longrightarrow> f 0 = t \<Longrightarrow> \<exists>n. f (Suc n) \<notin> set (succs re tx fld (f n))"
  unfolding ends_def
proof (induction arbitrary: f rule: accp_induct_rule)
  case (1 t)
  show ?case
  proof (cases "f (Suc 0) \<in> set (succs re tx fld (f 0))")
    case True
    then show ?thesis using 1(2) [of "f (Suc 0)" "\<lambda>n. f (Suc n)"] 1(3) by auto
  qed blast
qed

text \<open>Threads at the start of the code end, if those that leave it do: an expression that cannot match the empty
  text is left further on.\<close>

definition ends_through :: "regex \<Rightarrow> u8 list \<Rightarrow> bool \<Rightarrow> ere \<Rightarrow> nat \<Rightarrow> nat \<Rightarrow> bool" where
  "ends_through re tx fld r p q \<longleftrightarrow> (\<forall>i \<le> length tx.
     (\<forall>j \<le> length tx. i \<le> j \<and> (may_be_empty r \<or> i < j) \<longrightarrow> ends re tx fld (th q j)) \<longrightarrow> ends re tx fld (th p i))"

lemma ends_star:
  assumes "ends_through re tx fld a (Suc p) m" "\<not> may_be_empty a" "rx_prog re ! p = Inst_Split (of_nat (Suc p)) (of_nat q)"
    "rx_prog re ! m = Inst_Jmp (of_nat p)" "length tx < 65536" "p < 65536" "m < 65536"
    and "i \<le> length tx" "\<And>j. i \<le> j \<Longrightarrow> j \<le> length tx \<Longrightarrow> ends re tx fld (th q j)"
  shows "ends re tx fld (th p i)"
  using assms(8,9)
proof (induction "length tx - i" arbitrary: i rule: less_induct)
  case less
  have "ends re tx fld (th m j)" if "i < j" "j \<le> length tx" for j
  proof -
    have "ends re tx fld (th p j)" using less.hyps [of j] that less.prems(2) by auto
    then show ?thesis using assms(4,5,7) that by (simp add: ends_exec [of _ _ _ "of_nat m"] exec_th)
  qed
  then have "ends re tx fld (th (Suc p) i)" using assms(1,2) less.prems(1) unfolding ends_through_def by auto
  then show ?case using assms(3,5,6) less.prems by (simp add: ends_exec [of _ _ _ "of_nat p"] exec_th)
qed

lemma ends_plus:
  assumes "ends_through re tx fld a p m" "\<not> may_be_empty a" "rx_prog re ! m = Inst_Split (of_nat p) (of_nat q)"
    "length tx < 65536" "m < 65536" and "i \<le> length tx" "\<And>j. i < j \<Longrightarrow> j \<le> length tx \<Longrightarrow> ends re tx fld (th q j)"
  shows "ends re tx fld (th p i)"
  using assms(6,7)
proof (induction "length tx - i" arbitrary: i rule: less_induct)
  case less
  have "ends re tx fld (th m j)" if "i < j" "j \<le> length tx" for j
  proof -
    have "ends re tx fld (th p j)" using less.hyps [of j] that less.prems(2) by auto
    then show ?thesis using assms(3,4,5) that less.prems(2) by (simp add: ends_exec [of _ _ _ "of_nat m"] exec_th)
  qed
  then show ?case using assms(1,2) less.prems(1) unfolding ends_through_def by auto
qed

lemma ends_one:
  assumes "\<And>i. i \<le> length tx \<Longrightarrow> exec re tx fld (of_nat p) (of_nat i) = Fail \<or>
    f i \<le> length tx \<and> i \<le> f i \<and> (may_be_empty r \<or> i < f i) \<and> exec re tx fld (of_nat p) (of_nat i) = Next (of_nat (Suc p)) (of_nat (f i))"
  shows "ends_through re tx fld r p (Suc p)"
  unfolding ends_through_def
proof (intro allI impI)
  fix i assume i: "i \<le> length tx" "\<forall>j\<le>length tx. i \<le> j \<and> (may_be_empty r \<or> i < j) \<longrightarrow> ends re tx fld (th (Suc p) j)"
  then show "ends re tx fld (th p i)" using assms [OF i(1)] by (subst ends_exec) auto
qed

lemma ends_cat:
  assumes "ends_through re tx fld a p m" "ends_through re tx fld b m q"
  shows "ends_through re tx fld (E_Cat a b) p q"
  unfolding ends_through_def
proof (intro allI impI)
  fix i assume i: "i \<le> length tx" "\<forall>j\<le>length tx. i \<le> j \<and> (may_be_empty (E_Cat a b) \<or> i < j) \<longrightarrow> ends re tx fld (th q j)"
  have "ends re tx fld (th m j)" if "j \<le> length tx" "i \<le> j" "may_be_empty a \<or> i < j" for j
    using assms(2) i(2) that unfolding ends_through_def by fastforce
  then show "ends re tx fld (th p i)" using assms(1) i(1) unfolding ends_through_def by blast
qed

lemma code_ends:
  assumes "code re r p q" "length tx < 65536" "q < 65536" "repeats_ok r"
  shows "ends_through re tx fld r p q"
  using assms(1,3,4)
proof (induction r arbitrary: p q)
  case (E_Cat a b)
  then obtain m where m: "code re a p m" "code re b m q" by auto
  have "ends_through re tx fld a p m" "ends_through re tx fld b m q" using E_Cat.IH m code_le [OF m(2)] E_Cat.prems(2,3) by simp_all
  then show ?case by (rule ends_cat)
next
  case (E_Alt a b)
  then obtain m where m: "rx_prog re ! p = Inst_Split (of_nat (Suc p)) (of_nat (Suc m))" "code re a (Suc p) m"
    "rx_prog re ! m = Inst_Jmp (of_nat q)" "code re b (Suc m) q" by auto
  have l: "m < 65536" "p < 65536" using code_le [OF m(4)] code_le [OF m(2)] E_Alt.prems(2) by simp_all
  have t: "ends_through re tx fld a (Suc p) m" "ends_through re tx fld b (Suc m) q"
    using E_Alt.IH m l E_Alt.prems(2,3) by simp_all
  show ?case unfolding ends_through_def
  proof (intro allI impI)
    fix i assume i: "i \<le> length tx" "\<forall>j\<le>length tx. i \<le> j \<and> (may_be_empty (E_Alt a b) \<or> i < j) \<longrightarrow> ends re tx fld (th q j)"
    have "ends re tx fld (th (Suc m) i)" using t(2) i unfolding ends_through_def by auto
    moreover have "ends re tx fld (th m j)" if "ends re tx fld (th q j)" "j \<le> length tx" for j
      using that m(3) l assms(2) by (simp add: ends_exec [of _ _ _ "of_nat m"] exec_th)
    then have "ends re tx fld (th (Suc p) i)" using t(1) i unfolding ends_through_def by auto
    ultimately show "ends re tx fld (th p i)" using m(1) l i(1) assms(2) by (simp add: ends_exec [of _ _ _ "of_nat p"] exec_th)
  qed
next
  case (E_Star a)
  then obtain m where m: "rx_prog re ! p = Inst_Split (of_nat (Suc p)) (of_nat q)" "code re a (Suc p) m"
    "rx_prog re ! m = Inst_Jmp (of_nat p)" "q = Suc m" by auto
  have l: "m < 65536" "p < 65536" using code_le [OF m(2)] m(4) E_Star.prems(2) by simp_all
  have a: "ends_through re tx fld a (Suc p) m" "\<not> may_be_empty a" using E_Star.IH [OF m(2) l(1)] E_Star.prems(3) by simp_all
  show ?case unfolding ends_through_def using ends_star [OF a m(1,3) assms(2) l(2,1)] by auto
next
  case (E_Plus a)
  then obtain m where m: "code re a p m" "rx_prog re ! m = Inst_Split (of_nat p) (of_nat q)" "q = Suc m" by auto
  then have l: "m < 65536" using E_Plus.prems(2) by simp
  have a: "ends_through re tx fld a p m" "\<not> may_be_empty a" using E_Plus.IH [OF m(1) l] E_Plus.prems(3) by simp_all
  show ?case unfolding ends_through_def using ends_plus [OF a m(2) assms(2) l] by auto
next
  case (E_Quest a)
  then have m: "rx_prog re ! p = Inst_Split (of_nat (Suc p)) (of_nat q)" "code re a (Suc p) q" by simp_all
  have l: "p < 65536" using code_le [OF m(2)] E_Quest.prems(2) by simp
  have "ends_through re tx fld a (Suc p) q" using E_Quest m by simp
  then show ?case unfolding ends_through_def using m(1) l assms(2) by (simp add: ends_exec [of _ _ _ "of_nat p"] exec_th)
next
  case E_Empty
  then show ?case by (auto simp: ends_through_def)
next
  case (E_Char c)
  then show ?case using assms(2) by (auto intro!: ends_one [where f = Suc] simp: exec_th split: if_splits)
next
  case E_Any
  then show ?case using assms(2) by (auto intro!: ends_one [where f = Suc] simp: exec_th split: if_splits)
next
  case (E_Class neg W)
  then show ?case using assms(2) by (auto intro!: ends_one [where f = Suc] simp: exec_th split: if_splits)
next
  case E_Bol
  then show ?case using assms(2) by (auto intro!: ends_one [where f = id] simp: exec_th split: if_splits)
next
  case E_Eol
  then show ?case using assms(2) by (auto intro!: ends_one [where f = id] simp: exec_th split: if_splits)
qed

end
