(* ===== verification/Regex_Compile.thy ===== *)
theory Regex_Compile
  imports Regex_Machine
begin

text \<open>
  The emitter of \<open>src/regex/src/lib.rs\<close>: from the arena of nodes to the program. A node of the arena denotes an expression;
  \<open>nullable\<close> tells whether that expression may match the empty text, and \<open>gen\<close> lays out its code. Neither
  recursion runs out of fuel, since the children of a node come before it.
\<close>

section \<open>The arena\<close>

inductive denotes :: "(u8 \<Rightarrow> bool \<Rightarrow> u8 set \<Rightarrow> bool) \<Rightarrow> node list \<Rightarrow> u16 \<Rightarrow> ere \<Rightarrow> bool" for K nodes where
  "nodes ! unat n = Node_Empty \<Longrightarrow> denotes K nodes n E_Empty"
| "nodes ! unat n = Node_Char c \<Longrightarrow> denotes K nodes n (E_Char c)"
| "nodes ! unat n = Node_Any \<Longrightarrow> denotes K nodes n E_Any"
| "nodes ! unat n = Node_Class i \<Longrightarrow> K i neg W \<Longrightarrow> denotes K nodes n (E_Class neg W)"
| "nodes ! unat n = Node_Bol \<Longrightarrow> denotes K nodes n E_Bol"
| "nodes ! unat n = Node_Eol \<Longrightarrow> denotes K nodes n E_Eol"
| "nodes ! unat n = Node_Cat l m \<Longrightarrow> denotes K nodes l a \<Longrightarrow> denotes K nodes m b \<Longrightarrow> denotes K nodes n (E_Cat a b)"
| "nodes ! unat n = Node_Alt l m \<Longrightarrow> denotes K nodes l a \<Longrightarrow> denotes K nodes m b \<Longrightarrow> denotes K nodes n (E_Alt a b)"
| "nodes ! unat n = Node_Star l \<Longrightarrow> denotes K nodes l a \<Longrightarrow> denotes K nodes n (E_Star a)"
| "nodes ! unat n = Node_Plus l \<Longrightarrow> denotes K nodes l a \<Longrightarrow> denotes K nodes n (E_Plus a)"
| "nodes ! unat n = Node_Quest l \<Longrightarrow> denotes K nodes l a \<Longrightarrow> denotes K nodes n (E_Quest a)"

fun children :: "node \<Rightarrow> u16 list" where
  "children (Node_Cat a b) = [a, b]"
| "children (Node_Alt a b) = [a, b]"
| "children (Node_Star a) = [a]"
| "children (Node_Plus a) = [a]"
| "children (Node_Quest a) = [a]"
| "children _ = []"

text \<open>The children of each of the first \<open>k\<close> nodes come before it.\<close>

definition arena_ok :: "node list \<Rightarrow> nat \<Rightarrow> bool" where
  "arena_ok nodes k \<longleftrightarrow> (\<forall>i<k. \<forall>c\<in>set (children (nodes ! i)). unat c < i)"

lemma arena_child: "arena_ok nodes k \<Longrightarrow> unat n < k \<Longrightarrow> c \<in> set (children (nodes ! unat n)) \<Longrightarrow> unat c < unat n"
  by (auto simp: arena_ok_def)

lemma nullable_ok:
  assumes "denotes K nodes n r" "arena_ok nodes k" "unat n < k" "unat n \<le> f"
  shows "nullable (Suc f) nodes n = Some (may_be_empty r)"
  using assms
proof (induction arbitrary: f rule: denotes.induct)
  case (7 n l m a b)
  have c: "unat l < unat n" "unat m < unat n" using arena_child [OF 7(6,7)] 7(1) by auto
  then obtain g where "f = Suc g" using 7(8) by (cases f) auto
  then show ?case using 7 c by simp
next
  case (8 n l m a b)
  have c: "unat l < unat n" "unat m < unat n" using arena_child [OF 8(6,7)] 8(1) by auto
  then obtain g where "f = Suc g" using 8(8) by (cases f) auto
  then show ?case using 8 c by simp
next
  case (10 n l a)
  have c: "unat l < unat n" using arena_child [OF 10(4,5)] 10(1) by auto
  then obtain g where "f = Suc g" using 10(6) by (cases f) auto
  then show ?case using 10 c by simp
qed simp_all

section \<open>The emitter\<close>

definition em_ok :: "emitter \<Rightarrow> bool" where
  "em_ok e \<longleftrightarrow> length (em_prog e) = MAX_PROG \<and> em_len e \<le> MAX_PROG"

text \<open>A later emitter, with what was there kept.\<close>

definition grows :: "emitter \<Rightarrow> emitter \<Rightarrow> bool" where
  "grows e e' \<longleftrightarrow> em_ok e' \<and> em_len e \<le> em_len e' \<and> (\<forall>k<em_len e. em_prog e' ! k = em_prog e ! k)"

lemma grows_refl: "em_ok e \<Longrightarrow> grows e e"
  and grows_trans: "grows e1 e2 \<Longrightarrow> grows e2 e3 \<Longrightarrow> grows e1 e3"
  by (auto simp: grows_def)

lemma emit_Inr:
  assumes "em_ok e"
  shows "emit i e = Inr (at, e') \<longleftrightarrow>
    em_len e < MAX_PROG \<and> at = em_len e \<and> e' = e\<lparr>em_prog := (em_prog e)[em_len e := i], em_len := Suc (em_len e)\<rparr>"
  by (auto simp: emit_def)

lemma emit_grows: "em_ok e \<Longrightarrow> emit i e = Inr (at, e') \<Longrightarrow> grows e e' \<and> at = em_len e \<and> em_len e' = Suc (em_len e) \<and> em_prog e' ! at = i"
  by (auto simp: emit_Inr grows_def em_ok_def)

lemma patch_grows: "grows e e' \<Longrightarrow> em_len e \<le> at \<Longrightarrow> grows e (patch at i e')"
  by (auto simp: grows_def patch_def em_ok_def)

lemma patch_nth: "em_ok e \<Longrightarrow> at < em_len e \<Longrightarrow> em_prog (patch at i e) ! k = (if k = at then i else em_prog e ! k)"
  by (auto simp: patch_def em_ok_def)

lemma patch_len [simp]: "em_len (patch at i e) = em_len e" by (simp add: patch_def)

lemma em_then_Inr: "em_then r g = Some (Inr e') \<longleftrightarrow> (\<exists>e. r = Some (Inr e) \<and> g e = Some (Inr e'))"
  by (auto simp: em_then_def split: option.splits sum.splits)

lemma em_at_Inr: "em_at r g = Some (Inr e') \<longleftrightarrow> (\<exists>at e. r = Inr (at, e) \<and> g at e = Some (Inr e'))"
  by (auto simp: em_at_def split: sum.splits)

lemma emit1_Inr: "emit1 i e = Some (Inr e') \<longleftrightarrow> (\<exists>at. emit i e = Inr (at, e'))"
  by (auto simp: emit1_def split: sum.splits)

lemmas em_results = em_then_Inr em_at_Inr emit1_Inr

text \<open>The program and an emitter agree on a stretch.\<close>

definition agrees :: "regex \<Rightarrow> emitter \<Rightarrow> nat \<Rightarrow> nat \<Rightarrow> bool" where
  "agrees re e p q \<longleftrightarrow> (\<forall>k. p \<le> k \<and> k < q \<longrightarrow> rx_prog re ! k = em_prog e ! k)"

definition lays_out :: "regex \<Rightarrow> ere \<Rightarrow> emitter \<Rightarrow> emitter \<Rightarrow> bool" where
  "lays_out re r e e' \<longleftrightarrow> grows e e' \<and> (agrees re e' (em_len e) (em_len e') \<longrightarrow> code re r (em_len e) (em_len e'))"

lemma agrees_sub: "agrees re e' p q \<Longrightarrow> grows e e' \<Longrightarrow> p \<le> p' \<Longrightarrow> q' \<le> q \<Longrightarrow> q' \<le> em_len e \<Longrightarrow> agrees re e p' q'"
  by (auto simp: agrees_def grows_def)

lemma lays_out_one:
  assumes "em_ok e" "emit1 i e = Some (Inr e')" "rx_prog re ! em_len e = i \<Longrightarrow> code re r (em_len e) (Suc (em_len e))"
  shows "lays_out re r e e'"
proof -
  obtain at where "emit i e = Inr (at, e')" using assms(2) by (auto simp: em_results)
  then show ?thesis using emit_grows [OF assms(1)] assms(3) by (auto simp: lays_out_def agrees_def)
qed

lemma lays_out_cat:
  assumes "lays_out re a e e1" "lays_out re b e1 e2"
  shows "lays_out re (E_Cat a b) e e2"
  using assms agrees_sub [of re e2 "em_len e" "em_len e2" e1 "em_len e" "em_len e1"] agrees_sub [of re e2 "em_len e" "em_len e2" e2 "em_len e1" "em_len e2"]
  by (auto simp: lays_out_def grows_def intro: grows_trans)

text \<open>A split whose target is patched in once the code it skips is there.\<close>

lemma patched:
  assumes "grows e1 e3" "em_len e1 = Suc at" "em_ok e1" "agrees re (patch at i e3) at (em_len e3)"
  shows "rx_prog re ! at = i" "agrees re e3 (Suc at) (em_len e3)"
proof -
  have l: "em_ok e3" "at < em_len e3" using assms(1,2) by (auto simp: grows_def)
  show "rx_prog re ! at = i" using assms(4) l patch_nth [OF l, of i at] by (simp add: agrees_def)
  show "agrees re e3 (Suc at) (em_len e3)" using assms(4) patch_nth [OF l, of i] by (auto simp: agrees_def)
qed

lemma grows_ok: "grows e e' \<Longrightarrow> em_ok e'" by (simp add: grows_def)

lemma lays_out_star:
  assumes "em_ok e" "emit (Inst_Split 0 0) e = Inr (split, e1)" "lays_out re a e1 e2" "emit (Inst_Jmp (of_nat split)) e2 = Inr (jmp, e3)"
  shows "lays_out re (E_Star a) e (patch split (Inst_Split (of_nat split + 1) (of_nat (em_len e3))) e3)"
proof -
  note e1 = emit_grows [OF assms(1,2)]
  have e2: "grows e1 e2" using assms(3) by (simp add: lays_out_def)
  note e3 = emit_grows [OF grows_ok [OF e2] assms(4)]
  let ?i = "Inst_Split (of_nat split + 1) (of_nat (em_len e3))"
  have g: "grows e1 e3" "grows e e3" using e1 e2 e3 grows_trans by blast+
  have "code re (E_Star a) (em_len e) (em_len e3)" if "agrees re (patch split ?i e3) (em_len e) (em_len e3)"
  proof -
    have p: "rx_prog re ! split = ?i" "agrees re e3 (Suc split) (em_len e3)"
      using patched [OF g(1) _ grows_ok [of e e1]] that e1 by auto
    have "agrees re e2 (em_len e1) (em_len e2)" using agrees_sub [OF p(2), of e2 "em_len e1" "em_len e2"] e1 e3 by simp
    then have "code re a (em_len e1) (em_len e2)" using assms(3) by (simp add: lays_out_def)
    moreover have "rx_prog re ! jmp = Inst_Jmp (of_nat split)" using p(2) e1 e2 e3 by (auto simp: agrees_def grows_def)
    ultimately show ?thesis using p(1) e1 e3 by (auto simp: add.commute)
  qed
  then show ?thesis using patch_grows [OF g(2)] e1 by (simp add: lays_out_def)
qed

lemma lays_out_plus:
  assumes "em_ok e" "lays_out re a e e1" "emit (Inst_Split 0 0) e1 = Inr (split, e2)"
  shows "lays_out re (E_Plus a) e (patch split (Inst_Split (of_nat (em_len e)) (of_nat (em_len e2))) e2)"
proof -
  have e1: "grows e e1" using assms(2) by (simp add: lays_out_def)
  note e2 = emit_grows [OF grows_ok [OF e1] assms(3)]
  let ?i = "Inst_Split (of_nat (em_len e)) (of_nat (em_len e2))"
  have g: "grows e e2" using e1 e2 grows_trans by blast
  have "code re (E_Plus a) (em_len e) (em_len e2)" if "agrees re (patch split ?i e2) (em_len e) (em_len e2)"
  proof -
    have n: "em_prog (patch split ?i e2) ! k = (if k = split then ?i else em_prog e2 ! k)" for k
      using patch_nth [OF grows_ok [OF g]] e2 by simp
    have "agrees re e1 (em_len e) (em_len e1)" using that e2 n by (auto simp: agrees_def grows_def)
    then have "code re a (em_len e) (em_len e1)" using assms(2) by (simp add: lays_out_def)
    moreover have "rx_prog re ! split = ?i" using that n e1 e2 by (auto simp: agrees_def grows_def)
    ultimately show ?thesis using e2 by auto
  qed
  then show ?thesis using patch_grows [OF g] e1 e2 by (simp add: lays_out_def grows_def)
qed

lemma lays_out_quest:
  assumes "em_ok e" "emit (Inst_Split 0 0) e = Inr (split, e1)" "lays_out re a e1 e2"
  shows "lays_out re (E_Quest a) e (patch split (Inst_Split (of_nat split + 1) (of_nat (em_len e2))) e2)"
proof -
  note e1 = emit_grows [OF assms(1,2)]
  have e2: "grows e1 e2" using assms(3) by (simp add: lays_out_def)
  let ?i = "Inst_Split (of_nat split + 1) (of_nat (em_len e2))"
  have g: "grows e e2" using e1 e2 grows_trans by blast
  have "code re (E_Quest a) (em_len e) (em_len e2)" if "agrees re (patch split ?i e2) (em_len e) (em_len e2)"
  proof -
    have p: "rx_prog re ! split = ?i" "agrees re e2 (Suc split) (em_len e2)"
      using patched [OF e2 _ grows_ok [of e e1]] that e1 by auto
    then have "code re a (Suc split) (em_len e2)" using assms(3) e1 by (simp add: lays_out_def)
    then show ?thesis using p(1) e1 by (simp add: add.commute)
  qed
  then show ?thesis using patch_grows [OF g] e1 by (simp add: lays_out_def)
qed

lemma lays_out_alt:
  assumes "em_ok e" "emit (Inst_Split 0 0) e = Inr (split, e1)" "lays_out re a e1 e2" "emit (Inst_Jmp 0) e2 = Inr (jmp, e3)"
    "lays_out re b e3 e4" "e5 = patch split (Inst_Split (of_nat split + 1) (of_nat (em_len e3))) e4"
  shows "lays_out re (E_Alt a b) e (patch jmp (Inst_Jmp (of_nat (em_len e5))) e5)"
proof -
  note e1 = emit_grows [OF assms(1,2)]
  have e2: "grows e1 e2" using assms(3) by (simp add: lays_out_def)
  note e3 = emit_grows [OF grows_ok [OF e2] assms(4)]
  have e4: "grows e3 e4" using assms(5) by (simp add: lays_out_def)
  let ?s = "Inst_Split (of_nat split + 1) (of_nat (em_len e3))" and ?j = "Inst_Jmp (of_nat (em_len e5))"
  have g: "grows e e4" "grows e1 e3" "grows e2 e4" using e1 e2 e3 e4 grows_trans by blast+
  have lt: "split < jmp" "jmp < em_len e4" "split < em_len e4" using e1 e2 e3 e4 by (auto simp: grows_def)
  have e5: "em_ok e5" "em_len e5 = em_len e4" using grows_ok [OF g(1)] by (simp_all add: assms(6) patch_def em_ok_def)
  have n: "em_prog (patch jmp ?j e5) ! k = (if k = jmp then ?j else if k = split then ?s else em_prog e4 ! k)" for k
    using patch_nth [OF e5(1), of jmp ?j k] patch_nth [OF grows_ok [OF g(1)], of split ?s k] lt e5(2) by (simp add: assms(6))
  have "code re (E_Alt a b) (em_len e) (em_len e4)" if "agrees re (patch jmp ?j e5) (em_len e) (em_len e4)"
  proof -
    have "agrees re e2 (em_len e1) (em_len e2)" using that n g(3) e1 e3 lt by (auto simp: agrees_def grows_def)
    then have "code re a (em_len e1) (em_len e2)" using assms(3) by (simp add: lays_out_def)
    moreover have "agrees re e4 (em_len e3) (em_len e4)" using that n g(1) e1 e3 lt by (auto simp: agrees_def grows_def)
    then have "code re b (em_len e3) (em_len e4)" using assms(5) by (simp add: lays_out_def)
    moreover have "rx_prog re ! split = ?s" "rx_prog re ! jmp = ?j" using that n e1 e3 lt by (auto simp: agrees_def)
    ultimately show ?thesis using e1 e3 e5(2) by (auto simp: add.commute)
  qed
  moreover have "grows e (patch jmp ?j e5)" using patch_grows patch_grows [OF g(1)] e1 lt unfolding assms(6) by simp
  ultimately show ?thesis by (simp add: lays_out_def e5(2))
qed

lemma gen_ok:
  assumes "denotes (class_is re) nodes n r" "gen f nodes n e = Some (Inr e')" "em_ok e"
  shows "lays_out re r e e'"
  using assms
proof (induction arbitrary: f e e' rule: denotes.induct)
  case (1 n)
  then show ?case by (cases f) (auto simp: lays_out_def grows_refl)
next
  case (7 n l m a b)
  then obtain g e1 where "f = Suc g" "gen g nodes l e = Some (Inr e1)" "gen g nodes m e1 = Some (Inr e')"
    by (cases f) (auto simp: em_results)
  then show ?case using 7 lays_out_cat by (metis grows_ok lays_out_def)
next
  case (8 n l m a b)
  then obtain g split e1 e2 jmp e3 e4 where x: "f = Suc g" "emit (Inst_Split 0 0) e = Inr (split, e1)" "gen g nodes l e1 = Some (Inr e2)"
    "emit (Inst_Jmp 0) e2 = Inr (jmp, e3)" "gen g nodes m e3 = Some (Inr e4)"
    "e' = patch jmp (Inst_Jmp (of_nat (em_len e4))) (patch split (Inst_Split (of_nat split + 1) (of_nat (em_len e3))) e4)"
    by (cases f) (auto simp: em_results Let_def)
  have a: "lays_out re a e1 e2" using 8(4) [OF x(3)] emit_grows [OF 8(7) x(2)] by (simp add: grows_def)
  then have b: "lays_out re b e3 e4" using 8(5) [OF x(5)] emit_grows [OF _ x(4)] by (auto simp: lays_out_def grows_def)
  show ?case using lays_out_alt [OF 8(7) x(2) a x(4) b refl] by (simp add: x(6))
next
  case (9 n l a)
  then obtain g split e1 e2 jmp e3 where x: "f = Suc g" "emit (Inst_Split 0 0) e = Inr (split, e1)" "gen g nodes l e1 = Some (Inr e2)"
    "emit (Inst_Jmp (of_nat split)) e2 = Inr (jmp, e3)" "e' = patch split (Inst_Split (of_nat split + 1) (of_nat (em_len e3))) e3"
    by (cases f) (auto simp: em_results)
  have a: "lays_out re a e1 e2" using 9(3) [OF x(3)] emit_grows [OF 9(5) x(2)] by (simp add: grows_def)
  show ?case using lays_out_star [OF 9(5) x(2) a x(4)] by (simp add: x(5))
next
  case (10 n l a)
  then obtain g e1 split e2 where x: "f = Suc g" "gen g nodes l e = Some (Inr e1)" "emit (Inst_Split 0 0) e1 = Inr (split, e2)"
    "e' = patch split (Inst_Split (of_nat (em_len e)) (of_nat (em_len e2))) e2" by (cases f) (auto simp: em_results)
  show ?case using lays_out_plus [OF 10(5) 10(3) [OF x(2) 10(5)] x(3)] by (simp add: x(4))
next
  case (11 n l a)
  then obtain g split e1 e2 where x: "f = Suc g" "emit (Inst_Split 0 0) e = Inr (split, e1)" "gen g nodes l e1 = Some (Inr e2)"
    "e' = patch split (Inst_Split (of_nat split + 1) (of_nat (em_len e2))) e2" by (cases f) (auto simp: em_results)
  have a: "lays_out re a e1 e2" using 11(3) [OF x(3)] emit_grows [OF 11(5) x(2)] by (simp add: grows_def)
  show ?case using lays_out_quest [OF 11(5) x(2) a] by (simp add: x(4))
next
  case (4 n i neg W)
  then show ?case by (cases f) (auto intro!: lays_out_one)
qed (case_tac f; auto intro!: lays_out_one)+

lemma em_returns:
  "\<exists>y. r = Some y \<Longrightarrow> (\<And>e. \<exists>y. g e = Some y) \<Longrightarrow> \<exists>y. em_then r g = Some y"
  "(\<And>at e. \<exists>y. h at e = Some y) \<Longrightarrow> \<exists>y. em_at x h = Some y" "\<exists>y. emit1 i e = Some y"
  by (auto simp: em_then_def em_at_def emit1_def split: option.split sum.split)

lemma gen_returns:
  assumes "arena_ok nodes k" "unat n < k" "unat n \<le> f"
  shows "\<exists>y. gen (Suc f) nodes n e = Some y"
  using assms
proof (induction f arbitrary: n e)
  case 0
  then have "children (nodes ! unat n) = []" using arena_child [OF 0(1,2)] by (cases "children (nodes ! unat n)") auto
  then show ?case by (cases "nodes ! unat n") (simp_all add: em_returns(3))
next
  case (Suc f)
  have c: "unat c \<le> f \<and> unat c < k" if "c \<in> set (children (nodes ! unat n))" for c
    using arena_child [OF Suc.prems(1,2) that] Suc.prems(2,3) by simp
  have g: "\<exists>y. gen (Suc f) nodes c e = Some y" if "c \<in> set (children (nodes ! unat n))" for c e
    using Suc.IH [OF assms(1)] c [OF that] by blast
  show ?case
    unfolding gen.simps(2) [of "Suc f"] using g
    by (cases "nodes ! unat n") (auto simp del: gen.simps simp: Let_def intro!: em_returns)
qed

end
