(* ===== verification/Regex_Class.thy ===== *)
theory Regex_Class
  imports Regex_Compile
begin

text \<open>
  The bracket expressions of \<open>src/regex/src/lib.rs\<close>: a class is a map of bits that stands for a set of bytes, and \<open>parse_class\<close>
  reads the set that is written. The relation \<open>g_items\<close> is the grammar of what may stand between the brackets.
\<close>

unbundle bit_operations_syntax

section \<open>Classes as sets\<close>

lemma byte_index: "unat (drop_bit 3 (b :: u8)) = unat b div 8" "unat (b AND 7) = unat b mod 8"
proof -
  show "unat (drop_bit 3 b) = unat b div 8" by (simp add: drop_bit_eq_div unat_div)
  have "b AND 7 = b mod 8" using take_bit_eq_mod [of 3 b] by (simp add: take_bit_eq_mask mask_eq_exp_minus_1)
  then show "unat (b AND 7) = unat b mod 8" by (simp add: unat_mod)
qed

lemma byte_lt [simp]: "unat (b :: u8) < 256" "unat b div 8 < 32"
proof -
  have "unat b < 2 ^ LENGTH(8)" by (rule unsigned_less)
  then show "unat b < 256" by simp
  then show "unat b div 8 < 32" by simp
qed

lemma member_iff: "member bits c \<longleftrightarrow> bit (bits ! (unat c div 8)) (unat c mod 8)"
  unfolding member_def byte_index by (rule bit_iff_and_push_bit_not_eq_0 [symmetric])

lemma set_member_length [simp]: "length (set_member b bits) = length bits"
  by (simp add: set_member_def)

lemma member_set:
  assumes "length bits = 32"
  shows "member (set_member b bits) c \<longleftrightarrow> member bits c \<or> c = b"
proof -
  have e: "unat c div 8 = unat b div 8 \<and> unat c mod 8 = unat b mod 8 \<longleftrightarrow> c = b"
    by (metis div_mult_mod_eq word_unat_eq_iff)
  have p: "bit (push_bit (unat b mod 8) 1 :: u8) j \<longleftrightarrow> j = unat b mod 8" if "j < 8" for j
    using that by (auto simp: bit_simps)
  show ?thesis
    unfolding member_iff set_member_def byte_index
    using assms e p [of "unat c mod 8"] by (auto simp: nth_list_update bit_or_iff)
qed

lemma member_sets: "length bits = 32 \<Longrightarrow> member (fold set_member bs bits) c \<longleftrightarrow> member bits c \<or> c \<in> set bs"
  by (induction bs arbitrary: bits) (auto simp: member_set)

lemma fold_set_member_length [simp]: "length (fold set_member bs bits) = length bits"
  by (induction bs arbitrary: bits) auto

lemma member_new: "\<not> member (replicate 32 0) c"
  by (simp add: member_iff)

lemma member_not:
  assumes "length bits = 32"
  shows "member (map (\<lambda>b. NOT b) bits) c \<longleftrightarrow> \<not> member bits c"
  using assms by (simp add: member_iff bit_not_iff)

lemma all_bytes_set: "set all_bytes = UNIV"
proof -
  have "of_nat (unat b) \<in> (of_nat :: nat \<Rightarrow> u8) ` {0..<256}" for b :: u8 by (rule imageI) simp
  then show ?thesis by (auto simp: all_bytes_def)
qed

lemma range_bytes_set: "set (range_bytes lo hi) = {lo..hi}"
proof (intro set_eqI iffI)
  fix b assume "b \<in> set (range_bytes lo hi)"
  then obtain n where n: "unat lo \<le> n" "n \<le> unat hi" "b = of_nat n" by (auto simp: range_bytes_def)
  then have "unat b = n" using byte_lt(1) [of hi] by (simp add: unat_of_nat del: byte_lt)
  then show "b \<in> {lo..hi}" using n by (simp add: word_le_nat_alt)
next
  fix b assume "b \<in> {lo..hi}"
  then have "b = of_nat (unat b)" "unat lo \<le> unat b" "unat b \<le> unat hi" by (simp_all add: word_le_nat_alt)
  then show "b \<in> set (range_bytes lo hi)" unfolding range_bytes_def by (metis Suc_eq_plus1 atLeastLessThan_iff image_eqI le_imp_less_Suc list.set_map set_upt)
qed

lemma name_bits_ok:
  assumes "name_bits name bs bits = Inr bits'" "length bits = 32"
  shows "length bits' = 32 \<and> (\<forall>b\<in>set bs. posix_class name b \<noteq> None) \<and>
    (\<forall>c. member bits' c \<longleftrightarrow> member bits c \<or> c \<in> set bs \<and> posix_class name c = Some True)"
  using assms
proof (induction name bs bits rule: name_bits.induct)
  case (2 name b bs bits)
  then obtain m where m: "posix_class name b = Some m" by (cases "posix_class name b") auto
  then show ?case using 2(1) [OF m] 2(2,3) by (cases m) (auto simp: member_set)
qed simp

section \<open>The grammar of a bracket expression\<close>

text \<open>A byte, or an escaped one.\<close>

inductive g_point :: "u8 list \<Rightarrow> u8 \<Rightarrow> bool" where
  plain: "c \<noteq> 0x5c \<Longrightarrow> g_point [c] c"
| escaped: "g_point [0x5c, e] (unescape e)"

text \<open>The name of a class ends at the first \<open>:]\<close>.\<close>

definition first_end :: "u8 list \<Rightarrow> bool" where
  "first_end name \<longleftrightarrow> (\<forall>i < length name. take 2 (drop i (name @ [0x3a, 0x5d])) \<noteq> [0x3a, 0x5d])"

text \<open>What may start an element: not the closing bracket, unless it stands first, and not the opening of a name.\<close>

definition starts_item :: "bool \<Rightarrow> u8 list \<Rightarrow> bool" where
  "starts_item first s \<longleftrightarrow> s \<noteq> [] \<and> (first \<or> hd s \<noteq> 0x5d) \<and> take 2 s \<noteq> [0x5b, 0x3a]"

text \<open>A minus before anything but the closing bracket makes a range.\<close>

definition makes_range :: "u8 list \<Rightarrow> bool" where
  "makes_range s \<longleftrightarrow> s \<noteq> [] \<and> hd s = 0x2d \<and> take 2 s \<noteq> [0x2d, 0x5d]"

inductive g_items :: "bool \<Rightarrow> u8 list \<Rightarrow> u8 set \<Rightarrow> bool" where
  close: "g_items False [0x5d] {}"
| name: "\<lbrakk>first_end name; \<forall>b. posix_class name b \<noteq> None; g_items False t W\<rbrakk> \<Longrightarrow>
    g_items first ([0x5b, 0x3a] @ name @ [0x3a, 0x5d] @ t) ({b. posix_class name b = Some True} \<union> W)"
| range: "\<lbrakk>g_point s lo; g_point u hi; lo \<le> hi; g_items False t W; starts_item first (s @ 0x2d # u @ t); makes_range (0x2d # u @ t)\<rbrakk> \<Longrightarrow>
    g_items first (s @ 0x2d # u @ t) ({lo..hi} \<union> W)"
| point: "\<lbrakk>g_point s c; g_items False t W; starts_item first (s @ t); \<not> makes_range t\<rbrakk> \<Longrightarrow> g_items first (s @ t) ({c} \<union> W)"

inductive g_class :: "u8 list \<Rightarrow> bool \<Rightarrow> u8 set \<Rightarrow> bool" where
  positive: "g_items True s W \<Longrightarrow> hd s \<noteq> 0x5e \<Longrightarrow> g_class (0x5b # s) False W"
| negative: "g_items True s W \<Longrightarrow> g_class (0x5b # 0x5e # s) True W"

lemma g_items_last: "g_items first s W \<Longrightarrow> s \<noteq> [] \<and> last s = 0x5d"
  by (induction rule: g_items.induct) auto

section \<open>Reading a bracket expression\<close>

definition span :: "'a list \<Rightarrow> nat \<Rightarrow> nat \<Rightarrow> 'a list" where
  "span xs i j = take (j - i) (drop i xs)"

lemma span_empty [simp]: "j \<le> i \<Longrightarrow> span xs i j = []" by (simp add: span_def)

lemma span_length: "i \<le> j \<Longrightarrow> j \<le> length xs \<Longrightarrow> length (span xs i j) = j - i" by (simp add: span_def)

lemma span_nth: "i + k < j \<Longrightarrow> j \<le> length xs \<Longrightarrow> span xs i j ! k = xs ! (i + k)" by (simp add: span_def)

lemma span_append: "i \<le> j \<Longrightarrow> j \<le> k \<Longrightarrow> span xs i k = span xs i j @ span xs j k"
proof -
  assume a: "i \<le> j" "j \<le> k"
  then have "k - i = (j - i) + (k - j)" "drop (j - i) (drop i xs) = drop j xs" by simp_all
  then show ?thesis unfolding span_def by (metis take_add)
qed

lemma span_Cons: "i < j \<Longrightarrow> i < length xs \<Longrightarrow> span xs i j = xs ! i # span xs (Suc i) j"
  by (simp add: span_def Cons_nth_drop_Suc [symmetric] take_Suc Suc_diff_Suc [symmetric])

lemma get_at_Some: "get_at xs i = Some x \<longleftrightarrow> i < length xs \<and> xs ! i = x"
  by (auto simp: get_at_def)

lemma take_2: "take 2 xs = [a, b] \<longleftrightarrow> 1 < length xs \<and> xs ! 0 = a \<and> xs ! 1 = b"
  by (cases xs; cases "tl xs") (auto simp: numeral_2_eq_2)

declare name_end.simps [simp del]

lemma name_end_ok:
  "name_end pat i = Some e \<Longrightarrow> i \<le> e \<and> Suc e < length pat \<and> pat ! e = 0x3a \<and> pat ! Suc e = 0x5d \<and>
     (\<forall>k. i \<le> k \<and> k < e \<longrightarrow> \<not> (pat ! k = 0x3a \<and> pat ! Suc k = 0x5d))"
proof (induction pat i rule: name_end.induct)
  case (1 pat i)
  show ?case
  proof (cases "get_at pat i = Some 0x3a \<and> get_at pat (i + 1) = Some 0x5d")
    case True
    then have "e = i" using 1(2) by (auto simp: name_end.simps [of pat i] get_at_Some split: if_splits)
    then show ?thesis using True by (auto simp: get_at_Some)
  next
    case False
    have l: "i < length pat" using 1(2) by (auto simp: name_end.simps [of pat i] split: if_splits)
    then have "name_end pat (i + 1) = Some e" using 1(2) False by (simp add: name_end.simps [of pat i] split: if_splits)
    then have ih: "i + 1 \<le> e \<and> Suc e < length pat \<and> pat ! e = 0x3a \<and> pat ! Suc e = 0x5d \<and>
      (\<forall>k. i + 1 \<le> k \<and> k < e \<longrightarrow> \<not> (pat ! k = 0x3a \<and> pat ! Suc k = 0x5d))"
      using 1(1) l False by simp
    then have "\<not> (pat ! i = 0x3a \<and> pat ! Suc i = 0x5d)" using False by (auto simp: get_at_Some)
    then show ?thesis using ih by (metis Suc_eq_plus1 Suc_leD Suc_leI le_neq_implies_less)
  qed
qed

lemma first_end_span:
  assumes "name_end pat i = Some e"
  shows "first_end (span pat i e)" "span pat i (e + 2) = span pat i e @ [0x3a, 0x5d]"
proof -
  note e = name_end_ok [OF assms]
  show a: "span pat i (e + 2) = span pat i e @ [0x3a, 0x5d]"
    using e span_append [of i e "e + 2" pat] span_Cons [of e "e + 2" pat] span_Cons [of "Suc e" "e + 2" pat] by simp
  show "first_end (span pat i e)"
    unfolding first_end_def a [symmetric] take_2
    using e by (auto simp: span_length span_nth)
qed

text \<open>One element was read: in front of any further elements it adds its bytes to theirs.\<close>

definition item_read :: "u8 \<Rightarrow> u8 list \<Rightarrow> parser \<Rightarrow> u8 list \<Rightarrow> nat \<Rightarrow> bool" where
  "item_read c bits p bits' n \<longleftrightarrow> ps_pos p < n \<and> n \<le> length (ps_pat p) \<and> length bits' = 32 \<and>
     (\<forall>W first k. g_items False (span (ps_pat p) n k) W \<and> n < k \<and> k \<le> length (ps_pat p) \<and> (first \<or> c \<noteq> 0x5d) \<longrightarrow>
        (\<exists>V. g_items first (span (ps_pat p) (ps_pos p) k) V \<and> (\<forall>b. member bits b \<or> b \<in> V \<longleftrightarrow> member bits' b \<or> b \<in> W)))"

lemma item_name:
  assumes "class_item c bits p = Inr (bits', p')" "peek p = Some c" "length bits = 32"
    "c = 0x5b \<and> get_at (ps_pat p) (ps_pos p + 1) = Some 0x3a"
  shows "\<exists>n. p' = p\<lparr>ps_pos := n\<rparr> \<and> item_read c bits p bits' n"
proof -
  let ?pat = "ps_pat p" and ?i = "ps_pos p"
  obtain e where e: "name_end ?pat (?i + 2) = Some e" "name_bits (span ?pat (?i + 2) e) all_bytes bits = Inr bits'" "p' = p\<lparr>ps_pos := e + 2\<rparr>"
    using assms(1,4) by (auto simp: class_item_def span_def split: option.splits sum.splits)
  let ?name = "span ?pat (?i + 2) e"
  note n = name_end_ok [OF e(1)] and b = name_bits_ok [OF e(2) assms(3), unfolded all_bytes_set]
  have i: "?i + 1 < length ?pat" "?pat ! ?i = 0x5b" "?pat ! (?i + 1) = 0x3a" using assms(2,4) by (auto simp: peek_def get_at_Some)
  have "\<exists>V. g_items first (span ?pat ?i k) V \<and> (\<forall>b. member bits b \<or> b \<in> V \<longleftrightarrow> member bits' b \<or> b \<in> W)"
    if t: "g_items False (span ?pat (e + 2) k) W" "e + 2 < k" "k \<le> length ?pat" for W first k
  proof -
    have "span ?pat ?i k = [0x5b, 0x3a] @ ?name @ [0x3a, 0x5d] @ span ?pat (e + 2) k"
      using i n t(2-3) span_Cons [of ?i k ?pat] span_Cons [of "Suc ?i" k ?pat] span_append [of "?i + 2" "e + 2" k ?pat] first_end_span(2) [OF e(1)] by simp
    then show ?thesis using g_items.name [OF first_end_span(1) [OF e(1)] _ t(1), of first] b
      by (intro exI [of _ "{b. posix_class ?name b = Some True} \<union> W"]) auto
  qed
  then show ?thesis using e(3) n b by (auto simp: item_read_def)
qed

lemma point_read:
  "i < length pat \<Longrightarrow> pat ! i \<noteq> 0x5c \<Longrightarrow> g_point (span pat i (Suc i)) (pat ! i)"
  "Suc i < length pat \<Longrightarrow> pat ! i = 0x5c \<Longrightarrow> g_point (span pat i (Suc (Suc i))) (unescape (pat ! Suc i))"
  by (auto simp: span_Cons intro: g_point.intros)

lemma class_lo_ok:
  assumes "class_lo c (adv 1 p) = Inr (lo, p1)" "peek p = Some c"
  shows "\<exists>j. p1 = p\<lparr>ps_pos := j\<rparr> \<and> ps_pos p < j \<and> j \<le> length (ps_pat p) \<and> g_point (span (ps_pat p) (ps_pos p) j) lo"
proof (cases "ps_pat p ! ps_pos p = 0x5c")
  case True
  then show ?thesis using assms
    by (intro exI [of _ "Suc (Suc (ps_pos p))"]) (auto simp: class_lo_def adv_def peek_def get_at_Some point_read split: if_splits option.splits)
next
  case False
  then show ?thesis using assms
    by (intro exI [of _ "Suc (ps_pos p)"]) (auto simp: class_lo_def adv_def peek_def get_at_Some point_read split: if_splits option.splits)
qed

lemma class_hi_ok:
  assumes "class_hi p = Inr (hi, p1)"
  shows "\<exists>j. p1 = p\<lparr>ps_pos := j\<rparr> \<and> ps_pos p < j \<and> j \<le> length (ps_pat p) \<and> g_point (span (ps_pat p) (ps_pos p) j) hi"
proof (cases "ps_pat p ! ps_pos p = 0x5c")
  case True
  then show ?thesis using assms
    by (intro exI [of _ "Suc (Suc (ps_pos p))"]) (auto simp: class_hi_def adv_def peek_def get_at_Some point_read split: if_splits option.splits)
next
  case False
  then show ?thesis using assms
    by (intro exI [of _ "Suc (ps_pos p)"]) (auto simp: class_hi_def adv_def peek_def get_at_Some point_read split: if_splits option.splits)
qed

lemma item_point:
  assumes "class_item c bits p = Inr (bits', p')" "peek p = Some c" "length bits = 32"
    "\<not> (c = 0x5b \<and> get_at (ps_pat p) (ps_pos p + 1) = Some 0x3a)"
  shows "\<exists>n. p' = p\<lparr>ps_pos := n\<rparr> \<and> item_read c bits p bits' n"
proof -
  let ?pat = "ps_pat p" and ?i = "ps_pos p"
  obtain lo p1 where lo: "class_lo c (adv 1 p) = Inr (lo, p1)" using assms(1,4) by (auto simp: class_item_def split: sum.splits)
  then obtain j where j: "p1 = p\<lparr>ps_pos := j\<rparr>" "?i < j" "j \<le> length ?pat" "g_point (span ?pat ?i j) lo" using class_lo_ok [OF _ assms(2)] by blast
  have c: "?i < length ?pat" "?pat ! ?i = c" using assms(2) by (auto simp: peek_def get_at_Some)
  have st: "starts_item first (span ?pat ?i k)" if "first \<or> c \<noteq> 0x5d" "?i < k" "k \<le> length ?pat" for first k
    using that c assms(4) span_Cons [of ?i k ?pat] span_Cons [of "Suc ?i" k ?pat]
    by (cases "Suc ?i < k") (auto simp: starts_item_def get_at_Some numeral_2_eq_2)
  show ?thesis
  proof (cases "peek p1 = Some 0x2d \<and> get_at (ps_pat p1) (ps_pos p1 + 1) \<noteq> Some 0x5d")
    case True
    obtain hi p2 where hi: "class_hi (adv 1 p1) = Inr (hi, p2)" "lo \<le> hi" "bits' = fold set_member (range_bytes lo hi) bits" "p' = p2"
      using assms(1,4) lo True by (auto simp: class_item_def split: sum.splits if_splits)
    then obtain n where n: "p' = p\<lparr>ps_pos := n\<rparr>" "Suc j < n" "n \<le> length ?pat" "g_point (span ?pat (Suc j) n) hi"
      using class_hi_ok [OF hi(1)] by (auto simp: j(1) adv_def)
    have m: "?pat ! j = 0x2d" "?pat ! Suc j \<noteq> 0x5d" using True n(2,3) by (auto simp: j(1) peek_def get_at_Some)
    have "\<exists>V. g_items first (span ?pat ?i k) V \<and> (\<forall>b. member bits b \<or> b \<in> V \<longleftrightarrow> member bits' b \<or> b \<in> W)"
      if t: "g_items False (span ?pat n k) W" "n < k" "k \<le> length ?pat" "first \<or> c \<noteq> 0x5d" for W first k
    proof -
      have sp: "span ?pat ?i k = span ?pat ?i j @ 0x2d # span ?pat (Suc j) n @ span ?pat n k"
        using span_append [of ?i j k ?pat] span_append [of "Suc j" n k ?pat] span_Cons [of j k ?pat] j n(2,3) t(2,3) m(1) by simp
      have mr: "makes_range (0x2d # span ?pat (Suc j) n @ span ?pat n k)"
        using m(2) n(2,3) span_Cons [of "Suc j" n ?pat] by (simp add: makes_range_def numeral_2_eq_2)
      show ?thesis
        using g_items.range [OF j(4) n(4) hi(2) t(1) _ mr, of first] st [of first k] t j(2) n(2) member_sets [OF assms(3), of "range_bytes lo hi"] hi(3) sp
        by (intro exI [of _ "{lo..hi} \<union> W"]) (auto simp: range_bytes_set)
    qed
    then show ?thesis using n j(2) assms(3) hi(3) by (auto simp: item_read_def)
  next
    case False
    then have r: "bits' = set_member lo bits" "p' = p\<lparr>ps_pos := j\<rparr>" using assms(1,4) lo j(1) by (auto simp: class_item_def split: if_splits)
    have "\<exists>V. g_items first (span ?pat ?i k) V \<and> (\<forall>b. member bits b \<or> b \<in> V \<longleftrightarrow> member bits' b \<or> b \<in> W)"
      if t: "g_items False (span ?pat j k) W" "j < k" "k \<le> length ?pat" "first \<or> c \<noteq> 0x5d" for W first k
    proof -
      have "\<not> makes_range (span ?pat j k)"
        using False t(2,3) g_items_last [OF t(1)] span_Cons [of j k ?pat] span_Cons [of "Suc j" k ?pat]
        by (cases "Suc j < k") (auto simp: makes_range_def j(1) peek_def get_at_Some take_2)
      then show ?thesis
        using g_items.point [OF j(4) t(1), of first] st [of first k] t j(2) span_append [of ?i j k ?pat] member_set [OF assms(3)] r(1)
        by (intro exI [of _ "{lo} \<union> W"]) auto
    qed
    then show ?thesis using r j assms(3) by (auto simp: item_read_def)
  qed
qed

lemma class_item_ok:
  assumes "class_item c bits p = Inr (bits', p')" "peek p = Some c" "length bits = 32"
  shows "\<exists>n. p' = p\<lparr>ps_pos := n\<rparr> \<and> item_read c bits p bits' n"
  using item_name [OF assms] item_point [OF assms] by blast

text \<open>The whole of what stands between the brackets, with the closing one.\<close>

lemma class_loop_ok:
  assumes "class_loop f first bits p = Some (Inr (bits', p'))" "length bits = 32"
  shows "\<exists>n W. p' = p\<lparr>ps_pos := n\<rparr> \<and> ps_pos p < n \<and> n \<le> length (ps_pat p) \<and> length bits' = 32 \<and>
    g_items first (span (ps_pat p) (ps_pos p) n) W \<and> (\<forall>b. member bits' b \<longleftrightarrow> member bits b \<or> b \<in> W)"
  using assms
proof (induction f first bits p rule: class_loop.induct)
  case (2 f first bits p)
  then obtain c where c: "peek p = Some c" by (cases "peek p") auto
  show ?case
  proof (cases "c = 0x5d \<and> \<not> first")
    case True
    have "ps_pos p < length (ps_pat p)" "ps_pat p ! ps_pos p = 0x5d" using c True by (auto simp: peek_def get_at_Some)
    then have "g_items first (span (ps_pat p) (ps_pos p) (Suc (ps_pos p))) {}" using True g_items.close by (simp add: span_Cons)
    then show ?thesis using 2(2,3) c True \<open>ps_pos p < length (ps_pat p)\<close>
      by (intro exI [of _ "Suc (ps_pos p)"] exI [of _ "{}"]) (auto simp: adv_def)
  next
    case False
    then obtain bits1 p1 where i: "class_item c bits p = Inr (bits1, p1)" "class_loop f False bits1 p1 = Some (Inr (bits', p'))"
      using 2(2) c by (auto split: sum.splits if_splits)
    then obtain n where n: "p1 = p\<lparr>ps_pos := n\<rparr>" "item_read c bits p bits1 n" using class_item_ok [OF i(1) c 2(3)] by blast
    from 2(1) [OF c False i(1) refl i(2)] n(2) obtain k W where k: "p' = p\<lparr>ps_pos := k\<rparr>" "n < k" "k \<le> length (ps_pat p)" "length bits' = 32"
      "g_items False (span (ps_pat p) n k) W" "\<forall>b. member bits' b \<longleftrightarrow> member bits1 b \<or> b \<in> W"
      by (auto simp: n(1) item_read_def)
    obtain V where "g_items first (span (ps_pat p) (ps_pos p) k) V" "\<forall>b. member bits b \<or> b \<in> V \<longleftrightarrow> member bits1 b \<or> b \<in> W"
      using n(2) k(2,3,5) False unfolding item_read_def by blast
    then show ?thesis using k n(2) unfolding item_read_def by (intro exI [of _ k] exI [of _ V]) auto
  qed
qed simp

lemma class_loop_returns:
  assumes "length (ps_pat p) - ps_pos p < f" "length bits = 32"
  shows "class_loop f first bits p \<noteq> None"
  using assms
proof (induction f first bits p rule: class_loop.induct)
  case (2 f first bits p)
  show ?case
  proof (cases "peek p")
    case None
    then show ?thesis by simp
  next
    case (Some c)
    show ?thesis
    proof (cases "class_item c bits p")
      case (Inl e)
      then show ?thesis using Some by simp
    next
      case (Inr x)
      obtain bits1 p1 where x: "x = (bits1, p1)" by (cases x)
      obtain n where n: "p1 = p\<lparr>ps_pos := n\<rparr>" "ps_pos p < n" "n \<le> length (ps_pat p)" "length bits1 = 32"
        using class_item_ok [OF Inr [unfolded x] Some 2(3)] by (auto simp: item_read_def)
      have "length (ps_pat p1) - ps_pos p1 < f" using n(1-3) 2(2) by simp
      then have "c = 0x5d \<and> \<not> first \<or> class_loop f False bits1 p1 \<noteq> None"
        using 2(1) [OF Some _ Inr [unfolded x] refl] n(4) by blast
      then show ?thesis using Some Inr x by auto
    qed
  qed
qed simp

end
