(* ===== verification/Regex_Parse.thy ===== *)
theory Regex_Parse
  imports Regex_Class
begin

text \<open>
  The parser of \<open>src/regex/src/lib.rs\<close> and the whole engine. The relations \<open>g_alt\<close>, \<open>g_cat\<close>, \<open>g_rep\<close> and \<open>g_atom\<close> are the grammar the
  comments of the parser give. A pattern that compiles is one of the grammar, the compiled program decides
  the matches of its expression, and no thread of it runs forever.
\<close>

unbundle bit_operations_syntax

section \<open>The grammar\<close>

inductive g_alt :: "u8 list \<Rightarrow> ere \<Rightarrow> bool" and g_cat :: "u8 list \<Rightarrow> ere \<Rightarrow> bool"
  and g_rep :: "u8 list \<Rightarrow> ere \<Rightarrow> bool" and g_atom :: "u8 list \<Rightarrow> ere \<Rightarrow> bool" where
  alt1: "g_cat s a \<Longrightarrow> g_alt s a"
| alt2: "g_alt s a \<Longrightarrow> g_cat t b \<Longrightarrow> g_alt (s @ 0x7c # t) (E_Alt a b)"
| cat0: "g_cat [] E_Empty"
| cat1: "g_rep s a \<Longrightarrow> g_cat s a"
| cat2: "g_cat s a \<Longrightarrow> s \<noteq> [] \<Longrightarrow> g_rep t b \<Longrightarrow> g_cat (s @ t) (E_Cat a b)"
| rep1: "g_atom s a \<Longrightarrow> g_rep s a"
| star: "g_rep s a \<Longrightarrow> \<not> may_be_empty a \<Longrightarrow> g_rep (s @ [0x2a]) (E_Star a)"
| plus: "g_rep s a \<Longrightarrow> \<not> may_be_empty a \<Longrightarrow> g_rep (s @ [0x2b]) (E_Plus a)"
| quest: "g_rep s a \<Longrightarrow> g_rep (s @ [0x3f]) (E_Quest a)"
| group: "g_alt s a \<Longrightarrow> g_atom (0x28 # s @ [0x29]) a"
| any: "g_atom [0x2e] E_Any"
| bol: "g_atom [0x5e] E_Bol"
| eol: "g_atom [0x24] E_Eol"
| bracket: "g_class s neg W \<Longrightarrow> g_atom s (E_Class neg W)"
| escape: "g_atom [0x5c, e] (E_Char (unescape e))"
| literal: "c \<notin> {0x2a, 0x2b, 0x3f, 0x28, 0x29, 0x2e, 0x5e, 0x24, 0x5b, 0x5c, 0x7c} \<Longrightarrow> g_atom [c] (E_Char c)"

lemma g_nonempty: "g_alt s a \<Longrightarrow> True" "g_cat s a \<Longrightarrow> True" "g_rep s a \<Longrightarrow> s \<noteq> []" "g_atom s a \<Longrightarrow> s \<noteq> []"
  by (induction rule: g_alt_g_cat_g_rep_g_atom.inducts) (auto elim: g_class.cases)

lemma g_repeats: "g_alt s a \<Longrightarrow> repeats_ok a" "g_cat s a \<Longrightarrow> repeats_ok a" "g_rep s a \<Longrightarrow> repeats_ok a" "g_atom s a \<Longrightarrow> repeats_ok a"
  by (induction rule: g_alt_g_cat_g_rep_g_atom.inducts) auto

section \<open>The state of the parser\<close>

definition ps_ok :: "parser \<Rightarrow> bool" where
  "ps_ok p \<longleftrightarrow> length (ps_nodes p) = MAX_NODES \<and> ps_n_nodes p \<le> MAX_NODES \<and> arena_ok (ps_nodes p) (ps_n_nodes p) \<and>
     length (ps_classes p) = MAX_CLASSES \<and> length (ps_class_negated p) = MAX_CLASSES \<and> ps_n_classes p \<le> MAX_CLASSES \<and>
     ps_pos p \<le> length (ps_pat p)"

text \<open>A later state of the parser, with the nodes and classes kept.\<close>

definition extends :: "parser \<Rightarrow> parser \<Rightarrow> bool" where
  "extends p p' \<longleftrightarrow> ps_pat p' = ps_pat p \<and> ps_pos p \<le> ps_pos p' \<and> ps_n_nodes p \<le> ps_n_nodes p' \<and> ps_n_classes p \<le> ps_n_classes p' \<and>
     (\<forall>i<ps_n_nodes p. ps_nodes p' ! i = ps_nodes p ! i) \<and>
     (\<forall>i<ps_n_classes p. ps_classes p' ! i = ps_classes p ! i \<and> ps_class_negated p' ! i = ps_class_negated p ! i)"

lemma extends_refl [simp]: "extends p p" by (simp add: extends_def)

lemma extends_trans: "extends p q \<Longrightarrow> extends q r \<Longrightarrow> extends p r"
  by (auto simp: extends_def)

text \<open>The classes that are there, and the expressions that nodes denote.\<close>

definition class_at :: "parser \<Rightarrow> u8 \<Rightarrow> bool \<Rightarrow> u8 set \<Rightarrow> bool" where
  "class_at p i neg W \<longleftrightarrow> unat i < ps_n_classes p \<and> ps_class_negated p ! unat i = neg \<and>
     (\<forall>b. member (ps_classes p ! unat i) b \<longleftrightarrow> (b \<in> W) \<noteq> neg)"

definition den :: "parser \<Rightarrow> u16 \<Rightarrow> ere \<Rightarrow> bool" where
  "den p n a \<longleftrightarrow> unat n < ps_n_nodes p \<and> denotes (class_at p) (ps_nodes p) n a"

lemma den_kept:
  assumes "den p n a" "extends p p'" "ps_ok p"
  shows "den p' n a"
proof -
  have "denotes (class_at p) (ps_nodes p) n a" "unat n < ps_n_nodes p" using assms(1) by (auto simp: den_def)
  then have "denotes (class_at p') (ps_nodes p') n a"
  proof (induction rule: denotes.induct)
    case (4 n i neg W)
    then have "class_at p' i neg W" "ps_nodes p' ! unat n = Node_Class i" using assms(2) by (auto simp: class_at_def extends_def)
    then show ?case by (intro denotes.intros)
  next
    case (7 n l m a b)
    then have "unat l < unat n" "unat m < unat n" using assms(3) arena_child [of "ps_nodes p" "ps_n_nodes p" n] by (auto simp: ps_ok_def)
    then show ?case using 7 assms(2) by (intro denotes.intros(7) [of _ _ l m]) (auto simp: extends_def)
  next
    case (8 n l m a b)
    then have "unat l < unat n" "unat m < unat n" using assms(3) arena_child [of "ps_nodes p" "ps_n_nodes p" n] by (auto simp: ps_ok_def)
    then show ?case using 8 assms(2) by (intro denotes.intros(8) [of _ _ l m]) (auto simp: extends_def)
  next
    case (9 n l a)
    then have "unat l < unat n" using assms(3) arena_child [of "ps_nodes p" "ps_n_nodes p" n] by (auto simp: ps_ok_def)
    then show ?case using 9 assms(2) by (intro denotes.intros(9) [of _ _ l]) (auto simp: extends_def)
  next
    case (10 n l a)
    then have "unat l < unat n" using assms(3) arena_child [of "ps_nodes p" "ps_n_nodes p" n] by (auto simp: ps_ok_def)
    then show ?case using 10 assms(2) by (intro denotes.intros(10) [of _ _ l]) (auto simp: extends_def)
  next
    case (11 n l a)
    then have "unat l < unat n" using assms(3) arena_child [of "ps_nodes p" "ps_n_nodes p" n] by (auto simp: ps_ok_def)
    then show ?case using 11 assms(2) by (intro denotes.intros(11) [of _ _ l]) (auto simp: extends_def)
  qed (use assms(2) in \<open>auto simp: extends_def intro: denotes.intros\<close>)
  then show ?thesis using assms(1,2) by (auto simp: den_def extends_def)
qed

lemma push_node_ok:
  assumes "push_node x p = Inr (n, p')" "ps_ok p" "\<And>c. c \<in> set (children x) \<Longrightarrow> unat c < ps_n_nodes p"
  shows "ps_ok p'" "extends p p'" "ps_pos p' = ps_pos p" "unat n < ps_n_nodes p'" "ps_nodes p' ! unat n = x" "ps_n_classes p' = ps_n_classes p"
    "ps_classes p' = ps_classes p" "ps_class_negated p' = ps_class_negated p"
proof -
  have l: "ps_n_nodes p < MAX_NODES" "n = of_nat (ps_n_nodes p)"
    "p' = p\<lparr>ps_nodes := (ps_nodes p)[ps_n_nodes p := x], ps_n_nodes := Suc (ps_n_nodes p)\<rparr>"
    using assms(1) by (auto simp: push_node_def Let_def split: if_splits)
  have u: "unat n = ps_n_nodes p" using l(1,2) by (simp add: unat_of_nat MAX_NODES_def)
  show "ps_ok p'" using assms(2,3) l by (auto simp: ps_ok_def arena_ok_def nth_list_update less_Suc_eq)
  show "extends p p'" "ps_pos p' = ps_pos p" "unat n < ps_n_nodes p'" "ps_n_classes p' = ps_n_classes p"
    "ps_classes p' = ps_classes p" "ps_class_negated p' = ps_class_negated p" using l u by (auto simp: extends_def)
  show "ps_nodes p' ! unat n = x" using assms(2) l u by (simp add: ps_ok_def)
qed

section \<open>What the parser reads\<close>

definition parsed :: "(u8 list \<Rightarrow> ere \<Rightarrow> bool) \<Rightarrow> parser \<Rightarrow> u16 \<Rightarrow> parser \<Rightarrow> bool" where
  "parsed G p n p' \<longleftrightarrow> ps_ok p' \<and> extends p p' \<and> (\<exists>a. den p' n a \<and> G (span (ps_pat p) (ps_pos p) (ps_pos p')) a)"

lemma adv_ok:
  "ps_ok p \<Longrightarrow> ps_pos p + k \<le> length (ps_pat p) \<Longrightarrow> ps_ok (adv k p)" "extends p (adv k p)" "ps_pos (adv k p) = ps_pos p + k"
  "ps_pat (adv k p) = ps_pat p" "den (adv k p) = den p"
proof -
  have "class_at (adv k p) = class_at p" by (simp add: class_at_def adv_def fun_eq_iff)
  moreover have "ps_n_nodes (adv k p) = ps_n_nodes p" "ps_nodes (adv k p) = ps_nodes p" by (simp_all add: adv_def)
  ultimately show "den (adv k p) = den p" by (intro ext) (simp add: den_def)
qed (auto simp: ps_ok_def extends_def adv_def)

lemma peek_Some: "peek p = Some c \<longleftrightarrow> ps_pos p < length (ps_pat p) \<and> ps_pat p ! ps_pos p = c"
  by (simp add: peek_def get_at_Some)

text \<open>A node over others, for what was read before and what comes with the node.\<close>

lemma push_parsed:
  assumes "push_node x q = Inr (n, p')" "ps_ok q" "extends p q" "\<And>c. c \<in> set (children x) \<Longrightarrow> unat c < ps_n_nodes q"
    and "\<And>k nodes. nodes ! unat k = x \<Longrightarrow> (\<And>c b. den q c b \<Longrightarrow> denotes K nodes c b) \<Longrightarrow> (\<And>i neg W. class_at q i neg W \<Longrightarrow> K i neg W) \<Longrightarrow>
       denotes K nodes k a"
    and "K = class_at p'" "G (span (ps_pat p) (ps_pos p) (ps_pos q)) a"
  shows "parsed G p n p'"
proof -
  note o = push_node_ok [OF assms(1,2,4)]
  have "denotes K (ps_nodes p') c b" if "den q c b" for c b using den_kept [OF that o(2) assms(2)] by (simp add: den_def assms(6))
  moreover have "K i neg W" if "class_at q i neg W" for i neg W using that o(6-8) by (simp add: class_at_def assms(6))
  ultimately have "den p' n a" using assms(5) [OF o(5)] o(4) by (simp add: den_def assms(6))
  then show ?thesis using o(1,3) extends_trans [OF assms(3) o(2)] assms(7) by (auto simp: parsed_def)
qed

lemma push_leaf:
  assumes "push_node x (adv k p) = Inr (n, p')" "ps_ok p" "ps_pos p + k \<le> length (ps_pat p)" "children x = []"
    and "\<And>K nodes n. nodes ! unat n = x \<Longrightarrow> denotes K nodes n a" "G (span (ps_pat p) (ps_pos p) (ps_pos p + k)) a"
  shows "parsed G p n p'"
  by (rule push_parsed [OF assms(1) adv_ok(1) [OF assms(2,3)] adv_ok(2)]) (use assms(4-6) in \<open>auto simp: adv_ok\<close>)

text \<open>The class that a bracket expression puts down.\<close>

definition with_class :: "u8 list \<Rightarrow> bool \<Rightarrow> parser \<Rightarrow> parser" where
  "with_class bits neg p = p\<lparr>ps_classes := (ps_classes p)[ps_n_classes p := if neg then map (\<lambda>b. NOT b) bits else bits],
     ps_class_negated := (ps_class_negated p)[ps_n_classes p := neg], ps_n_classes := Suc (ps_n_classes p)\<rparr>"

lemma class_push:
  assumes "push_node (Node_Class (of_nat (ps_n_classes q))) (with_class bits neg q) = Inr (n, p')" "ps_ok q" "extends p q"
    "ps_n_classes q < MAX_CLASSES" "length bits = 32" "\<And>b. member bits b \<longleftrightarrow> b \<in> W" "G (span (ps_pat p) (ps_pos p) (ps_pos q)) (E_Class neg W)"
  shows "parsed G p n p'"
proof -
  let ?c = "of_nat (ps_n_classes q) :: u8"
  have u: "unat ?c = ps_n_classes q" using assms(4) by (simp add: unat_of_nat MAX_CLASSES_def)
  have o: "ps_ok (with_class bits neg q)" "extends p (with_class bits neg q)" "ps_pos (with_class bits neg q) = ps_pos q"
    using assms(2-4) by (auto simp: ps_ok_def extends_def with_class_def)
  have c: "class_at (with_class bits neg q) ?c neg W"
    using assms(2,4-6) u member_not [OF assms(5)] by (auto simp: class_at_def ps_ok_def with_class_def)
  show ?thesis
    by (rule push_parsed [OF assms(1) o(1,2) _ _ refl]) (use assms(7) c o(3) in \<open>auto intro: denotes.intros\<close>)
qed

text \<open>Where the elements of a bracket expression start.\<close>

definition class_start :: "parser \<Rightarrow> parser" where
  "class_start p = (if peek (adv 1 p) = Some 0x5e then adv 2 p else adv 1 p)"

lemma class_start_ok:
  assumes "ps_ok p" "peek p = Some c"
  shows "ps_ok (class_start p)" "extends p (class_start p)" "ps_pat (class_start p) = ps_pat p" "ps_n_classes (class_start p) = ps_n_classes p"
    "ps_pos (class_start p) = ps_pos p + (if peek (adv 1 p) = Some 0x5e then 2 else 1)"
  using assms adv_ok [where p = p and k = 1] adv_ok [where p = p and k = 2] by (auto simp: class_start_def peek_Some adv_def)

lemma parse_class_unfold:
  "parse_class p =
     (if ps_n_classes p \<ge> MAX_CLASSES then Some (Inl TooComplex)
      else case class_loop (length (ps_pat p) + 1) True (replicate 32 0) (class_start p) of
        None \<Rightarrow> None
      | Some (Inl err) \<Rightarrow> Some (Inl err)
      | Some (Inr (bits, p2)) \<Rightarrow>
          Some (push_node (Node_Class (of_nat (ps_n_classes p2))) (with_class bits (peek (adv 1 p) = Some 0x5e) p2)))"
proof -
  have "adv 1 (adv 1 p) = adv 2 p" "ps_n_classes (adv 1 p) = ps_n_classes p" by (simp_all add: adv_def)
  then show ?thesis by (auto simp: parse_class_def class_start_def with_class_def Let_def adv_ok(4) simp del: class_loop.simps split: option.split sum.split)
qed

lemma parse_class_ok:
  assumes "parse_class p = Some (Inr (n, p'))" "ps_ok p" "peek p = Some 0x5b"
  shows "parsed g_atom p n p'"
proof -
  let ?pat = "ps_pat p" and ?i = "ps_pos p" and ?neg = "peek (adv 1 p) = Some 0x5e" and ?q = "class_start p"
  have i: "?i < length ?pat" "?pat ! ?i = 0x5b" using assms(3) by (auto simp: peek_Some)
  obtain bits p2 where l: "class_loop (length ?pat + 1) True (replicate 32 0) ?q = Some (Inr (bits, p2))" "ps_n_classes p < MAX_CLASSES"
      "push_node (Node_Class (of_nat (ps_n_classes p2))) (with_class bits ?neg p2) = Inr (n, p')"
    using assms(1) unfolding parse_class_unfold by (auto simp del: class_loop.simps split: option.splits sum.splits if_splits)
  note q = class_start_ok [OF assms(2,3)]
  obtain k W where k: "p2 = ?q\<lparr>ps_pos := k\<rparr>" "ps_pos ?q < k" "k \<le> length ?pat" "length bits = 32"
      "g_items True (span ?pat (ps_pos ?q) k) W" "\<And>b. member bits b \<longleftrightarrow> b \<in> W"
    using class_loop_ok [OF l(1)] q(3) member_new by auto
  have o: "ps_ok p2" "extends p p2" "ps_n_classes p2 < MAX_CLASSES" using q k(1-3) l(2) by (auto simp: ps_ok_def extends_def)
  have s: "span ?pat ?i k = (if ?neg then 0x5b # 0x5e # span ?pat (ps_pos ?q) k else 0x5b # span ?pat (ps_pos ?q) k)"
    using i k(2,3) q(5) span_Cons [of ?i k ?pat] span_Cons [of "Suc ?i" k ?pat] by (auto simp: peek_Some adv_def split: if_splits)
  have "g_class (span ?pat ?i k) ?neg W"
    using k(2,3,5) q(5) s g_class.intros [of "span ?pat (ps_pos ?q) k" W] span_Cons [of "ps_pos ?q" k ?pat]
    by (cases ?neg) (auto simp: peek_Some adv_def)
  then have "g_atom (span ?pat ?i (ps_pos p2)) (E_Class ?neg W)" using k(1) by (simp add: g_alt_g_cat_g_rep_g_atom.bracket)
  then show ?thesis by (rule class_push [OF l(3) o k(4,6)])
qed

lemmas g_intros = g_alt_g_cat_g_rep_g_atom.intros

lemma parse_simple_ok:
  assumes "parse_simple c p = Some (Inr (n, p'))" "ps_ok p" "peek p = Some c" "c \<noteq> 0x7c" "c \<noteq> 0x28"
  shows "parsed g_atom p n p'"
proof -
  let ?pat = "ps_pat p" and ?i = "ps_pos p"
  have i: "?i < length ?pat" "?pat ! ?i = c" using assms(3) by (auto simp: peek_Some)
  have s: "span ?pat ?i (?i + 1) = [c]" using i by (simp add: span_Cons)
  have c: "c \<noteq> 0x2a" "c \<noteq> 0x2b" "c \<noteq> 0x3f" "c \<noteq> 0x29" using assms(1) by (auto simp: parse_simple_def)
  consider "c = 0x2e" | "c = 0x5e" | "c = 0x24" | "c = 0x5b" | "c = 0x5c" | "c \<notin> {0x2e, 0x5e, 0x24, 0x5b, 0x5c}" by blast
  then show ?thesis
  proof cases
    case 1
    then show ?thesis using assms(1,2) c i s by (intro push_leaf [of Node_Any 1 p n p' E_Any]) (auto simp: parse_simple_def intro: denotes.intros g_intros)
  next
    case 2
    then show ?thesis using assms(1,2) c i s by (intro push_leaf [of Node_Bol 1 p n p' E_Bol]) (auto simp: parse_simple_def intro: denotes.intros g_intros)
  next
    case 3
    then show ?thesis using assms(1,2) c i s by (intro push_leaf [of Node_Eol 1 p n p' E_Eol]) (auto simp: parse_simple_def intro: denotes.intros g_intros)
  next
    case 4
    then show ?thesis using assms(1-3) by (intro parse_class_ok) (auto simp: parse_simple_def)
  next
    case 5
    obtain e where e: "peek (adv 1 p) = Some e" using assms(1) 5 by (cases "peek (adv 1 p)") (auto simp: parse_simple_def)
    then have l: "?i + 2 \<le> length ?pat" "?pat ! Suc ?i = e" by (auto simp: peek_Some adv_def)
    have "span ?pat ?i (?i + 2) = [0x5c, e]" using i l 5 by (simp add: span_Cons)
    then show ?thesis using assms(1,2) 5 e l
      by (intro push_leaf [of "Node_Char (unescape e)" 2 p n p' "E_Char (unescape e)"]) (auto simp: parse_simple_def intro: denotes.intros g_intros)
  next
    case 6
    then have "g_atom [c] (E_Char c)" using c assms(4,5) by (intro g_intros) auto
    then show ?thesis using assms(1,2) c i s 6
      by (intro push_leaf [of "Node_Char c" 1 p n p' "E_Char c"]) (auto simp: parse_simple_def intro: denotes.intros)
  qed
qed

lemma parsed_mono: "parsed G p n p' \<Longrightarrow> (\<And>s a. G s a \<Longrightarrow> H s a) \<Longrightarrow> parsed H p n p'"
  by (auto simp: parsed_def)

text \<open>A postfix operator over what was read.\<close>

lemma push_postfix:
  assumes "push_node (C n) (adv 1 p) = Inr (n', p')" "parsed g_rep p0 n p" "peek p = Some c" "children (C n) = [n]"
    and "\<And>K nodes k a. nodes ! unat k = C n \<Longrightarrow> denotes K nodes n a \<Longrightarrow> denotes K nodes k (E a)"
    and "\<And>s a. den p n a \<Longrightarrow> g_rep s a \<Longrightarrow> g_rep (s @ [c]) (E a)"
  shows "parsed g_rep p0 n' p'"
proof -
  obtain a where a: "ps_ok p" "extends p0 p" "den p n a" "g_rep (span (ps_pat p0) (ps_pos p0) (ps_pos p)) a"
    using assms(2) by (auto simp: parsed_def)
  have i: "ps_pos p < length (ps_pat p0)" "ps_pat p0 ! ps_pos p = c" "ps_pos p0 \<le> ps_pos p" "ps_pos p + 1 \<le> length (ps_pat p)"
    using assms(3) a(2) by (auto simp: peek_Some extends_def)
  have "span (ps_pat p0) (ps_pos p0) (ps_pos p + 1) = span (ps_pat p0) (ps_pos p0) (ps_pos p) @ [c]"
    using i span_append [of "ps_pos p0" "ps_pos p" "ps_pos p + 1" "ps_pat p0"] by (simp add: span_Cons)
  then have g: "g_rep (span (ps_pat p0) (ps_pos p0) (ps_pos (adv 1 p))) (E a)" using assms(6) [OF a(3,4)] by (simp add: adv_ok)
  have n: "unat n < ps_n_nodes (adv 1 p)" using a(3) by (simp add: den_def adv_def)
  show ?thesis
    by (rule push_parsed [where K = "class_at p'" and a = "E a", OF assms(1) adv_ok(1) [OF a(1) i(4)] extends_trans [OF a(2) adv_ok(2)]])
       (use a(3) n assms(4,5) g in \<open>auto simp: adv_ok(5)\<close>)
qed

lemma den_nullable: "ps_ok p \<Longrightarrow> den p n a \<Longrightarrow> nullable MAX_NODES (ps_nodes p) n = Some (may_be_empty a)"
  using nullable_ok [of "class_at p" "ps_nodes p" n a "ps_n_nodes p" 127] by (auto simp: den_def ps_ok_def MAX_NODES_def numeral_eq_Suc)

definition left_in :: "parser \<Rightarrow> nat" where "left_in p = length (ps_pat p) - ps_pos p"

lemma peek_left: "peek p = Some c \<Longrightarrow> Suc (left_in (adv 1 p)) = left_in p"
  by (auto simp: peek_Some left_in_def adv_def)

lemma push_left: "push_node x p = Inr (n, q) \<Longrightarrow> left_in q = left_in p"
  by (auto simp: push_node_def Let_def left_in_def split: if_splits)

lemma repeat_step:
  assumes "parsed g_rep p0 n p" "den p n a" "push_node x (adv 1 p) = Inr (m, q)"
    "peek p = Some 0x2a \<and> \<not> may_be_empty a \<and> x = Node_Star n \<or> peek p = Some 0x2b \<and> \<not> may_be_empty a \<and> x = Node_Plus n \<or>
     peek p = Some 0x3f \<and> x = Node_Quest n"
  shows "parsed g_rep p0 m q" "left_in q < left_in p"
proof -
  have ok: "ps_ok p" using assms(1) by (simp add: parsed_def)
  have nul: "may_be_empty b = may_be_empty a" if "den p n b" for b using den_nullable [OF ok assms(2)] den_nullable [OF ok that] by simp
  have "x = Node_Star n \<Longrightarrow> parsed g_rep p0 m q"
    by (rule push_postfix [where C = Node_Star and E = E_Star, OF _ assms(1)]) (use assms(3,4) nul in \<open>auto intro: denotes.intros g_intros\<close>)
  moreover have "x = Node_Plus n \<Longrightarrow> parsed g_rep p0 m q"
    by (rule push_postfix [where C = Node_Plus and E = E_Plus, OF _ assms(1)]) (use assms(3,4) nul in \<open>auto intro: denotes.intros g_intros\<close>)
  moreover have "x = Node_Quest n \<Longrightarrow> parsed g_rep p0 m q"
    by (rule push_postfix [where C = Node_Quest and E = E_Quest, OF _ assms(1)]) (use assms(3,4) in \<open>auto intro: denotes.intros g_intros\<close>)
  ultimately show "parsed g_rep p0 m q" using assms(4) by blast
  show "left_in q < left_in p" using push_left [OF assms(3)] peek_left [of p] assms(4) by (metis lessI)
qed

lemma repeat_loop_ok:
  "repeat_loop f n p = Some (Inr (n', p')) \<Longrightarrow> parsed g_rep p0 n p \<Longrightarrow> parsed g_rep p0 n' p'"
proof (induction f arbitrary: n p)
  case (Suc f)
  obtain a where a: "ps_ok p" "den p n a" using Suc(3) by (auto simp: parsed_def)
  show ?case
    using Suc repeat_step(1) [OF Suc(3) a(2)] den_nullable [OF a] by (auto split: if_splits sum.splits bool.splits option.splits)
qed simp

lemma ps_then_Inr: "ps_then r g = Some (Inr y) \<longleftrightarrow> (\<exists>n p. r = Some (Inr (n, p)) \<and> g n p = Some (Inr y))"
  by (auto simp: ps_then_def split: option.splits sum.splits)

text \<open>A node over what was read in two stretches.\<close>

lemma push_pair:
  assumes "push_node (C l m) q = Inr (n, p')" "parsed G p0 l p" "parsed H (adv k p) m q" "ps_pos p + k \<le> length (ps_pat p)" "children (C l m) = [l, m]"
    and "\<And>K nodes i a b. nodes ! unat i = C l m \<Longrightarrow> denotes K nodes l a \<Longrightarrow> denotes K nodes m b \<Longrightarrow> denotes K nodes i (E a b)"
    and "\<And>s t a b. s = span (ps_pat p0) (ps_pos p0) (ps_pos p) \<Longrightarrow> t = span (ps_pat p0) (ps_pos p + k) (ps_pos q) \<Longrightarrow> G s a \<Longrightarrow> H t b \<Longrightarrow>
       J (s @ span (ps_pat p0) (ps_pos p) (ps_pos p + k) @ t) (E a b)"
  shows "parsed J p0 n p'"
proof -
  obtain a where a: "ps_ok p" "extends p0 p" "den p l a" "G (span (ps_pat p0) (ps_pos p0) (ps_pos p)) a" using assms(2) by (auto simp: parsed_def)
  obtain b where b: "ps_ok q" "extends (adv k p) q" "den q m b" "H (span (ps_pat p0) (ps_pos p + k) (ps_pos q)) b"
    using assms(3) a(2) by (auto simp: parsed_def adv_ok extends_def)
  have e: "extends p q" using extends_trans [OF adv_ok(2) b(2)] .
  note l = den_kept [OF a(3) e a(1)]
  have o: "ps_pos p0 \<le> ps_pos p" "ps_pos p + k \<le> ps_pos q" using a(2) b(2) by (auto simp: extends_def adv_ok)
  have "span (ps_pat p0) (ps_pos p0) (ps_pos q) = span (ps_pat p0) (ps_pos p0) (ps_pos p) @ span (ps_pat p0) (ps_pos p) (ps_pos p + k) @
      span (ps_pat p0) (ps_pos p + k) (ps_pos q)"
    using o span_append [of "ps_pos p0" "ps_pos p" "ps_pos q" "ps_pat p0"] span_append [of "ps_pos p" "ps_pos p + k" "ps_pos q" "ps_pat p0"] by simp
  then have g: "J (span (ps_pat p0) (ps_pos p0) (ps_pos q)) (E a b)" using assms(7) [OF refl refl a(4) b(4)] by simp
  have n: "unat l < ps_n_nodes q" "unat m < ps_n_nodes q" using l b(3) by (auto simp: den_def)
  show ?thesis
    by (rule push_parsed [where K = "class_at p'" and a = "E a b", OF assms(1) b(1) extends_trans [OF a(2) e]]) (use l b(3) n assms(5,6) g in auto)
qed

lemma push_empty: "push_node Node_Empty p = Inr (n, p') \<Longrightarrow> ps_ok p \<Longrightarrow> parsed g_cat p n p'"
  by (rule push_leaf [where k = 0 and a = E_Empty and x = Node_Empty]) (auto simp: adv_def ps_ok_def intro: denotes.intros g_intros)

text \<open>A step of the loop of a concatenation.\<close>

definition cat_so_far :: "parser \<Rightarrow> u16 option \<Rightarrow> parser \<Rightarrow> bool" where
  "cat_so_far p0 acc p \<longleftrightarrow> (case acc of None \<Rightarrow> p = p0 | Some l \<Rightarrow> parsed g_cat p0 l p \<and> ps_pos p0 < ps_pos p)"

lemma parsed_moves: "parsed g_rep p n p' \<Longrightarrow> ps_pos p < ps_pos p'"
  using g_nonempty(3) not_le_imp_less span_empty unfolding parsed_def by metis

lemma cat_step:
  assumes "cat_so_far p0 acc p" "parsed g_rep p m q" "ps_pos p \<le> length (ps_pat p)"
    "(if acc = None then Some (Inr (m, q)) else Some (push_node (Node_Cat (the acc) m) q)) = Some (Inr (n, p'))"
  shows "cat_so_far p0 (Some n) p'"
proof (cases acc)
  case None
  then show ?thesis using assms parsed_moves [OF assms(2)] parsed_mono [OF assms(2) g_intros(4)] by (auto simp: cat_so_far_def)
next
  case (Some l)
  then have l: "parsed g_cat p0 l p" "ps_pos p0 < ps_pos p" "push_node (Node_Cat l m) q = Inr (n, p')" using assms(1,4) by (auto simp: cat_so_far_def)
  have s: "span (ps_pat p0) (ps_pos p0) (ps_pos p) \<noteq> []"
    using l(1,2) span_length [of "ps_pos p0" "ps_pos p" "ps_pat p0"] by (auto simp: parsed_def ps_ok_def extends_def)
  have q: "parsed g_rep (adv 0 p) m q" using assms(2) by (simp add: adv_def)
  have "parsed g_cat p0 n p'"
    by (rule push_pair [where C = Node_Cat and E = E_Cat, OF l(3,1) q]) (use assms(3) s in \<open>auto intro: denotes.intros g_intros\<close>)
  moreover have "ps_pos q \<le> ps_pos p'" using l(3) by (auto simp: push_node_def Let_def split: if_splits)
  ultimately show ?thesis using l(2) parsed_moves [OF assms(2)] by (auto simp: cat_so_far_def)
qed

lemma alt_step:
  assumes "parsed g_alt p0 l p" "parsed g_cat (adv 1 p) m q" "peek p = Some 0x7c" "push_node (Node_Alt l m) q = Inr (n, p')"
  shows "parsed g_alt p0 n p'"
proof -
  have "ps_pat p = ps_pat p0" using assms(1) by (auto simp: parsed_def extends_def)
  then have "span (ps_pat p0) (ps_pos p) (ps_pos p + 1) = [0x7c]" using assms(3) by (auto simp: peek_Some span_Cons)
  then show ?thesis
    by (intro push_pair [where C = Node_Alt and E = E_Alt and k = 1, OF assms(4,1,2)])
       (use assms(3) in \<open>auto simp: peek_Some intro: denotes.intros g_intros\<close>)
qed

lemma group_ok:
  assumes "parsed g_alt (adv 1 p) n q" "peek p = Some 0x28" "peek q = Some 0x29"
  shows "parsed g_atom p n (adv 1 q)"
proof -
  let ?pat = "ps_pat p" and ?i = "ps_pos p" and ?j = "ps_pos q"
  obtain a where a: "ps_ok q" "extends (adv 1 p) q" "den q n a" "g_alt (span ?pat (?i + 1) ?j) a"
    using assms(1) by (auto simp: parsed_def adv_ok)
  have i: "?i < length ?pat" "?pat ! ?i = 0x28" "?j < length ?pat" "?pat ! ?j = 0x29" "Suc ?i \<le> ?j" "ps_pat q = ?pat"
    using assms(2,3) a(2) by (auto simp: peek_Some extends_def adv_ok)
  have "span ?pat ?i (?j + 1) = 0x28 # span ?pat (?i + 1) ?j @ [0x29]"
    using i span_Cons [of ?i "?j + 1" ?pat] span_append [of "Suc ?i" ?j "?j + 1" ?pat] by (simp add: span_Cons)
  then have "g_atom (span ?pat ?i (?j + 1)) a" using a(4) by (simp add: g_intros)
  then show ?thesis
    using a i extends_trans [OF extends_trans [OF adv_ok(2) a(2)] adv_ok(2)] adv_ok(1) [of q 1] by (auto simp: parsed_def adv_ok)
qed

definition at_piece :: "parser \<Rightarrow> bool" where
  "at_piece p \<longleftrightarrow> peek p \<noteq> None \<and> peek p \<noteq> Some 0x7c \<and> peek p \<noteq> Some 0x29"

lemma parse_ok:
  "parse_alt f d p = Some (Inr (n, p')) \<Longrightarrow> ps_ok p \<Longrightarrow> parsed g_alt p n p'"
  "alt_loop f d l p = Some (Inr (n, p')) \<Longrightarrow> parsed g_alt p0 l p \<Longrightarrow> parsed g_alt p0 n p'"
  "parse_concat f d acc p = Some (Inr (n, p')) \<Longrightarrow> ps_ok p \<Longrightarrow> cat_so_far p0 acc p \<Longrightarrow> parsed g_cat p0 n p'"
  "parse_repeat f d p = Some (Inr (n, p')) \<Longrightarrow> ps_ok p \<Longrightarrow> at_piece p \<Longrightarrow> parsed g_rep p n p'"
  "parse_atom f d p = Some (Inr (n, p')) \<Longrightarrow> ps_ok p \<Longrightarrow> at_piece p \<Longrightarrow> parsed g_atom p n p'"
proof (induction f d p and f d l p and f d acc p and f d p and f d p arbitrary: n p' and n p' p0 and n p' p0 and n p' and n p'
    rule: parse_alt_alt_loop_parse_concat_parse_repeat_parse_atom.induct)
  case (2 f d p)
  then obtain l q where q: "parse_concat f d None p = Some (Inr (l, q))" "alt_loop f d l q = Some (Inr (n, p'))" by (auto simp: ps_then_Inr)
  have "parsed g_cat p l q" using 2(1) [OF q(1) 2(4)] by (simp add: cat_so_far_def)
  then show ?case using 2(2) [OF q(2)] parsed_mono g_intros(1) by blast
next
  case (4 f d l p)
  show ?case
  proof (cases "peek p = Some 0x7c")
    case True
    then obtain m q l1 q1 where q: "parse_concat f d None (adv 1 p) = Some (Inr (m, q))" "push_node (Node_Alt l m) q = Inr (l1, q1)"
        "alt_loop f d l1 q1 = Some (Inr (n, p'))" using 4(3) by (auto simp: ps_then_Inr)
    have "ps_ok (adv 1 p)" using 4(4) True by (intro adv_ok) (auto simp: parsed_def peek_Some)
    then have "parsed g_cat (adv 1 p) m q" using 4(1) [OF True q(1)] by (simp add: cat_so_far_def)
    then show ?thesis using 4(2) [OF True q(3)] alt_step [OF 4(4) _ True q(2)] by blast
  qed (use 4 in auto)
next
  case (6 f d acc p)
  show ?case
  proof (cases "at_piece p")
    case True
    then have c: "\<not> (peek p = None \<or> peek p = Some 0x7c \<or> peek p = Some 0x29)" by (simp add: at_piece_def)
    from 6(3) [unfolded parse_concat.simps if_not_P [OF c] ps_then_Inr]
    obtain m q n1 q1 where q: "parse_repeat f d p = Some (Inr (m, q))"
        "(if acc = None then Some (Inr (m, q)) else Some (push_node (Node_Cat (the acc) m) q)) = Some (Inr (n1, q1))"
        "parse_concat f d (Some n1) q1 = Some (Inr (n, p'))" by blast
    have "cat_so_far p0 (Some n1) q1" using cat_step [OF 6(5) 6(1) [OF c q(1) 6(4) True] _ q(2)] 6(4) by (simp add: ps_ok_def)
    then show ?thesis using 6(2) [OF c q(3)] by (auto simp: cat_so_far_def parsed_def)
  next
    case False
    then show ?thesis using 6(3-5) push_empty by (cases acc) (auto simp: at_piece_def cat_so_far_def)
  qed
next
  case (8 f d p)
  then obtain m q where q: "parse_atom f d p = Some (Inr (m, q))" "repeat_loop (length (ps_pat p) + 1) m q = Some (Inr (n, p'))" by (auto simp: ps_then_Inr)
  then show ?case using 8(1) [OF q(1) 8(3,4)] parsed_mono g_intros(6) repeat_loop_ok [OF q(2)] by blast
next
  case (10 f d p)
  show ?case
  proof (cases "peek p = Some 0x28")
    case True
    then obtain q where q: "parse_alt f (d + 1) (adv 1 p) = Some (Inr (n, q))" "peek q = Some 0x29" "p' = adv 1 q" "\<not> d + 1 > MAX_DEPTH"
      using 10(2) by (auto simp: ps_then_Inr split: if_splits)
    have "ps_ok (adv 1 p)" using 10(3) True by (intro adv_ok) (auto simp: peek_Some)
    then show ?thesis using 10(1) [OF _ True q(4,1)] True q(2,3) group_ok by auto
  next
    case False
    then obtain c where "peek p = Some c" "parse_simple c p = Some (Inr (n, p'))" using 10(2,4) by (auto simp: at_piece_def)
    then show ?thesis using parse_simple_ok 10(3,4) False by (auto simp: at_piece_def)
  qed
qed simp_all

section \<open>The parser returns\<close>

lemma ps_then_returns: "\<exists>y. r = Some y \<Longrightarrow> (\<And>n p. r = Some (Inr (n, p)) \<Longrightarrow> \<exists>y. g n p = Some y) \<Longrightarrow> \<exists>y. ps_then r g = Some y"
  by (auto simp: ps_then_def split: option.split sum.split)

lemma parse_simple_returns: "\<exists>y. parse_simple c p = Some y"
proof -
  have "\<exists>y. class_loop (length (ps_pat p) + 1) True (replicate 32 0) q = Some y" if "ps_pat q = ps_pat p" for q
    using class_loop_returns [of q "length (ps_pat p) + 1" "replicate 32 0" True] that by (auto simp del: class_loop.simps)
  from this [of "adv 1 p"] this [of "adv 1 (adv 1 p)"] have "\<exists>y. parse_class p = Some y"
    by (auto simp: parse_class_def Let_def adv_ok(4) simp del: class_loop.simps split: sum.split)
  then show ?thesis by (auto simp: parse_simple_def split: option.split)
qed

lemma repeat_loop_returns:
  "parsed g_rep p0 n p \<Longrightarrow> left_in p < f \<Longrightarrow> \<exists>y. repeat_loop f n p = Some y"
proof (induction f arbitrary: n p)
  case (Suc f)
  obtain a where a: "ps_ok p" "den p n a" using Suc(2) by (auto simp: parsed_def)
  have loop: "\<exists>y. repeat_loop f m q = Some y" if "parsed g_rep p0 m q" "left_in q < left_in p" for m q using Suc(1) [OF that(1)] that(2) Suc(3) by simp
  show ?case
    using loop repeat_step [OF Suc(2) a(2)] den_nullable [OF a] by (auto split: sum.split bool.split)
qed simp

lemma parsed_left: "parsed G p n q \<Longrightarrow> left_in q \<le> left_in p" "parsed g_rep p n q \<Longrightarrow> ps_ok p \<Longrightarrow> left_in q < left_in p"
  using parsed_moves [of p n q] by (auto simp: parsed_def extends_def left_in_def ps_ok_def)

lemma parse_returns:
  "ps_ok p \<Longrightarrow> 4 * left_in p + 4 \<le> f \<Longrightarrow> \<exists>y. parse_alt f d p = Some y"
  "parsed g_alt p0 l p \<Longrightarrow> 4 * left_in p + 3 \<le> f \<Longrightarrow> \<exists>y. alt_loop f d l p = Some y"
  "ps_ok p \<Longrightarrow> cat_so_far p0 acc p \<Longrightarrow> 4 * left_in p + 3 \<le> f \<Longrightarrow> \<exists>y. parse_concat f d acc p = Some y"
  "ps_ok p \<Longrightarrow> at_piece p \<Longrightarrow> 4 * left_in p + 2 \<le> f \<Longrightarrow> \<exists>y. parse_repeat f d p = Some y"
  "ps_ok p \<Longrightarrow> at_piece p \<Longrightarrow> 4 * left_in p + 1 \<le> f \<Longrightarrow> \<exists>y. parse_atom f d p = Some y"
proof (induction f d p and f d l p and f d acc p and f d p and f d p arbitrary: and p0 and p0
    rule: parse_alt_alt_loop_parse_concat_parse_repeat_parse_atom.induct)
  case (2 f d p)
  have start: "cat_so_far p None p" by (simp add: cat_so_far_def)
  show ?case
    unfolding parse_alt.simps
  proof (rule ps_then_returns)
    show "\<exists>y. parse_concat f d None p = Some y" using 2(1) [OF 2(3) start] 2(4) by simp
    fix l q assume q: "parse_concat f d None p = Some (Inr (l, q))"
    have "parsed g_alt p l q" using parsed_mono [OF parse_ok(3) [OF q 2(3) start] g_intros(1)] .
    then show "\<exists>y. alt_loop f d l q = Some y" using 2(2) parsed_left(1) [of g_alt p l q] 2(4) by force
  qed
next
  case (4 f d l p)
  show ?case
  proof (cases "peek p = Some 0x7c")
    case True
    note left = peek_left [OF True]
    have ok: "ps_ok (adv 1 p)" using 4(3) True by (intro adv_ok) (auto simp: peek_Some parsed_def)
    have start: "cat_so_far (adv 1 p) None (adv 1 p)" by (simp add: cat_so_far_def)
    have "\<exists>y. parse_concat f d None (adv 1 p) = Some y" using 4(1) [OF True ok start] left 4(4) by simp
    moreover have "\<exists>y. alt_loop f d l1 q1 = Some y"
      if q: "parse_concat f d None (adv 1 p) = Some (Inr (m, q))" "push_node (Node_Alt l m) q = Inr (l1, q1)" for m q l1 q1
    proof -
      note m = parse_ok(3) [OF q(1) ok start]
      show ?thesis using 4(2) [OF True alt_step [OF 4(3) m True q(2)]] parsed_left(1) [OF m] push_left [OF q(2)] left 4(4) by simp
    qed
    ultimately show ?thesis using True by (auto intro!: ps_then_returns)
  qed simp
next
  case (6 f d acc p)
  show ?case
  proof (cases "at_piece p")
    case True
    then have c: "\<not> (peek p = None \<or> peek p = Some 0x7c \<or> peek p = Some 0x29)" by (simp add: at_piece_def)
    have "\<exists>y. parse_repeat f d p = Some y" using 6(1) [OF c 6(3) True] 6(5) by simp
    moreover have "\<exists>y. parse_concat f d (Some n) q1 = Some y"
      if q: "parse_repeat f d p = Some (Inr (m, q))" "(if acc = None then Some (Inr (m, q)) else Some (push_node (Node_Cat (the acc) m) q)) = Some (Inr (n, q1))" for m q n q1
    proof -
      note m = parse_ok(4) [OF q(1) 6(3) True]
      have n: "cat_so_far p0 (Some n) q1" using cat_step [OF 6(4) m _ q(2)] 6(3) by (simp add: ps_ok_def)
      have "left_in q1 = left_in q" using q(2) push_left by (auto split: if_splits)
      then show ?thesis using 6(2) [OF c _ n] n parsed_left(2) [OF m 6(3)] 6(5) by (auto simp: cat_so_far_def parsed_def)
    qed
    ultimately show ?thesis unfolding parse_concat.simps if_not_P [OF c] by (intro ps_then_returns) auto
  qed (auto simp: at_piece_def)
next
  case (8 f d p)
  have "\<exists>y. repeat_loop (length (ps_pat p) + 1) m q = Some y" if "parse_atom f d p = Some (Inr (m, q))" for m q
  proof -
    have m: "parsed g_rep p m q" using parsed_mono [OF parse_ok(5) [OF that 8(2,3)] g_intros(6)] .
    then show ?thesis using parsed_left(1) [OF m] by (intro repeat_loop_returns [OF m]) (simp add: left_in_def)
  qed
  then show ?case using 8 unfolding parse_repeat.simps by (intro ps_then_returns) auto
next
  case (10 f d p)
  show ?case
  proof (cases "peek p = Some 0x28")
    case True
    have "ps_ok (adv 1 p)" using 10(2) True by (intro adv_ok) (auto simp: peek_Some)
    then show ?thesis using 10(1) [OF _ True] 10(4) peek_left [OF True] True by (auto intro!: ps_then_returns)
  qed (use 10(3) parse_simple_returns in \<open>auto simp: at_piece_def\<close>)
qed simp_all

section \<open>The whole engine\<close>

lemma parser_new_ok: "ps_ok (parser_new pat)"
  by (simp add: ps_ok_def parser_new_def arena_ok_def)

lemma denotes_mono: "denotes K nodes n a \<Longrightarrow> (\<And>i neg W. K i neg W \<Longrightarrow> L i neg W) \<Longrightarrow> denotes L nodes n a"
  by (induction rule: denotes.induct) (auto intro: denotes.intros)

lemma compile_code:
  assumes "compile pat = Some (Inr re)" "pat \<noteq> []"
  shows "\<exists>a q. g_alt pat a \<and> code re a 0 q \<and> q < MAX_PROG \<and> rx_prog re ! q = Inst_Match \<and> \<not> rx_empty re"
proof -
  let ?e = "\<lparr>em_prog = replicate MAX_PROG Inst_Match, em_len = 0\<rparr>"
  obtain root p where r: "parse_alt parse_fuel 0 (parser_new pat) = Some (Inr (root, p))"
    using assms by (cases "parse_alt parse_fuel 0 (parser_new pat)") (auto simp: compile_def split: if_splits sum.splits)
  obtain e' where "ps_pos p = length (ps_pat p)" "em_then (gen MAX_NODES (ps_nodes p) root ?e) (emit1 Inst_Match) = Some (Inr e')"
      "re = \<lparr>rx_prog = em_prog e', rx_prog_len = em_len e', rx_classes = ps_classes p, rx_class_negated = ps_class_negated p,
         rx_n_classes = ps_n_classes p, rx_empty = False\<rparr>"
    using assms r by (cases "em_then (gen MAX_NODES (ps_nodes p) root ?e) (emit1 Inst_Match)") (auto simp: compile_def split: if_splits sum.splits)
  then obtain e where c: "parse_alt parse_fuel 0 (parser_new pat) = Some (Inr (root, p))" "ps_pos p = length (ps_pat p)"
      "gen MAX_NODES (ps_nodes p) root ?e = Some (Inr e)" "emit1 Inst_Match e = Some (Inr e')"
      "rx_prog re = em_prog e'" "rx_classes re = ps_classes p" "rx_class_negated re = ps_class_negated p" "\<not> rx_empty re"
    using r by (auto simp: em_then_Inr)
  obtain a where a: "den p root a" "g_alt (span pat 0 (ps_pos p)) a" "ps_pat p = pat"
    using parse_ok(1) [OF c(1) parser_new_ok] by (auto simp: parsed_def extends_def parser_new_def)
  have "denotes (class_is re) (ps_nodes p) root a"
    using a(1) c(6,7) by (auto simp: den_def class_at_def class_is_def intro: denotes_mono)
  then have l: "lays_out re a ?e e" by (rule gen_ok [OF _ c(3)]) (simp add: em_ok_def)
  then have ok: "em_ok e" by (simp add: lays_out_def grows_def)
  obtain at where at: "emit Inst_Match e = Inr (at, e')" using c(4) by (auto simp: emit1_Inr)
  then have e': "grows e e'" "em_len e < MAX_PROG" "em_prog e' ! em_len e = Inst_Match"
    using emit_grows [OF ok at] at emit_Inr [OF ok, of Inst_Match at e'] by auto
  have "agrees re e 0 (em_len e)" using e'(1) c(5) by (simp add: agrees_def grows_def)
  then have "code re a 0 (em_len e)" using l by (simp add: lays_out_def)
  then show ?thesis using a(2,3) c(2,5,8) e' by (auto simp: span_def)
qed

lemma compile_empty:
  assumes "compile [] = Some (Inr re)"
  shows "rx_empty re" "rx_prog re ! 0 = Inst_Match"
  using assms by (auto simp: compile_def MAX_PROG_def)

lemma compile_some: "\<exists>y. compile pat = Some y"
proof (cases "length pat > MAX_PATTERN \<or> pat = []")
  case False
  have "left_in (parser_new pat) \<le> MAX_PATTERN" using False by (simp add: left_in_def parser_new_def)
  then obtain y where y: "parse_alt parse_fuel 0 (parser_new pat) = Some y" using parse_returns(1) [OF parser_new_ok] by (force simp: parse_fuel_def)
  show ?thesis
  proof (cases y)
    case (Inr x)
    obtain root p where x: "x = (root, p)" by (cases x)
    have p: "ps_ok p" "unat root < ps_n_nodes p" using parse_ok(1) [OF _ parser_new_ok] y Inr x by (auto simp: parsed_def den_def)
    have "\<exists>z. gen (Suc 127) (ps_nodes p) root e = Some z" for e
      using p by (intro gen_returns [of _ "ps_n_nodes p"]) (auto simp: ps_ok_def MAX_NODES_def)
    then have "\<exists>z. em_then (gen MAX_NODES (ps_nodes p) root e) (emit1 Inst_Match) = Some z" for e
      by (intro em_returns) (auto simp: MAX_NODES_def numeral_eq_Suc)
    from this [of "\<lparr>em_prog = replicate MAX_PROG Inst_Match, em_len = 0\<rparr>"] show ?thesis
      using False y Inr x by (auto simp: compile_def split: sum.split)
  qed (use False y in \<open>auto simp: compile_def\<close>)
qed (auto simp: compile_def)

lemma compiled_decides:
  assumes "compile pat = Some (Inr re)"
  shows "\<exists>a. g_alt pat a \<and> (\<forall>tx fld. is_match re tx fld \<noteq> Match_Limit \<longrightarrow>
    (is_match re tx fld = Match_Yes \<longleftrightarrow> (\<exists>i j. i \<le> length tx \<and> match_at tx fld a i j)))"
proof (cases "pat = []")
  case True
  have "g_alt [] E_Empty" by (intro g_intros)
  then show ?thesis using compile_empty(1) assms True by (intro exI [of _ E_Empty]) (auto simp: is_match_def intro: match_at.intros)
next
  case False
  from compile_code [OF assms False] obtain a q where a: "g_alt pat a" "code re a 0 q" "q < 65536" "rx_prog re ! q = Inst_Match" "\<not> rx_empty re"
    by (auto simp: MAX_PROG_def)
  then show ?thesis using is_match_code [OF a(2-5)] by blast
qed

lemma compiled_ends:
  assumes "compile pat = Some (Inr re)" "length tx \<le> MAX_TEXT" "start \<le> length tx"
  shows "ends re tx fld (0, of_nat start)"
proof (cases "pat = []")
  case True
  then show ?thesis using compile_empty(2) assms(1) by (simp add: ends_exec exec_def)
next
  case False
  from compile_code [OF assms(1) False] obtain a q where a: "g_alt pat a" "code re a 0 q" "q < 65536" "rx_prog re ! q = Inst_Match"
    by (auto simp: MAX_PROG_def)
  have l: "length tx < 65536" using assms(2) by (simp add: MAX_TEXT_def)
  have "ends re tx fld (th q j)" if "j \<le> length tx" for j using that l a(3,4) by (simp add: ends_exec exec_th)
  then show ?thesis using code_ends [OF a(2) l a(3) g_repeats(1) [OF a(1)]] assms(3) by (auto simp: ends_through_def)
qed

end
