(* ===== verification/Regex_Engine.thy ===== *)
theory Regex_Engine
  imports Regex_Parse
begin

text \<open>
  What the engine of \<open>src/regex/src/lib.rs\<close> promises its callers, over the parser, the emitter and the machine: every pattern is compiled or
  refused, an answer other than the limit is the right one, no thread runs forever, and a pattern without operators never meets the limit on
  a line of a usual length.
\<close>

section \<open>Patterns without operators\<close>

primrec straight :: "ere \<Rightarrow> bool" where
  "straight E_Empty \<longleftrightarrow> True"
| "straight (E_Char c) \<longleftrightarrow> True"
| "straight E_Any \<longleftrightarrow> True"
| "straight (E_Class neg W) \<longleftrightarrow> True"
| "straight E_Bol \<longleftrightarrow> True"
| "straight E_Eol \<longleftrightarrow> True"
| "straight (E_Cat a b) \<longleftrightarrow> straight a \<and> straight b"
| "straight (E_Alt a b) \<longleftrightarrow> False"
| "straight (E_Star a) \<longleftrightarrow> False"
| "straight (E_Plus a) \<longleftrightarrow> False"
| "straight (E_Quest a) \<longleftrightarrow> False"

definition no_operators :: "u8 list \<Rightarrow> bool" where
  "no_operators s \<longleftrightarrow> set s \<inter> {0x7c, 0x2a, 0x2b, 0x3f} = {}"

lemma no_operators_straight:
  "g_alt s a \<Longrightarrow> no_operators s \<longrightarrow> straight a" "g_cat s a \<Longrightarrow> no_operators s \<longrightarrow> straight a"
  "g_rep s a \<Longrightarrow> no_operators s \<longrightarrow> straight a" "g_atom s a \<Longrightarrow> no_operators s \<longrightarrow> straight a"
  by (induction rule: g_alt_g_cat_g_rep_g_atom.inducts) (auto simp: no_operators_def)

fun goes_on :: "inst \<Rightarrow> bool" where
  "goes_on (Inst_Split a b) = False"
| "goes_on (Inst_Jmp a) = False"
| "goes_on Inst_Match = False"
| "goes_on _ = True"

lemma straight_code: "code re a p q \<Longrightarrow> straight a \<Longrightarrow> p \<le> k \<Longrightarrow> k < q \<Longrightarrow> goes_on (rx_prog re ! k)"
proof (induction a arbitrary: p q)
  case (E_Cat a b)
  then obtain m where "code re a p m" "code re b m q" by auto
  then show ?case using E_Cat by (cases "k < m") auto
qed (auto simp: less_Suc_eq)

lemma goes_on_exec: "goes_on (rx_prog re ! unat pc) \<Longrightarrow> exec re tx fld pc sp = Fail \<or> (\<exists>sp'. exec re tx fld pc sp = Next (pc + 1) sp')"
  by (cases "rx_prog re ! unat pc") (auto simp: exec_def)

text \<open>A run through such a program takes at most a step for each instruction.\<close>

lemma run_straight:
  assumes "\<And>k. k < q \<Longrightarrow> goes_on (rx_prog re ! k)" "rx_prog re ! q = Inst_Match" "q < MAX_PROG" "k \<le> q" "unat steps + (q - k) < 20000"
  shows "\<exists>r s. run re tx fld (of_nat k) sp [] steps = (r, s) \<and> r \<noteq> Match_Limit \<and> unat s \<le> unat steps + (q - k) + 1"
  using assms(4,5)
proof (induction "q - k" arbitrary: k sp steps)
  case 0
  have u: "unat (of_nat k :: u16) = k" using 0(2) assms(3) by (simp add: unat_of_nat MAX_PROG_def)
  have s: "unat (steps + 1) = unat steps + 1" using 0(3) by (simp add: unat_word_ariths)
  have "exec re tx fld (of_nat k) sp = Found" using 0(1,2) assms(2) u by (simp add: exec_def)
  then show ?case using s 0(3) by (simp add: run.simps [of re tx fld "of_nat k"] MAX_STEPS_def word_less_nat_alt)
next
  case (Suc d)
  have u: "unat (of_nat k :: u16) = k" using Suc(3) assms(3) by (simp add: unat_of_nat MAX_PROG_def)
  have s: "unat (steps + 1) = unat steps + 1" using Suc(4) by (simp add: unat_word_ariths)
  have l: "\<not> steps + 1 > MAX_STEPS" using s Suc(2,4) by (simp add: MAX_STEPS_def word_less_nat_alt)
  from goes_on_exec [of re "of_nat k" tx fld sp] assms(1) [of k] u Suc(2)
  consider "exec re tx fld (of_nat k) sp = Fail" | sp' where "exec re tx fld (of_nat k) sp = Next (of_nat (Suc k)) sp'" by (auto simp: add.commute)
  then show ?case
  proof cases
    case 1
    then show ?thesis using l s by (simp add: run.simps [of re tx fld "of_nat k"])
  next
    case 2
    have d: "d = q - Suc k" "Suc k \<le> q" "unat (steps + 1) + (q - Suc k) < 20000" using Suc(2,4) s by auto
    obtain r t where r: "run re tx fld (of_nat (Suc k)) sp' [] (steps + 1) = (r, t)" "r \<noteq> Match_Limit" "unat t \<le> unat (steps + 1) + (q - Suc k) + 1"
      using Suc(1) [OF d, of sp'] by blast
    have "run re tx fld (of_nat k) sp [] steps = (r, t)" using 2 l r(1) by (subst run.simps) (simp del: of_nat_Suc)
    then show ?thesis using r(2,3) s d(1) Suc(2) by simp
  qed
qed

lemma saturating_add_small: "unat a + unat b < 2 ^ 32 \<Longrightarrow> unat (saturating_add a (b :: u32)) = unat a + unat b"
  by (simp add: saturating_add_def word_less_nat_alt unat_word_ariths)

declare run.simps [simp del] search.simps [simp del]

lemma search_straight:
  assumes "\<And>k. k < q \<Longrightarrow> goes_on (rx_prog re ! k)" "rx_prog re ! q = Inst_Match" "q < MAX_PROG"
  shows "unat spent + 192 * (length tx - start + 1) \<le> 2000000 \<Longrightarrow> search re tx fld start spent \<noteq> Match_Limit"
proof (induction "length tx - start" arbitrary: start spent rule: less_induct)
  case less
  obtain r s where r: "run re tx fld 0 (of_nat start) [] 0 = (r, s)" "r \<noteq> Match_Limit" "unat s \<le> q + 1"
    using run_straight [OF assms, of 0 0 tx fld "of_nat start"] assms(3) by (auto simp: MAX_PROG_def)
  have t: "unat (saturating_add spent s) = unat spent + unat s" using less(2) r(3) assms(3) by (intro saturating_add_small) (simp add: MAX_PROG_def)
  have "search re tx fld (start + 1) (saturating_add spent s) \<noteq> Match_Limit" if "start < length tx"
    using less(2) that t r(3) assms(3) by (intro less(1)) (auto simp: MAX_PROG_def)
  then show ?case using r t less(2) assms(3)
    by (subst search.simps) (auto simp: Let_def MAX_TOTAL_STEPS_def word_less_nat_alt MAX_PROG_def split: rx_match.split)
qed

lemma plain_no_limit:
  assumes "compile pat = Some (Inr re)" "no_operators pat" "length tx \<le> 10000"
  shows "is_match re tx fld \<noteq> Match_Limit"
proof (cases "pat = []")
  case True
  then show ?thesis using assms(1) compile_empty(1) by (simp add: is_match_def)
next
  case False
  obtain a q where a: "g_alt pat a" "code re a 0 q" "q < MAX_PROG" "rx_prog re ! q = Inst_Match" "\<not> rx_empty re"
    using compile_code [OF assms(1) False] by blast
  have "straight a" using no_operators_straight(1) [OF a(1)] assms(2) by simp
  then have "search re tx fld 0 0 \<noteq> Match_Limit" using straight_code [OF a(2)] a(3,4) assms(3) by (intro search_straight) auto
  then show ?thesis using a(5) assms(3) by (simp add: is_match_def MAX_TEXT_def)
qed

section \<open>Properties\<close>

definition sample_pattern :: "u8 list" where "sample_pattern = map of_char ''(ab|c)+d''"

lemmas fuel_numeral = parse_alt.simps(2) [of "pred_numeral k", folded numeral_eq_Suc] alt_loop.simps(2) [of "pred_numeral k", folded numeral_eq_Suc]
  parse_concat.simps(2) [of "pred_numeral k", folded numeral_eq_Suc] parse_repeat.simps(2) [of "pred_numeral k", folded numeral_eq_Suc]
  parse_atom.simps(2) [of "pred_numeral k", folded numeral_eq_Suc] nullable.simps(2) [of "pred_numeral k", folded numeral_eq_Suc]
  gen.simps(2) [of "pred_numeral k", folded numeral_eq_Suc] for k

lemmas compile_eval = compile_def MAX_PATTERN_def parse_fuel_def fuel_numeral ps_then_def parser_new_def peek_def adv_def get_at_def push_node_def
  parse_simple_def em_then_def em_at_def emit1_def emit_def patch_def MAX_DEPTH_def MAX_NODES_def MAX_PROG_def nth_list_update

lemmas match_eval = is_match_def MAX_TEXT_def saturating_add_def MAX_STEPS_def exec_def MAX_STACK_def MAX_TOTAL_STEPS_def nth_list_update
  run.simps search.simps fold_byte_def is_ascii_uppercase_def

lemma sample_compiles:
  "case compile sample_pattern of Some (Inr re) \<Rightarrow> is_match re (map of_char ''xCAbd'') True = Match_Yes | _ \<Rightarrow> False"
  by (simp add: compile_eval sample_pattern_def) (simp add: match_eval)

text \<open>(C20) \<open>compile\<close> returns on every pattern: the recursions of the parser, of \<open>nullable\<close> and of the emitter end within the fuel the
  model gives them, and the pattern is either compiled or refused with an error.\<close>

theorem compile_returns: "\<exists>r. compile pat = Some r"
  by (rule compile_some)

text \<open>(C5) The answer of the engine is the right one. A pattern that compiles is a sentence of the grammar of extended regular expressions, and for
  every text, with or without case folding, \<open>is_match\<close> answers yes exactly when that expression matches somewhere in the text,
  unless it says that it reached its limit.\<close>

theorem regex_decides:
  assumes "compile pat = Some (Inr re)"
  shows "\<exists>a. g_alt pat a \<and> (\<forall>tx fld. is_match re tx fld \<noteq> Match_Limit \<longrightarrow>
    (is_match re tx fld = Match_Yes \<longleftrightarrow> (\<exists>i j. i \<le> length tx \<and> match_at tx fld a i j)))"
  using assms by (rule compiled_decides)

theorem regex_decides_witness:
  "\<exists>re a. compile sample_pattern = Some (Inr re) \<and> g_alt sample_pattern a \<and> is_match re (map of_char ''xCAbd'') True = Match_Yes \<and>
     (\<exists>i j. i \<le> 5 \<and> match_at (map of_char ''xCAbd'') True a i j)"
proof -
  obtain re where re: "compile sample_pattern = Some (Inr re)" "is_match re (map of_char ''xCAbd'') True = Match_Yes"
    using sample_compiles by (auto split: option.splits sum.splits)
  have l: "length (map of_char ''xCAbd'' :: u8 list) = 5" by simp
  obtain a where a: "g_alt sample_pattern a" and d: "\<And>tx fld. is_match re tx fld \<noteq> Match_Limit \<Longrightarrow>
      (is_match re tx fld = Match_Yes \<longleftrightarrow> (\<exists>i j. i \<le> length tx \<and> match_at tx fld a i j))"
    using regex_decides [OF re(1)] by blast
  have "is_match re (map of_char ''xCAbd'') True \<noteq> Match_Limit" unfolding re(2) by simp
  from d [OF this] have "\<exists>i j. i \<le> 5 \<and> match_at (map of_char ''xCAbd'') True a i j" unfolding re(2) l by simp
  then show ?thesis using re a by blast
qed

text \<open>(C6) A pattern that compiles cannot make the machine spin: from any offset of a text, no thread of the program runs
  forever, whatever branch it takes at each split. The bound on the steps guards only against slow searches.\<close>

theorem regex_terminates:
  assumes "compile pat = Some (Inr re)" "length tx \<le> MAX_TEXT" "start \<le> length tx" "f 0 = (0, of_nat start)"
  shows "\<exists>n. f (Suc n) \<notin> set (succs re tx fld (f n))"
  using ends_finite [OF compiled_ends [OF assms(1-3)], of f] assms(4) by blast

theorem regex_terminates_witness:
  "\<exists>re. compile sample_pattern = Some (Inr re) \<and>
     (\<exists>n. (\<lambda>k. (of_nat k, 0)) (Suc n) \<notin> set (succs re (map of_char ''cd'') False ((\<lambda>k. (of_nat k, 0)) n)))"
proof -
  obtain re where re: "compile sample_pattern = Some (Inr re)"
    using sample_compiles by (auto split: option.splits sum.splits)
  have l: "length (map of_char ''cd'' :: u8 list) \<le> MAX_TEXT" by (simp add: MAX_TEXT_def)
  show ?thesis using regex_terminates [OF re l, of 0 "\<lambda>k. (of_nat k, 0)" False] re by auto
qed

text \<open>(C19) A pattern with none of the operators \<open>|\<close>, \<open>*\<close>, \<open>+\<close> and \<open>?\<close> never meets the limit on a text of up to 10000 bytes, whatever the text:
  the answer is yes or no, and the right one.\<close>

theorem plain_pattern_decided:
  assumes "compile pat = Some (Inr re)" "no_operators pat"
  shows "\<exists>a. g_alt pat a \<and> (\<forall>tx fld. length tx \<le> 10000 \<longrightarrow>
    is_match re tx fld = (if \<exists>i j. i \<le> length tx \<and> match_at tx fld a i j then Match_Yes else Match_No))"
proof -
  obtain a where a: "g_alt pat a" "\<And>tx fld. is_match re tx fld \<noteq> Match_Limit \<Longrightarrow>
      (is_match re tx fld = Match_Yes \<longleftrightarrow> (\<exists>i j. i \<le> length tx \<and> match_at tx fld a i j))"
    using compiled_decides [OF assms(1)] by blast
  have "is_match re tx fld = (if \<exists>i j. i \<le> length tx \<and> match_at tx fld a i j then Match_Yes else Match_No)" if "length tx \<le> 10000" for tx fld
    using a(2) [of tx fld] plain_no_limit [OF assms that, of fld] by (cases "is_match re tx fld") auto
  then show ?thesis using a(1) by blast
qed

theorem plain_pattern_decided_witness:
  "\<exists>re a. compile (map of_char ''^a.c$'') = Some (Inr re) \<and> g_alt (map of_char ''^a.c$'') a \<and>
     is_match re (map of_char ''axc'') False = (if \<exists>i j. i \<le> 3 \<and> match_at (map of_char ''axc'') False a i j then Match_Yes else Match_No)"
proof -
  have "case compile (map of_char ''^a.c$'') of Some (Inr re) \<Rightarrow> True | _ \<Rightarrow> False" by (simp add: compile_eval)
  then obtain re where re: "compile (map of_char ''^a.c$'') = Some (Inr re)" by (auto split: option.splits sum.splits)
  have o: "no_operators (map of_char ''^a.c$'')" by (simp add: no_operators_def)
  have l: "length (map of_char ''axc'' :: u8 list) = 3" by simp
  have "length (map of_char ''axc'' :: u8 list) \<le> 10000" by simp
  then show ?thesis using plain_pattern_decided [OF re o] re unfolding l [symmetric] by blast
qed

end
