(* ===== verification/Keyseq.thy ===== *)
theory Keyseq
  imports Prelude
begin

text \<open>
  The escape-sequence filter of the shells and of the console
  (\<open>src/keyseq/src/lib.rs\<close>): the type of answers, the parser state, and \<open>feed\<close>, one
  step of the parser per input byte. The lemmas give the parser's behaviour on
  whole keys and on cut ones.
\<close>

section \<open>Model\<close>

datatype fed = Fed_Byte u8 | Fed_Pending | Fed_Sequence

datatype kstate = Ground | Esc | Csi | Ss3

definition ESC :: u8 where "ESC = 0x1b"
definition DEL :: u8 where "DEL = 0x7f"

record keyseq =
  ks_state :: kstate

definition keyseq_new :: keyseq where
  "keyseq_new = \<lparr>ks_state = Ground\<rparr>"

definition feed :: "keyseq \<Rightarrow> u8 \<Rightarrow> keyseq \<times> fed" where
  "feed s byte =
     (if ks_state s = Ground then
        (if byte = ESC then (s\<lparr>ks_state := Esc\<rparr>, Fed_Pending) else (s, Fed_Byte byte))
      else if byte = ESC then (s\<lparr>ks_state := Esc\<rparr>, Fed_Pending)
      else if byte < 0x20 \<or> byte = DEL then (s\<lparr>ks_state := Ground\<rparr>, Fed_Byte byte)
      else case ks_state s of
        Ground \<Rightarrow> (s, Fed_Byte byte)
      | Esc \<Rightarrow>
          (if byte = 0x5b then (s\<lparr>ks_state := Csi\<rparr>, Fed_Pending)
           else if byte = 0x4f then (s\<lparr>ks_state := Ss3\<rparr>, Fed_Pending)
           else (s\<lparr>ks_state := Ground\<rparr>, Fed_Byte byte))
      | Csi \<Rightarrow>
          (if 0x40 \<le> byte \<and> byte \<le> 0x7e then (s\<lparr>ks_state := Ground\<rparr>, Fed_Sequence)
           else (s, Fed_Pending))
      | Ss3 \<Rightarrow> (s\<lparr>ks_state := Ground\<rparr>, Fed_Sequence))"

text \<open>A whole stream of bytes: the parser after it and the answers, in order.\<close>

primrec feed_all :: "keyseq \<Rightarrow> u8 list \<Rightarrow> keyseq \<times> fed list" where
  "feed_all s [] = (s, [])"
| "feed_all s (b # bs) =
     (case feed s b of (s1, f) \<Rightarrow> case feed_all s1 bs of (s2, fs) \<Rightarrow> (s2, f # fs))"

text \<open>
  The keys a terminal sends: a byte of its own, a control sequence
  (\<open>ESC [\<close>, parameters, a final byte) or a single-shift key (\<open>ESC O\<close> and one byte).
\<close>

datatype key = Plain u8 | Csi_Key "u8 list" u8 | Ss3_Key u8

definition csi_param :: "u8 \<Rightarrow> bool" where
  "csi_param b \<longleftrightarrow> 0x20 \<le> b \<and> b \<noteq> DEL \<and> \<not> (0x40 \<le> b \<and> b \<le> 0x7e)"

fun key_ok :: "key \<Rightarrow> bool" where
  "key_ok (Plain b) \<longleftrightarrow> b \<noteq> ESC"
| "key_ok (Csi_Key ps f) \<longleftrightarrow> (\<forall>p\<in>set ps. csi_param p) \<and> 0x40 \<le> f \<and> f \<le> 0x7e"
| "key_ok (Ss3_Key b) \<longleftrightarrow> 0x20 \<le> b \<and> b \<noteq> DEL"

fun key_bytes :: "key \<Rightarrow> u8 list" where
  "key_bytes (Plain b) = [b]"
| "key_bytes (Csi_Key ps f) = [ESC, 0x5b] @ ps @ [f]"
| "key_bytes (Ss3_Key b) = [ESC, 0x4f, b]"

text \<open>What a line editor sees of a key: its byte, or one ignored sequence.\<close>

fun key_answers :: "key \<Rightarrow> fed list" where
  "key_answers (Plain b) = [Fed_Byte b]"
| "key_answers (Csi_Key ps f) = replicate (2 + length ps) Fed_Pending @ [Fed_Sequence]"
| "key_answers (Ss3_Key b) = [Fed_Pending, Fed_Pending, Fed_Sequence]"

section \<open>Lemmas\<close>

lemmas feed_simps = feed_def ESC_def DEL_def keyseq_new_def

lemma feed_all_append:
  "feed_all s (xs @ ys) =
     (case feed_all s xs of (s1, fs) \<Rightarrow> case feed_all s1 ys of (s2, gs) \<Rightarrow> (s2, fs @ gs))"
  by (induction xs arbitrary: s) (auto split: prod.splits)

text \<open>The answer is \<open>Pending\<close> exactly while the parser is inside a key.\<close>

lemma feed_pending_iff: "snd (feed s b) = Fed_Pending \<longleftrightarrow> ks_state (fst (feed s b)) \<noteq> Ground"
  by (cases "ks_state s") (auto simp: feed_simps)

lemma feed_byte_same: "snd (feed s b) = Fed_Byte c \<Longrightarrow> c = b"
  by (cases "ks_state s") (auto simp: feed_simps split: if_splits)

lemma feed_ground: "ks_state s = Ground \<Longrightarrow> b \<noteq> ESC \<Longrightarrow> feed s b = (s, Fed_Byte b)"
  by (simp add: feed_def)

lemma feed_control:
  "b \<noteq> ESC \<Longrightarrow> b < 0x20 \<or> b = DEL \<Longrightarrow> feed s b = (keyseq_new, Fed_Byte b)"
  by (cases s; cases "ks_state s") (auto simp: feed_def keyseq_new_def)

lemma feed_esc: "feed s ESC = (\<lparr>ks_state = Esc\<rparr>, Fed_Pending)"
  by (cases s) (auto simp: feed_def)

lemma csi_param_not_esc: "csi_param p \<Longrightarrow> p \<noteq> ESC"
  by (auto simp: csi_param_def ESC_def)

lemma feed_csi_param: "csi_param p \<Longrightarrow> feed \<lparr>ks_state = Csi\<rparr> p = (\<lparr>ks_state = Csi\<rparr>, Fed_Pending)"
  by (auto simp: feed_def csi_param_def ESC_def not_less[symmetric])

lemma feed_csi_final:
  "0x40 \<le> f \<Longrightarrow> f \<le> 0x7e \<Longrightarrow> feed \<lparr>ks_state = Csi\<rparr> f = (keyseq_new, Fed_Sequence)"
  by (auto simp: feed_def ESC_def DEL_def keyseq_new_def word_le_nat_alt word_less_nat_alt)

lemma feed_ss3: "0x20 \<le> b \<Longrightarrow> b \<noteq> DEL \<Longrightarrow> feed \<lparr>ks_state = Ss3\<rparr> b = (keyseq_new, Fed_Sequence)"
  by (auto simp: feed_def ESC_def DEL_def keyseq_new_def word_le_nat_alt word_less_nat_alt)

lemma feed_bracket: "feed \<lparr>ks_state = Esc\<rparr> 0x5b = (\<lparr>ks_state = Csi\<rparr>, Fed_Pending)"
  by (simp add: feed_simps)

lemma feed_letter_O: "feed \<lparr>ks_state = Esc\<rparr> 0x4f = (\<lparr>ks_state = Ss3\<rparr>, Fed_Pending)"
  by (simp add: feed_simps)

lemma feed_params:
  "\<forall>p\<in>set ps. csi_param p \<Longrightarrow>
     feed_all \<lparr>ks_state = Csi\<rparr> ps = (\<lparr>ks_state = Csi\<rparr>, replicate (length ps) Fed_Pending)"
  by (induction ps) (auto simp: feed_csi_param)

lemma feed_key:
  "key_ok k \<Longrightarrow> feed_all keyseq_new (key_bytes k) = (keyseq_new, key_answers k)"
  by (cases k)
     (auto simp: feed_ground feed_esc feed_bracket feed_letter_O feed_all_append feed_params
        feed_csi_final feed_ss3 keyseq_new_def)

text \<open>(C22) On any run of well-formed keys the filter hands the plain bytes through unchanged and in
  order, answers exactly one \<open>Sequence\<close> for each escape-sequence key, and ends between keys.\<close>

theorem feed_keys:
  assumes "\<forall>k\<in>set ks. key_ok k"
  shows "feed_all keyseq_new (concat (map key_bytes ks)) =
    (keyseq_new, concat (map key_answers ks))"
  using assms by (induction ks) (auto simp: feed_all_append feed_key)

theorem feed_keys_witness:
  "feed_all keyseq_new [0x61, 0x1b, 0x5b, 0x33, 0x7e, 0x1b, 0x4f, 0x50] =
     (keyseq_new, [Fed_Byte 0x61, Fed_Pending, Fed_Pending, Fed_Pending, Fed_Sequence,
        Fed_Pending, Fed_Pending, Fed_Sequence])"
proof -
  let ?ks = "[Plain 0x61, Csi_Key [0x33] 0x7e, Ss3_Key 0x50]"
  have ok: "\<forall>k\<in>set ?ks. key_ok k" by (simp add: csi_param_def ESC_def DEL_def)
  show ?thesis using feed_keys [OF ok] by (simp add: ESC_def numeral_3_eq_3)
qed

text \<open>Whatever came before, a control byte other than ESC is passed through at once and ends
  the key in progress, so Enter, Backspace and Ctrl-C always reach the reader, and every byte
  that follows is parsed as from the start.\<close>

lemma feed_recovers:
  assumes "b \<noteq> ESC" and "b < 0x20 \<or> b = DEL"
  shows "feed_all s (pre @ b # post) =
    (fst (feed_all keyseq_new post),
     snd (feed_all s pre) @ Fed_Byte b # snd (feed_all keyseq_new post))"
  using assms by (simp add: feed_all_append feed_control split: prod.splits)

end
