(* ===== verification/Key_Queue.thy ===== *)
theory Key_Queue
  imports Keyseq "HOL-Library.Sublist"
begin

text \<open>
  The kernel's keyboard queue (\<open>src/keyseq/src/queue.rs\<close>): a ring of 64 bytes with, for
  every byte, whether it starts a key; the parser state of the key still arriving;
  and the operations of the readers and of the keyboard's change of hands. The
  ring is read as a list of (byte, starts) pairs; the invariant ties the flags to it.
\<close>

section \<open>Model\<close>

definition QUEUE_LEN :: nat where "QUEUE_LEN = 64"

datatype source = Serial | Usb bool

record keyqueue =
  kq_buf :: "u8 list"
  kq_starts :: "bool list"
  kq_head :: nat
  kq_len :: nat
  kq_keys :: keyseq
  kq_inside :: bool
  kq_inside_usb :: bool
  kq_fed_at :: u64
  kq_esc_alone :: u64
  kq_usb_alone :: u64
  kq_partial :: nat
  kq_dropping :: bool
  kq_taken_mid :: bool

definition keyqueue_new :: "u64 \<Rightarrow> u64 \<Rightarrow> keyqueue" where
  "keyqueue_new esc_alone usb_alone =
     \<lparr>kq_buf = replicate QUEUE_LEN 0, kq_starts = replicate QUEUE_LEN False,
      kq_head = 0, kq_len = 0, kq_keys = keyseq_new, kq_inside = False,
      kq_inside_usb = False, kq_fed_at = 0, kq_esc_alone = esc_alone,
      kq_usb_alone = usb_alone, kq_partial = 0, kq_dropping = False,
      kq_taken_mid = False\<rparr>"

definition end_key :: "keyqueue \<Rightarrow> keyqueue" where
  "end_key q =
     (let q1 = q\<lparr>kq_keys := keyseq_new, kq_inside := False, kq_partial := 0,
                 kq_dropping := False\<rparr>
      in if kq_len q1 = 0 then q1\<lparr>kq_taken_mid := False\<rparr> else q1)"

definition expire :: "keyqueue \<Rightarrow> u64 \<Rightarrow> keyqueue" where
  "expire q now =
     (let alone = (if kq_inside_usb q then kq_usb_alone q else kq_esc_alone q)
      in if kq_inside q \<and> saturating_sub now (kq_fed_at q) > alone then end_key q else q)"

definition inside_usb_key :: "keyqueue \<Rightarrow> u64 \<Rightarrow> bool \<times> keyqueue" where
  "inside_usb_key q now =
     (let q1 = expire q now in (kq_inside q1 \<and> kq_inside_usb q1, q1))"

definition inside_serial_key :: "keyqueue \<Rightarrow> u64 \<Rightarrow> bool \<times> keyqueue" where
  "inside_serial_key q now =
     (let q1 = expire q now in (kq_inside q1 \<and> \<not> kq_inside_usb q1, q1))"

text \<open>The end of \<open>push_byte\<close>: the byte goes in the ring if there is room for it.\<close>

definition append_byte :: "keyqueue \<Rightarrow> u8 \<Rightarrow> bool \<Rightarrow> fed \<Rightarrow> bool \<Rightarrow> keyqueue" where
  "append_byte q byte starts fed abandons =
     (if kq_len q = QUEUE_LEN then q
      else
        let at = (kq_head q + kq_len q) mod QUEUE_LEN;
            is_byte = (case fed of Fed_Byte _ \<Rightarrow> True | _ \<Rightarrow> False)
        in q\<lparr>kq_buf := (kq_buf q)[at := byte],
             kq_starts := (kq_starts q)[at := (starts \<or> is_byte)],
             kq_len := kq_len q + 1,
             kq_partial :=
               (if fed = Fed_Pending \<and> abandons then 1
                else if fed = Fed_Pending then kq_partial q + 1
                else 0)\<rparr>)"

text \<open>The beginning of \<open>push_byte\<close>, up to the decision about the room: the byte goes through
  the parser. The answers are the queue, what the parser made of the byte, whether it starts a
  key and whether it abandons the one in progress.\<close>

definition note_byte :: "keyqueue \<Rightarrow> u8 \<Rightarrow> bool \<Rightarrow> u64 \<Rightarrow> keyqueue \<times> fed \<times> bool \<times> bool" where
  "note_byte q0 byte from_usb now =
     (let q1 = expire q0 now;
          abandons = (kq_inside q1 \<and> byte = ESC);
          starts = (\<not> kq_inside q1 \<or> abandons);
          (ks, fed) = feed (kq_keys q1) byte;
          printable = (case fed of Fed_Byte b \<Rightarrow> 0x20 \<le> b \<and> b \<noteq> 0x7f | _ \<Rightarrow> False)
      in (q1\<lparr>kq_keys := ks,
             kq_partial := (if printable then 0 else kq_partial q1),
             kq_inside := (fed = Fed_Pending),
             kq_inside_usb := (if starts then from_usb else kq_inside_usb q1),
             kq_fed_at := now,
             kq_dropping := (kq_dropping q1 \<and> \<not> abandons)\<rparr>,
          fed, starts, abandons))"

definition push_byte :: "keyqueue \<Rightarrow> u8 \<Rightarrow> bool \<Rightarrow> u64 \<Rightarrow> keyqueue" where
  "push_byte q0 byte from_usb now =
     (case note_byte q0 byte from_usb now of (q, fed, starts, abandons) \<Rightarrow>
        if kq_dropping q then
          (case fed of
             Fed_Pending \<Rightarrow> q
           | Fed_Sequence \<Rightarrow> q\<lparr>kq_dropping := False\<rparr>
           | Fed_Byte _ \<Rightarrow> append_byte (q\<lparr>kq_dropping := False\<rparr>) byte starts fed abandons)
        else if kq_len q = QUEUE_LEN then
          (let q1 = q\<lparr>kq_len := kq_len q - min (kq_partial q) (kq_len q), kq_partial := 0\<rparr>
           in case fed of
                Fed_Pending \<Rightarrow>
                  (if abandons \<and> kq_len q1 < QUEUE_LEN
                   then append_byte q1 byte starts fed abandons
                   else q1\<lparr>kq_dropping := True\<rparr>)
              | Fed_Sequence \<Rightarrow> q1
              | Fed_Byte _ \<Rightarrow> append_byte q1 byte starts fed abandons)
        else append_byte q byte starts fed abandons)"

definition kq_push :: "keyqueue \<Rightarrow> u8 \<Rightarrow> source \<Rightarrow> u64 \<Rightarrow> keyqueue" where
  "kq_push q byte from now =
     (let from_usb = (case from of Usb _ \<Rightarrow> True | Serial \<Rightarrow> False);
          q1 = push_byte q byte from_usb now
      in if from = Usb True \<and> kq_inside q1 \<and> kq_inside_usb q1 then end_key q1 else q1)"

definition kq_flush :: "keyqueue \<Rightarrow> u8 option \<Rightarrow> keyqueue" where
  "kq_flush q interrupt =
     (let q1 = (case interrupt of
                  Some byte \<Rightarrow> q\<lparr>kq_keys := fst (feed (kq_keys q) byte),
                                kq_inside := False, kq_dropping := False\<rparr>
                | None \<Rightarrow> if kq_inside q then q\<lparr>kq_dropping := True\<rparr> else q)
      in q1\<lparr>kq_head := 0, kq_len := 0, kq_partial := 0, kq_taken_mid := False\<rparr>)"

text \<open>The loop of \<open>trim_cut_key\<close>: queued bytes go until one starts a key.\<close>

function trim_loop :: "keyqueue \<Rightarrow> keyqueue" where
  "trim_loop q =
     (if 0 < kq_len q \<and> \<not> kq_starts q ! kq_head q
      then trim_loop (q\<lparr>kq_head := (kq_head q + 1) mod QUEUE_LEN, kq_len := kq_len q - 1\<rparr>)
      else q)"
  by pat_completeness auto
termination by (relation "measure kq_len") auto

declare trim_loop.simps [simp del]

definition trim_cut_key :: "keyqueue \<Rightarrow> u64 \<Rightarrow> keyqueue" where
  "trim_cut_key q0 now =
     (let q1 = expire q0 now
      in if \<not> kq_taken_mid q1 then q1
         else
           let q2 = trim_loop q1;
               q3 = (if kq_len q2 = 0 \<and> kq_inside q2 then q2\<lparr>kq_dropping := True\<rparr> else q2)
           in q3\<lparr>kq_partial := min (kq_partial q3) (kq_len q3), kq_taken_mid := False\<rparr>)"

definition kq_is_empty :: "keyqueue \<Rightarrow> bool" where
  "kq_is_empty q \<longleftrightarrow> kq_len q = 0"

definition kq_pop :: "keyqueue \<Rightarrow> u8 option \<times> keyqueue" where
  "kq_pop q =
     (if kq_len q = 0 then (None, q)
      else
        let byte = kq_buf q ! kq_head q;
            in_partial = (kq_len q \<le> kq_partial q);
            q1 = q\<lparr>kq_head := (kq_head q + 1) mod QUEUE_LEN, kq_len := kq_len q - 1\<rparr>;
            q2 = q1\<lparr>kq_taken_mid :=
                     (if 0 < kq_len q1 then \<not> kq_starts q1 ! kq_head q1 else in_partial)\<rparr>;
            q3 = q2\<lparr>kq_partial := min (kq_partial q2) (kq_len q2)\<rparr>
        in (Some byte, q3))"

section \<open>The queue as a list\<close>

text \<open>The queued bytes, oldest first, each with whether it starts a key.\<close>

definition kq_items :: "keyqueue \<Rightarrow> (u8 \<times> bool) list" where
  "kq_items q = zip (ring_list (kq_buf q) (kq_head q) (kq_len q))
                    (ring_list (kq_starts q) (kq_head q) (kq_len q))"

definition kq_bytes :: "keyqueue \<Rightarrow> u8 list" where
  "kq_bytes q = map fst (kq_items q)"

text \<open>
  The ring part of the invariant, and the whole of it: the parser is between keys
  exactly when \<open>inside\<close> is off; only a key still arriving is dropped or has bytes
  counted at the back; a front byte that does not start a key, or an arriving key
  with none of its bytes queued, belongs to a key a reader holds part of.
\<close>

definition kq_geom :: "keyqueue \<Rightarrow> bool" where
  "kq_geom q \<longleftrightarrow> length (kq_buf q) = QUEUE_LEN \<and> length (kq_starts q) = QUEUE_LEN \<and>
     kq_head q < QUEUE_LEN \<and> kq_len q \<le> QUEUE_LEN"

definition kq_ring :: "keyqueue \<Rightarrow> bool" where
  "kq_ring q \<longleftrightarrow> kq_geom q \<and> kq_partial q \<le> kq_len q"

definition kq_inv :: "keyqueue \<Rightarrow> bool" where
  "kq_inv q \<longleftrightarrow> kq_ring q \<and>
     (kq_inside q \<longleftrightarrow> ks_state (kq_keys q) \<noteq> Ground) \<and>
     (kq_dropping q \<longrightarrow> kq_inside q \<and> kq_partial q = 0) \<and>
     (0 < kq_partial q \<longrightarrow> kq_inside q) \<and>
     (kq_inside q \<and> \<not> kq_dropping q \<and> kq_partial q = 0 \<longrightarrow> kq_taken_mid q \<and> kq_len q = 0) \<and>
     (kq_items q \<noteq> [] \<and> \<not> snd (hd (kq_items q)) \<longrightarrow> kq_taken_mid q)"

section \<open>Ring lemmas\<close>

lemma kq_items_updates [simp]:
  "kq_items (q\<lparr>kq_keys := ks\<rparr>) = kq_items q"
  "kq_items (q\<lparr>kq_inside := i\<rparr>) = kq_items q"
  "kq_items (q\<lparr>kq_inside_usb := u\<rparr>) = kq_items q"
  "kq_items (q\<lparr>kq_fed_at := t\<rparr>) = kq_items q"
  "kq_items (q\<lparr>kq_partial := n\<rparr>) = kq_items q"
  "kq_items (q\<lparr>kq_dropping := d\<rparr>) = kq_items q"
  "kq_items (q\<lparr>kq_taken_mid := m\<rparr>) = kq_items q"
  by (simp_all add: kq_items_def)

lemma length_kq_items [simp]: "length (kq_items q) = kq_len q"
  by (simp add: kq_items_def ring_simps)

lemma kq_items_empty_iff [simp]: "kq_items q = [] \<longleftrightarrow> kq_len q = 0"
  by (metis length_0_conv length_kq_items)

lemma kq_items_shorten:
  "n \<le> kq_len q \<Longrightarrow> kq_items (q\<lparr>kq_len := n\<rparr>) = take n (kq_items q)"
  by (simp add: kq_items_def take_zip ring_simps)

lemma kq_items_advance:
  assumes "kq_geom q" "0 < kq_len q"
  shows "kq_items (q\<lparr>kq_head := (kq_head q + 1) mod QUEUE_LEN, kq_len := kq_len q - 1\<rparr>) =
    tl (kq_items q)"
proof -
  obtain n where n: "kq_len q = Suc n" using assms(2) gr0_conv_Suc by blast
  have "length (kq_buf q) = QUEUE_LEN" "length (kq_starts q) = QUEUE_LEN"
    using assms(1) by (simp_all add: kq_geom_def)
  then have "ring_list (kq_buf q) ((kq_head q + 1) mod QUEUE_LEN) n =
      tl (ring_list (kq_buf q) (kq_head q) (Suc n))"
    "ring_list (kq_starts q) ((kq_head q + 1) mod QUEUE_LEN) n =
      tl (ring_list (kq_starts q) (kq_head q) (Suc n))"
    by (metis ring_list_pop)+
  moreover have "zip (tl xs) (tl ys) = tl (zip xs ys)" for xs :: "u8 list" and ys :: "bool list"
    by (cases xs; cases ys) auto
  ultimately show ?thesis by (simp add: kq_items_def n)
qed

lemma kq_items_hd:
  assumes "kq_geom q" "0 < kq_len q"
  shows "hd (kq_items q) = (kq_buf q ! kq_head q, kq_starts q ! kq_head q)"
  using assms by (simp add: kq_items_def kq_geom_def hd_zip ring_list_Nil_iff ring_list_hd)

lemma kq_items_append_byte:
  assumes "kq_geom q" "kq_len q < QUEUE_LEN"
  shows "kq_items (append_byte q b st fed ab) =
    kq_items q @ [(b, st \<or> (\<exists>c. fed = Fed_Byte c))]"
proof -
  have l: "length (kq_buf q) = QUEUE_LEN" "length (kq_starts q) = QUEUE_LEN"
    using assms(1) by (simp_all add: kq_geom_def)
  have "kq_items (append_byte q b st fed ab) =
      kq_items q @ [(b, st \<or> (case fed of Fed_Byte _ \<Rightarrow> True | _ \<Rightarrow> False))]"
    using assms(2) ring_list_push [of "kq_len q" "kq_buf q" "kq_head q"]
      ring_list_push [of "kq_len q" "kq_starts q" "kq_head q"]
    by (simp add: append_byte_def kq_items_def l zip_append ring_simps Let_def)
  then show ?thesis by (simp split: fed.splits)
qed

section \<open>The invariant is preserved\<close>

lemma kq_inv_new: "kq_inv (keyqueue_new e u)"
  by (simp add: kq_inv_def kq_ring_def kq_geom_def keyqueue_new_def keyseq_new_def QUEUE_LEN_def)

lemma kq_inv_end_key: "kq_inv q \<Longrightarrow> kq_inv (end_key q)"
  by (auto simp: kq_inv_def kq_ring_def kq_geom_def end_key_def keyseq_new_def Let_def)

lemma kq_inv_expire: "kq_inv q \<Longrightarrow> kq_inv (expire q now)"
  by (simp add: expire_def Let_def kq_inv_end_key)

lemma kq_items_end_key [simp]: "kq_items (end_key q) = kq_items q"
  by (simp add: end_key_def Let_def)

lemma kq_items_expire [simp]: "kq_items (expire q now) = kq_items q"
  by (simp add: expire_def Let_def)

lemma append_byte_fields [simp]:
  "kq_keys (append_byte q b st fed ab) = kq_keys q"
  "kq_inside (append_byte q b st fed ab) = kq_inside q"
  "kq_dropping (append_byte q b st fed ab) = kq_dropping q"
  "kq_taken_mid (append_byte q b st fed ab) = kq_taken_mid q"
  by (simp_all add: append_byte_def Let_def)

lemma kq_ring_append_byte: "kq_ring q \<Longrightarrow> kq_ring (append_byte q b st fed ab)"
  by (auto simp: kq_ring_def kq_geom_def append_byte_def Let_def)

text \<open>What \<open>push_byte\<close> has established when it gets to append the byte.\<close>

lemma kq_inv_append_byte:
  assumes ring: "kq_ring q"
    and state: "kq_inside q \<longleftrightarrow> ks_state (kq_keys q) \<noteq> Ground"
    and kept: "\<not> kq_dropping q"
    and fed: "kq_inside q \<longleftrightarrow> fed = Fed_Pending"
    and full: "kq_len q = QUEUE_LEN \<Longrightarrow> kq_partial q = 0 \<and> \<not> kq_inside q"
    and first: "kq_len q = 0 \<Longrightarrow> \<not> st \<Longrightarrow> (\<forall>c. fed \<noteq> Fed_Byte c) \<Longrightarrow> kq_taken_mid q"
    and front: "kq_items q \<noteq> [] \<Longrightarrow> \<not> snd (hd (kq_items q)) \<Longrightarrow> kq_taken_mid q"
  shows "kq_inv (append_byte q b st fed ab)"
proof (cases "kq_len q = QUEUE_LEN")
  case True
  then show ?thesis
    using assms by (auto simp: append_byte_def kq_inv_def)
next
  case False
  then have lt: "kq_len q < QUEUE_LEN" using ring by (simp add: kq_ring_def kq_geom_def)
  have geom: "kq_geom q" using ring by (simp add: kq_ring_def)
  have part: "0 < kq_partial (append_byte q b st fed ab) \<longleftrightarrow> kq_inside q"
    using False fed by (auto simp: append_byte_def Let_def)
  show ?thesis
    unfolding kq_inv_def
    using part state kept first front kq_ring_append_byte [OF ring, of b st fed ab]
    by (cases "kq_len q = 0")
       (auto simp: kq_items_append_byte [OF geom lt] hd_append simp flip: length_0_conv)
qed

text \<open>What holds of the queue once a byte went through the parser, before room is made.\<close>

definition noted :: "keyqueue \<Rightarrow> fed \<Rightarrow> bool \<Rightarrow> bool \<Rightarrow> bool" where
  "noted q fed starts abandons \<longleftrightarrow> kq_ring q \<and>
     (kq_inside q \<longleftrightarrow> ks_state (kq_keys q) \<noteq> Ground) \<and>
     (kq_inside q \<longleftrightarrow> fed = Fed_Pending) \<and>
     (kq_dropping q \<longrightarrow> kq_partial q = 0) \<and>
     (abandons \<longrightarrow> \<not> kq_dropping q \<and> starts) \<and>
     (\<not> starts \<and> \<not> kq_dropping q \<and> (\<forall>c. fed \<noteq> Fed_Byte c) \<and> kq_len q = 0 \<longrightarrow> kq_taken_mid q) \<and>
     (kq_items q \<noteq> [] \<and> \<not> snd (hd (kq_items q)) \<longrightarrow> kq_taken_mid q)"

lemma noted_note_byte:
  assumes "kq_inv q0" and n: "note_byte q0 b u now = (q, fed, starts, abandons)"
  shows "noted q fed starts abandons"
proof -
  define q1 where "q1 = expire q0 now"
  have inv: "kq_inv q1" using assms by (simp add: q1_def kq_inv_expire)
  obtain ks fd where f: "feed (kq_keys q1) b = (ks, fd)" by fastforce
  have p: "fd = Fed_Pending \<longleftrightarrow> ks_state ks \<noteq> Ground"
    using feed_pending_iff [of "kq_keys q1" b] f by simp
  note eq = n [unfolded note_byte_def Let_def q1_def [symmetric] f prod.case, symmetric]
  show ?thesis
    using inv p eq by (cases fd) (auto simp: noted_def kq_inv_def kq_ring_def kq_geom_def)
qed

text \<open>Taking the bytes of the key in progress back out of a full queue.\<close>

definition take_back :: "keyqueue \<Rightarrow> keyqueue" where
  "take_back q = q\<lparr>kq_len := kq_len q - min (kq_partial q) (kq_len q), kq_partial := 0\<rparr>"

lemma take_back_fields [simp]:
  "kq_keys (take_back q) = kq_keys q" "kq_inside (take_back q) = kq_inside q"
  "kq_dropping (take_back q) = kq_dropping q" "kq_taken_mid (take_back q) = kq_taken_mid q"
  "kq_partial (take_back q) = 0" "kq_len (take_back q) = kq_len q - min (kq_partial q) (kq_len q)"
  by (simp_all add: take_back_def)

lemma kq_ring_take_back: "kq_ring q \<Longrightarrow> kq_ring (take_back q)"
  by (auto simp: kq_ring_def kq_geom_def take_back_def)

lemma kq_items_take_back:
  "kq_items (take_back q) = take (kq_len q - min (kq_partial q) (kq_len q)) (kq_items q)"
  unfolding take_back_def kq_items_updates(5) by (rule kq_items_shorten) simp

lemma take_back_front:
  assumes "noted q fed st ab" "kq_items (take_back q) \<noteq> []" "\<not> snd (hd (kq_items (take_back q)))"
  shows "kq_taken_mid q"
proof -
  have "hd (kq_items (take_back q)) = hd (kq_items q)"
    using assms(2) unfolding kq_items_take_back by (intro hd_take) auto
  moreover have "kq_items q \<noteq> []" using assms(2) by (auto simp: kq_items_take_back)
  ultimately show ?thesis using assms(1,3) unfolding noted_def by metis
qed

lemma push_byte_cases:
  assumes n: "note_byte q0 b u now = (q, fed, st, ab)"
  shows "push_byte q0 b u now =
    (if kq_dropping q then
       (case fed of Fed_Pending \<Rightarrow> q | Fed_Sequence \<Rightarrow> q\<lparr>kq_dropping := False\<rparr>
        | Fed_Byte _ \<Rightarrow> append_byte (q\<lparr>kq_dropping := False\<rparr>) b st fed ab)
     else if kq_len q = QUEUE_LEN then
       (case fed of
          Fed_Pending \<Rightarrow> if ab \<and> kq_len (take_back q) < QUEUE_LEN
            then append_byte (take_back q) b st fed ab else (take_back q)\<lparr>kq_dropping := True\<rparr>
        | Fed_Sequence \<Rightarrow> take_back q
        | Fed_Byte _ \<Rightarrow> append_byte (take_back q) b st fed ab)
     else append_byte q b st fed ab)"
  unfolding push_byte_def n Let_def prod.case take_back_def by simp

lemma kq_inv_push_byte:
  assumes "kq_inv q0"
  shows "kq_inv (push_byte q0 b u now)"
proof -
  obtain q fed st ab where n: "note_byte q0 b u now = (q, fed, st, ab)"
    by (cases "note_byte q0 b u now")
  note nt = noted_note_byte [OF assms n]
  note front = take_back_front [OF nt]
  have full: "kq_inv (take_back q)" if "\<not> kq_inside q" "\<not> kq_dropping q"
    using that nt front kq_ring_take_back unfolding noted_def kq_inv_def by auto
  have drop: "kq_inv ((take_back q)\<lparr>kq_dropping := True\<rparr>)" if "kq_inside q"
    using that nt front kq_ring_take_back [of q] unfolding noted_def kq_inv_def
    by (simp add: kq_ring_def kq_geom_def)
  have app: "kq_inv (append_byte (take_back q) b st fed ab)"
    if "\<not> kq_dropping q" "st \<or> (\<exists>c. fed = Fed_Byte c)"
      "kq_inside q \<Longrightarrow> kq_len (take_back q) < QUEUE_LEN"
    using that nt front kq_ring_take_back unfolding noted_def
    by (intro kq_inv_append_byte) auto
  have rest: "kq_inv (append_byte q b st fed ab)" if "\<not> kq_dropping q" "kq_len q \<noteq> QUEUE_LEN"
    using that nt unfolding noted_def by (intro kq_inv_append_byte) auto
  have cont: "kq_inv (append_byte (q\<lparr>kq_dropping := False\<rparr>) b st fed ab)"
    if "kq_dropping q" "fed = Fed_Byte c" for c
    using that nt unfolding noted_def by (intro kq_inv_append_byte) (auto simp: kq_ring_def kq_geom_def)
  have stay: "kq_inv q" if "kq_dropping q" "fed = Fed_Pending"
    using that nt unfolding noted_def kq_inv_def by auto
  have stop: "kq_inv (q\<lparr>kq_dropping := False\<rparr>)" if "kq_dropping q" "fed = Fed_Sequence"
    using that nt unfolding noted_def kq_inv_def by (auto simp: kq_ring_def kq_geom_def)
  show ?thesis
    unfolding push_byte_cases [OF n]
    using full drop app rest cont stay stop nt
    by (cases fed) (auto simp: noted_def simp del: take_back_fields)
qed

lemma kq_inv_push: "kq_inv q \<Longrightarrow> kq_inv (kq_push q b from now)"
  by (simp add: kq_push_def Let_def kq_inv_push_byte kq_inv_end_key)

lemma kq_inv_flush:
  assumes "kq_inv q" and "\<And>b. i = Some b \<Longrightarrow> b \<noteq> ESC \<and> (b < 0x20 \<or> b = DEL)"
  shows "kq_inv (kq_flush q i)"
  using assms
  by (cases i) (auto simp: kq_flush_def kq_inv_def kq_ring_def kq_geom_def feed_control keyseq_new_def
      QUEUE_LEN_def)

lemma trim_loop_spec:
  assumes "kq_geom q"
  shows "kq_items (trim_loop q) = dropWhile (\<lambda>x. \<not> snd x) (kq_items q)" (is ?items)
    and "kq_geom (trim_loop q)" (is ?geom)
    and "\<exists>h l. trim_loop q = q\<lparr>kq_head := h, kq_len := l\<rparr>" (is ?same)
proof -
  have "?items \<and> ?geom \<and> ?same"
    using assms
  proof (induction q rule: trim_loop.induct)
    case (1 q)
    show ?case
    proof (cases "0 < kq_len q \<and> \<not> kq_starts q ! kq_head q")
      case True
      let ?q = "q\<lparr>kq_head := (kq_head q + 1) mod QUEUE_LEN, kq_len := kq_len q - 1\<rparr>"
      have g: "kq_geom ?q" using 1(2) by (auto simp: kq_geom_def QUEUE_LEN_def)
      have "kq_items q = hd (kq_items q) # kq_items ?q"
        using 1(2) True by (metis kq_items_advance kq_items_empty_iff list.collapse less_irrefl)
      moreover have "\<not> snd (hd (kq_items q))" using 1(2) True by (simp add: kq_items_hd)
      ultimately have "dropWhile (\<lambda>x. \<not> snd x) (kq_items q) =
          dropWhile (\<lambda>x. \<not> snd x) (kq_items ?q)"
        by (metis dropWhile.simps(2))
      moreover have "trim_loop q = trim_loop ?q" using True by (subst trim_loop.simps) simp
      ultimately show ?thesis using 1(1) [OF True g] by auto
    next
      case False
      have "dropWhile (\<lambda>x. \<not> snd x) (kq_items q) = kq_items q"
      proof (cases "kq_items q")
        case (Cons x xs)
        then have "0 < kq_len q" by (metis length_kq_items length_greater_0_conv list.discI)
        then show ?thesis using kq_items_hd [OF 1(2)] Cons False by simp
      qed (metis dropWhile.simps(1))
      moreover have "trim_loop q = q" using False by (subst trim_loop.simps) auto
      moreover have "q = q\<lparr>kq_head := kq_head q, kq_len := kq_len q\<rparr>" by simp
      ultimately show ?thesis using 1(2) by metis
    qed
  qed
  then show ?items ?geom ?same by auto
qed

lemma kq_items_trim:
  assumes "kq_inv q"
  shows "kq_items (trim_cut_key q now) =
    (if kq_taken_mid (expire q now) then dropWhile (\<lambda>x. \<not> snd x) (kq_items q) else kq_items q)"
proof -
  have "kq_geom (expire q now)" using kq_inv_expire [OF assms] by (simp add: kq_inv_def kq_ring_def)
  then show ?thesis by (simp add: trim_cut_key_def Let_def trim_loop_spec(1))
qed

lemma trim_not_mid: "\<not> kq_taken_mid (trim_cut_key q now)"
  by (simp add: trim_cut_key_def Let_def)

lemma kq_inv_trim:
  assumes "kq_inv q"
  shows "kq_inv (trim_cut_key q now)"
proof (cases "kq_taken_mid (expire q now)")
  case False
  then show ?thesis using assms by (simp add: trim_cut_key_def kq_inv_expire Let_def)
next
  case True
  define q1 where "q1 = expire q now"
  have inv: "kq_inv q1" using assms by (simp add: q1_def kq_inv_expire)
  then have g: "kq_geom q1" by (simp add: kq_inv_def kq_ring_def)
  obtain h l where t: "trim_loop q1 = q1\<lparr>kq_head := h, kq_len := l\<rparr>"
    using trim_loop_spec(3) [OF g] by blast
  have its: "kq_items (trim_loop q1) = dropWhile (\<lambda>x. \<not> snd x) (kq_items q1)"
    by (rule trim_loop_spec(1) [OF g])
  have "kq_len (trim_loop q1) \<le> kq_len q1"
    using length_dropWhile_le by (metis its length_kq_items)
  then have le: "l \<le> kq_len q1" by (simp add: t)
  have "kq_items (trim_loop q1) \<noteq> [] \<Longrightarrow> snd (hd (kq_items (trim_loop q1)))"
    using hd_dropWhile [of "\<lambda>x. \<not> snd x" "kq_items q1"] by (metis its)
  moreover have "kq_geom (trim_loop q1)" by (rule trim_loop_spec(2) [OF g])
  moreover define r where "r = trim_cut_key q now"
  have "kq_len r = l" "kq_inside r = kq_inside q1" "kq_keys r = kq_keys q1"
    "kq_partial r = min (kq_partial q1) l" "\<not> kq_taken_mid r"
    "kq_dropping r \<longleftrightarrow> kq_dropping q1 \<or> (l = 0 \<and> kq_inside q1)"
    "kq_items r = kq_items (trim_loop q1)" "kq_geom r \<longleftrightarrow> kq_geom (trim_loop q1)"
    using True by (simp_all add: r_def trim_cut_key_def Let_def q1_def [symmetric] t kq_geom_def)
  ultimately have "kq_inv r"
    using inv le by (auto simp: kq_inv_def kq_ring_def min_def)
  then show ?thesis by (simp add: r_def)
qed

lemma kq_inv_pop:
  assumes "kq_inv q"
  shows "kq_inv (snd (kq_pop q))"
proof (cases "kq_len q = 0")
  case True
  then show ?thesis using assms by (simp add: kq_pop_def)
next
  case False
  let ?q = "q\<lparr>kq_head := (kq_head q + 1) mod QUEUE_LEN, kq_len := kq_len q - 1\<rparr>"
  have g: "kq_geom q" using assms by (simp add: kq_inv_def kq_ring_def)
  then have g': "kq_geom ?q" by (auto simp: kq_geom_def QUEUE_LEN_def)
  have "0 < kq_len ?q \<Longrightarrow> hd (kq_items ?q) = (kq_buf ?q ! kq_head ?q, kq_starts ?q ! kq_head ?q)"
    by (rule kq_items_hd [OF g'])
  moreover define r where "r = snd (kq_pop q)"
  have "kq_len r = kq_len q - 1" "kq_inside r = kq_inside q" "kq_keys r = kq_keys q"
    "kq_partial r = min (kq_partial q) (kq_len q - 1)" "kq_dropping r = kq_dropping q"
    "kq_taken_mid r =
      (if 0 < kq_len q - 1 then \<not> kq_starts ?q ! kq_head ?q else kq_len q \<le> kq_partial q)"
    "kq_items r = kq_items ?q" "kq_geom r \<longleftrightarrow> kq_geom ?q"
    using False by (simp_all add: r_def kq_pop_def Let_def kq_geom_def)
  ultimately have "kq_inv r"
    using assms g' False by (auto simp: kq_inv_def kq_ring_def min_def)
  then show ?thesis by (simp add: r_def)
qed

section \<open>What a reader sees\<close>

lemma kq_bytes_pop:
  assumes "kq_inv q" "kq_bytes q = x # xs"
  shows "\<exists>q'. kq_pop q = (Some x, q') \<and> kq_inv q' \<and> kq_bytes q' = xs"
proof -
  have g: "kq_geom q" using assms(1) by (simp add: kq_inv_def kq_ring_def)
  have l: "0 < kq_len q" using assms(2) by (metis gr0I kq_bytes_def kq_items_empty_iff list.distinct(1) list.map_disc_iff)
  have "x = kq_buf q ! kq_head q"
    using kq_items_hd [OF g l] assms(2) by (cases "kq_items q") (auto simp: kq_bytes_def)
  moreover have "kq_bytes (snd (kq_pop q)) = xs"
    using kq_items_advance [OF g l] assms(2) l
    by (simp add: kq_pop_def Let_def kq_bytes_def map_tl)
  ultimately show ?thesis
    using kq_inv_pop [OF assms(1)] l by (auto simp: kq_pop_def Let_def)
qed

interpretation kbd: fifo_reader kq_inv kq_bytes kq_pop
proof
  show "kq_pop s = (None, s)" if "kq_inv s" "kq_bytes s = []" for s
    using that by (simp add: kq_pop_def kq_bytes_def)
qed (rule kq_bytes_pop)

section \<open>Keys are queued whole or not at all\<close>

definition push_key :: "keyqueue \<Rightarrow> key \<times> u64 \<Rightarrow> keyqueue" where
  "push_key q kt = foldl (\<lambda>q b. kq_push q b Serial (snd kt)) q (key_bytes (fst kt))"

text \<open>The specification: a key is kept exactly when all of its bytes fit.\<close>

primrec keep_whole :: "u8 list list \<Rightarrow> u8 list \<Rightarrow> u8 list" where
  "keep_whole [] acc = acc"
| "keep_whole (k # ks) acc =
     keep_whole ks (if length acc + length k \<le> QUEUE_LEN then acc @ k else acc)"

text \<open>The queue inside a key whose bytes \<open>p\<close> were pushed at time \<open>t\<close> onto \<open>base\<close>.\<close>

definition mid_key :: "u64 \<Rightarrow> u8 list \<Rightarrow> u8 list \<Rightarrow> kstate \<Rightarrow> keyqueue \<Rightarrow> bool" where
  "mid_key t base p st q \<longleftrightarrow> kq_inv q \<and> kq_keys q = \<lparr>ks_state = st\<rparr> \<and> kq_inside q \<and>
     kq_fed_at q = t \<and>
     (if kq_dropping q then kq_bytes q = base \<and> QUEUE_LEN < length base + length p
      else kq_bytes q = base @ p \<and> kq_partial q = length p)"

definition between_keys :: "keyqueue \<Rightarrow> bool" where
  "between_keys q \<longleftrightarrow> kq_inv q \<and> \<not> kq_inside q"

lemma expire_same: "kq_fed_at q = t \<or> \<not> kq_inside q \<Longrightarrow> expire q t = q"
  by (auto simp: expire_def saturating_sub_def Let_def)

lemma kq_push_serial: "kq_push q b Serial t = push_byte q b False t"
  by (simp add: kq_push_def Let_def)

lemma kq_bytes_length [simp]: "length (kq_bytes q) = kq_len q"
  by (simp add: kq_bytes_def)

lemma kq_bytes_append:
  "kq_geom q \<Longrightarrow> kq_len q < QUEUE_LEN \<Longrightarrow> kq_bytes (append_byte q b st fed ab) = kq_bytes q @ [b]"
  by (simp add: kq_bytes_def kq_items_append_byte)

lemma kq_bytes_take_back:
  "kq_bytes (take_back q) = take (kq_len q - min (kq_partial q) (kq_len q)) (kq_bytes q)"
  by (simp add: kq_bytes_def kq_items_take_back take_map)

lemma kq_bytes_updates [simp]:
  "kq_bytes (q\<lparr>kq_keys := ks\<rparr>) = kq_bytes q"
  "kq_bytes (q\<lparr>kq_inside := i\<rparr>) = kq_bytes q"
  "kq_bytes (q\<lparr>kq_inside_usb := u\<rparr>) = kq_bytes q"
  "kq_bytes (q\<lparr>kq_fed_at := t\<rparr>) = kq_bytes q"
  "kq_bytes (q\<lparr>kq_partial := n\<rparr>) = kq_bytes q"
  "kq_bytes (q\<lparr>kq_dropping := d\<rparr>) = kq_bytes q"
  by (simp_all add: kq_bytes_def)

lemma between_keys_ground:
  "between_keys q \<Longrightarrow> kq_keys q = keyseq_new \<and> \<not> kq_dropping q \<and> kq_partial q = 0"
  by (cases "kq_keys q") (auto simp: between_keys_def kq_inv_def keyseq_new_def)

lemma kq_inv_geom: "kq_inv q \<Longrightarrow> kq_geom q \<and> kq_len q \<le> QUEUE_LEN \<and> kq_partial q \<le> kq_len q"
  by (simp add: kq_inv_def kq_ring_def kq_geom_def)

lemma append_byte_full: "kq_len q = QUEUE_LEN \<Longrightarrow> append_byte q b st fed ab = q"
  by (simp add: append_byte_def)

lemma append_byte_partial:
  "kq_len q \<noteq> QUEUE_LEN \<Longrightarrow> kq_partial (append_byte q b st Fed_Pending False) = kq_partial q + 1"
  by (simp add: append_byte_def Let_def)

lemma append_byte_fed_at [simp]: "kq_fed_at (append_byte q b st fed ab) = kq_fed_at q"
  by (simp add: append_byte_def Let_def)

lemmas push_shape = kq_push_serial kq_bytes_append append_byte_full append_byte_partial

text \<open>The four kinds of byte: a key of its own, the first byte, a further byte, the last byte.\<close>

lemma push_plain:
  assumes q: "between_keys q" and b: "b \<noteq> ESC"
  shows "between_keys (kq_push q b Serial t) \<and>
    kq_bytes (kq_push q b Serial t) =
      (if kq_len q + 1 \<le> QUEUE_LEN then kq_bytes q @ [b] else kq_bytes q)"
proof -
  have e: "expire q t = q" using q by (simp add: expire_same between_keys_def)
  note g = between_keys_ground [OF q]
  have i: "kq_inv q" "\<not> kq_inside q" using q by (simp_all add: between_keys_def)
  obtain q1 where n: "note_byte q b False t = (q1, Fed_Byte b, True, False)"
    and f: "\<not> kq_dropping q1" "kq_len q1 = kq_len q" "kq_bytes q1 = kq_bytes q" "\<not> kq_inside q1"
      "kq_partial q1 = 0" "kq_geom q1 \<longleftrightarrow> kq_geom q"
    using g i b by (simp add: note_byte_def Let_def e feed_ground keyseq_new_def kq_geom_def)
  have "take_back q1 = q1" using f by (simp add: take_back_def)
  then have "push_byte q b False t = append_byte q1 b True (Fed_Byte b) False"
    using f by (simp add: push_byte_cases [OF n])
  then show ?thesis
    using f kq_inv_geom [OF i(1)] kq_inv_push_byte [OF i(1), of b False t]
    by (cases "kq_len q = QUEUE_LEN") (auto simp: push_shape between_keys_def)
qed

lemma push_first:
  assumes q: "between_keys q"
  shows "mid_key t (kq_bytes q) [ESC] Esc (kq_push q ESC Serial t)"
proof -
  have e: "expire q t = q" using q by (simp add: expire_same between_keys_def)
  note g = between_keys_ground [OF q]
  have i: "kq_inv q" "\<not> kq_inside q" using q by (simp_all add: between_keys_def)
  obtain q1 where n: "note_byte q ESC False t = (q1, Fed_Pending, True, False)"
    and f: "\<not> kq_dropping q1" "kq_len q1 = kq_len q" "kq_bytes q1 = kq_bytes q" "kq_inside q1"
      "kq_partial q1 = 0" "kq_geom q1 \<longleftrightarrow> kq_geom q" "kq_keys q1 = \<lparr>ks_state = Esc\<rparr>" "kq_fed_at q1 = t"
    using g i by (simp add: note_byte_def Let_def e feed_esc kq_geom_def)
  have "take_back q1 = q1" using f by (simp add: take_back_def)
  then have "push_byte q ESC False t =
      (if kq_len q = QUEUE_LEN then q1\<lparr>kq_dropping := True\<rparr>
       else append_byte q1 ESC True Fed_Pending False)"
    using f by (simp add: push_byte_cases [OF n])
  then show ?thesis
    using f kq_inv_geom [OF i(1)] kq_inv_push_byte [OF i(1), of ESC False t]
    by (cases "kq_len q = QUEUE_LEN") (auto simp: push_shape mid_key_def)
qed

lemma mid_key_note:
  assumes q: "mid_key t base p st q" and b: "b \<noteq> ESC" and ndrop: "\<not> kq_dropping q"
    and f: "feed \<lparr>ks_state = st\<rparr> b = (ks, fed)" and nb: "\<And>c. fed \<noteq> Fed_Byte c"
  obtains q1 where "note_byte q b False t = (q1, fed, False, False)"
    "\<not> kq_dropping q1" "kq_len q1 = kq_len q" "kq_bytes q1 = base @ p"
    "kq_inside q1 \<longleftrightarrow> fed = Fed_Pending" "kq_partial q1 = length p" "kq_geom q1"
    "kq_keys q1 = ks" "kq_fed_at q1 = t" "kq_bytes (take_back q1) = base"
    "kq_len q = length base + length p"
proof -
  have e: "expire q t = q" using q by (simp add: expire_same mid_key_def)
  have l: "kq_len q = length base + length p"
    using q ndrop by (metis kq_bytes_length length_append mid_key_def)
  obtain q1 where q1: "note_byte q b False t = (q1, fed, False, False)"
    "\<not> kq_dropping q1" "kq_len q1 = kq_len q" "kq_bytes q1 = base @ p"
    "kq_inside q1 \<longleftrightarrow> fed = Fed_Pending" "kq_partial q1 = length p" "kq_geom q1"
    "kq_keys q1 = ks" "kq_fed_at q1 = t"
    using q f b nb ndrop kq_inv_geom [of q]
    by (cases fed) (auto simp: note_byte_def Let_def e mid_key_def kq_geom_def)
  moreover have "kq_bytes (take_back q1) = base"
    using q1 l by (simp add: kq_bytes_take_back)
  ultimately show thesis using that l by blast
qed

lemma mid_key_note_drop:
  assumes q: "mid_key t base p st q" and b: "b \<noteq> ESC" and drop: "kq_dropping q"
    and f: "feed \<lparr>ks_state = st\<rparr> b = (ks, fed)" and nb: "\<And>c. fed \<noteq> Fed_Byte c"
  obtains q1 where "note_byte q b False t = (q1, fed, False, False)"
    "kq_dropping q1" "kq_bytes q1 = base" "kq_inside q1 \<longleftrightarrow> fed = Fed_Pending"
    "kq_keys q1 = ks" "kq_fed_at q1 = t" "QUEUE_LEN < length base + length p"
proof -
  have e: "expire q t = q" using q by (simp add: expire_same mid_key_def)
  show thesis
    using q f b nb drop that
    by (cases fed) (auto simp: note_byte_def Let_def e mid_key_def)
qed

lemma push_further:
  assumes q: "mid_key t base p st q" and b: "b \<noteq> ESC"
    and f: "feed \<lparr>ks_state = st\<rparr> b = (\<lparr>ks_state = st'\<rparr>, Fed_Pending)"
  shows "mid_key t base (p @ [b]) st' (kq_push q b Serial t)"
proof (cases "kq_dropping q")
  case True
  obtain q1 where n: "note_byte q b False t = (q1, Fed_Pending, False, False)"
    "kq_dropping q1" "kq_bytes q1 = base" "kq_inside q1" "kq_keys q1 = \<lparr>ks_state = st'\<rparr>"
    "kq_fed_at q1 = t" "QUEUE_LEN < length base + length p"
    using mid_key_note_drop [OF q b True f] by auto
  have "kq_inv (push_byte q b False t)" using q by (simp add: mid_key_def kq_inv_push_byte)
  then show ?thesis using n by (auto simp: mid_key_def kq_push_serial push_byte_cases [OF n(1)])
next
  case False
  obtain q1 where n: "note_byte q b False t = (q1, Fed_Pending, False, False)"
    "\<not> kq_dropping q1" "kq_len q1 = kq_len q" "kq_bytes q1 = base @ p" "kq_inside q1"
    "kq_partial q1 = length p" "kq_geom q1" "kq_keys q1 = \<lparr>ks_state = st'\<rparr>" "kq_fed_at q1 = t"
    "kq_bytes (take_back q1) = base" "kq_len q = length base + length p"
    using mid_key_note [OF q b False f] by auto
  have "kq_fed_at (take_back q1) = t" using n by (simp add: take_back_def)
  moreover have "kq_inv (push_byte q b False t)" using q by (simp add: mid_key_def kq_inv_push_byte)
  moreover have "kq_len q \<le> QUEUE_LEN" using q kq_inv_geom by (simp add: mid_key_def)
  ultimately show ?thesis
    using n by (cases "kq_len q = QUEUE_LEN") (auto simp: mid_key_def push_byte_cases push_shape)
qed

lemma push_last:
  assumes q: "mid_key t base p st q" and b: "b \<noteq> ESC"
    and f: "feed \<lparr>ks_state = st\<rparr> b = (keyseq_new, Fed_Sequence)"
  shows "between_keys (kq_push q b Serial t) \<and>
    kq_bytes (kq_push q b Serial t) =
      (if length base + length (p @ [b]) \<le> QUEUE_LEN then base @ p @ [b] else base)"
proof (cases "kq_dropping q")
  case True
  obtain q1 where "note_byte q b False t = (q1, Fed_Sequence, False, False)"
    "kq_dropping q1" "kq_bytes q1 = base" "\<not> kq_inside q1" "QUEUE_LEN < length base + length p"
    using mid_key_note_drop [OF q b True f] by auto
  moreover have "kq_inv (push_byte q b False t)" using q by (simp add: mid_key_def kq_inv_push_byte)
  ultimately show ?thesis by (auto simp: between_keys_def kq_push_serial push_byte_cases)
next
  case False
  obtain q1 where n: "note_byte q b False t = (q1, Fed_Sequence, False, False)"
    "\<not> kq_dropping q1" "kq_len q1 = kq_len q" "kq_bytes q1 = base @ p" "\<not> kq_inside q1"
    "kq_geom q1" "kq_bytes (take_back q1) = base" "kq_len q = length base + length p"
    using mid_key_note [OF q b False f] by auto
  have "kq_inv (push_byte q b False t)" using q by (simp add: mid_key_def kq_inv_push_byte)
  moreover have "kq_len q \<le> QUEUE_LEN" using q kq_inv_geom by (simp add: mid_key_def)
  ultimately show ?thesis
    using n by (cases "kq_len q = QUEUE_LEN") (auto simp: between_keys_def push_byte_cases push_shape)
qed

lemma push_params:
  assumes "mid_key t base p Csi q" "\<forall>x\<in>set ps. csi_param x"
  shows "mid_key t base (p @ ps) Csi (foldl (\<lambda>q b. kq_push q b Serial t) q ps)"
  using assms
proof (induction ps arbitrary: p q)
  case (Cons x ps)
  have "mid_key t base (p @ [x]) Csi (kq_push q x Serial t)"
    using Cons.prems by (intro push_further) (auto simp: csi_param_not_esc feed_csi_param)
  then show ?case using Cons.IH [of "p @ [x]"] Cons.prems by simp
qed simp

lemma push_key_whole:
  assumes q: "between_keys q" and k: "key_ok k"
  shows "between_keys (push_key q (k, t)) \<and> kq_bytes (push_key q (k, t)) =
    (if kq_len q + length (key_bytes k) \<le> QUEUE_LEN then kq_bytes q @ key_bytes k else kq_bytes q)"
proof (cases k)
  case (Plain b)
  then show ?thesis using push_plain [OF q] k by (simp add: push_key_def)
next
  case (Csi_Key ps f)
  let ?q1 = "kq_push (kq_push q ESC Serial t) 0x5b Serial t"
  let ?q2 = "foldl (\<lambda>q b. kq_push q b Serial t) ?q1 ps"
  have "mid_key t (kq_bytes q) ([ESC] @ [0x5b]) Csi ?q1"
    by (rule push_further [OF push_first [OF q] _ feed_bracket]) (simp add: ESC_def)
  then have m: "mid_key t (kq_bytes q) (([ESC] @ [0x5b]) @ ps) Csi ?q2"
    using k Csi_Key by (intro push_params) auto
  have "f \<noteq> ESC" using k Csi_Key by (auto simp: ESC_def)
  from push_last [OF m this feed_csi_final] show ?thesis
    using k Csi_Key by (simp add: push_key_def)
next
  case (Ss3_Key b)
  let ?q1 = "kq_push (kq_push q ESC Serial t) 0x4f Serial t"
  have m: "mid_key t (kq_bytes q) ([ESC] @ [0x4f]) Ss3 ?q1"
    by (rule push_further [OF push_first [OF q] _ feed_letter_O]) (simp add: ESC_def)
  have "b \<noteq> ESC" using k Ss3_Key by (auto simp: ESC_def)
  from push_last [OF m this feed_ss3] show ?thesis
    using k Ss3_Key by (simp add: push_key_def)
qed



section \<open>Every history of the queue\<close>

datatype kq_op = Op_Push u8 source u64 | Op_Flush "u8 option" | Op_Trim u64 | Op_Pop
  | Op_Inside_Usb u64 | Op_Inside_Serial u64

fun kq_apply :: "keyqueue \<Rightarrow> kq_op \<Rightarrow> keyqueue" where
  "kq_apply q (Op_Push b from now) = kq_push q b from now"
| "kq_apply q (Op_Flush i) = kq_flush q i"
| "kq_apply q (Op_Trim now) = trim_cut_key q now"
| "kq_apply q Op_Pop = snd (kq_pop q)"
| "kq_apply q (Op_Inside_Usb now) = snd (inside_usb_key q now)"
| "kq_apply q (Op_Inside_Serial now) = snd (inside_serial_key q now)"

text \<open>The kernel flushes on an interrupt key, a control byte, or on request.\<close>

fun kq_op_ok :: "kq_op \<Rightarrow> bool" where
  "kq_op_ok (Op_Flush (Some b)) \<longleftrightarrow> b \<noteq> ESC \<and> (b < 0x20 \<or> b = DEL)"
| "kq_op_ok _ \<longleftrightarrow> True"

definition kq_run :: "keyqueue \<Rightarrow> kq_op list \<Rightarrow> keyqueue" where
  "kq_run = foldl kq_apply"

lemma kq_inv_apply: "kq_inv q \<Longrightarrow> kq_op_ok opn \<Longrightarrow> kq_inv (kq_apply q opn)"
  by (cases opn rule: kq_op_ok.cases)
     (auto simp: kq_inv_push kq_inv_trim kq_inv_pop inside_usb_key_def inside_serial_key_def
        kq_inv_expire Let_def intro!: kq_inv_flush)

lemma kq_inv_run: "kq_inv q \<Longrightarrow> \<forall>opn\<in>set ops. kq_op_ok opn \<Longrightarrow> kq_inv (kq_run q ops)"
  unfolding kq_run_def by (induction ops arbitrary: q) (simp_all add: kq_inv_apply)



lemma push_taken_mid:
  assumes "kq_taken_mid (kq_push q b from now)"
  shows "kq_taken_mid q"
proof -
  have ex: "kq_taken_mid (expire q now) \<Longrightarrow> kq_taken_mid q"
    by (auto simp: expire_def end_key_def Let_def split: if_splits)
  obtain u where "kq_taken_mid (push_byte q b u now)"
    using assms by (auto simp: kq_push_def end_key_def Let_def split: if_splits)
  moreover obtain q1 fed st ab where n: "note_byte q b u now = (q1, fed, st, ab)"
    by (cases "note_byte q b u now")
  ultimately have "kq_taken_mid q1"
    by (auto simp: push_byte_cases [OF n] split: fed.splits if_splits)
  moreover have "kq_taken_mid q1 = kq_taken_mid (expire q now)"
    using n by (auto simp: note_byte_def Let_def split: prod.splits)
  ultimately show ?thesis using ex by simp
qed

definition push_all :: "keyqueue \<Rightarrow> (u8 \<times> source \<times> u64) list \<Rightarrow> keyqueue" where
  "push_all = foldl (\<lambda>q (b, from, t). kq_push q b from t)"

lemma push_all_whole:
  "kq_inv q \<Longrightarrow> \<not> kq_taken_mid q \<Longrightarrow> kq_inv (push_all q evs) \<and> \<not> kq_taken_mid (push_all q evs)"
proof (induction evs arbitrary: q)
  case (Cons e evs)
  obtain b src t where e: "e = (b, src, t)" by (cases e)
  have "kq_inv (kq_push q b src t)" "\<not> kq_taken_mid (kq_push q b src t)"
    using Cons.prems kq_inv_push push_taken_mid by blast+
  from Cons.IH [OF this] show ?case by (simp add: push_all_def e)
qed (simp add: push_all_def)

text \<open>(C13) When the keyboard changes hands, \<open>trim_cut_key\<close> removes exactly the queued rest of the key
  a reader took part of and keeps every key behind it; and whatever arrives afterwards, the first
  byte the new owner reads starts a key, never the tail of a cut one.\<close>

theorem trim_hands_over_whole_keys:
  assumes "\<forall>opn\<in>set ops. kq_op_ok opn" and "q = kq_run (keyqueue_new e u) ops"
  shows "kq_items (trim_cut_key q now) =
      (if kq_taken_mid (expire q now) then dropWhile (\<lambda>x. \<not> snd x) (kq_items q) else kq_items q) \<and>
    (kq_items (push_all (trim_cut_key q now) evs) = [] \<or>
     snd (hd (kq_items (push_all (trim_cut_key q now) evs))))"
proof -
  have i: "kq_inv q" using assms by (simp add: kq_inv_run kq_inv_new)
  then have "kq_inv (push_all (trim_cut_key q now) evs) \<and>
      \<not> kq_taken_mid (push_all (trim_cut_key q now) evs)"
    by (intro push_all_whole) (simp_all add: kq_inv_trim trim_not_mid)
  then show ?thesis using kq_items_trim [OF i] unfolding kq_inv_def by blast
qed

theorem trim_hands_over_whole_keys_witness:
  "kq_items (trim_cut_key (kq_run (keyqueue_new 2 50)
      [Op_Push 0x1b Serial 1, Op_Push 0x5b Serial 1, Op_Push 0x41 Serial 1,
       Op_Push 0x61 Serial 1, Op_Pop]) 2) = [(0x61, True)]"
proof -
  let ?ops = "[Op_Push 0x1b Serial 1, Op_Push 0x5b Serial 1, Op_Push 0x41 Serial 1,
    Op_Push 0x61 Serial 1, Op_Pop]"
  let ?q = "kq_run (keyqueue_new 2 50) ?ops"
  have "kq_taken_mid (expire ?q 2)" by code_simp
  moreover have "kq_items ?q = [(0x5b, False), (0x41, False), (0x61, True)]" by code_simp
  ultimately show ?thesis
    using trim_hands_over_whole_keys [of ?ops ?q 2 50 2 "[]"] by simp
qed

end
