(* ===== verification/Kernel_State.thy ===== *)
theory Kernel_State
  imports Key_Queue
begin

text \<open>
  The kernel's per-task tables (\<open>src/kernel/src/tasks.rs\<close>) as one record, with the
  questions asked of them: slots and occupants, packed identities, liveness, the
  static capabilities and the send rights. Every table is a function of the slot; the
  code indexes them below \<open>NUM_TASKS\<close> only. The tables are read and written under the
  kernel lock, so an operation is a function from states to states; the core it
  runs on is an argument.
\<close>

section \<open>Constants\<close>

definition NUM_TASKS :: nat where "NUM_TASKS = 11"
definition FIRST_SPAWNABLE :: nat where "FIRST_SPAWNABLE = 6"
definition FIRST :: nat where "FIRST = 0"
definition IDLE :: nat where "IDLE = 1"
definition FSD_TASK :: nat where "FSD_TASK = 2"
definition CON_TASK :: nat where "CON_TASK = 3"
definition NET_TASK :: nat where "NET_TASK = 4"
definition ACCT_TASK :: nat where "ACCT_TASK = 5"
definition MAX_CORES :: nat where "MAX_CORES = 16"
definition MSG_MAX :: nat where "MSG_MAX = 768"
definition MSG_QUEUE_DEPTH :: nat where "MSG_QUEUE_DEPTH = 4"
definition MAX_SUPP_GROUPS :: nat where "MAX_SUPP_GROUPS = 8"
definition KERNEL_SENDER :: nat where "KERNEL_SENDER = 0xFE"
definition SLOT_ALIGN :: nat where "SLOT_ALIGN = 0x200000"
definition SPAWN_STAGING_SIZE :: nat where "SPAWN_STAGING_SIZE = 1024 * 1024"
definition ARGV_MAX :: nat where "ARGV_MAX = 512"
definition ENV_MAX :: nat where "ENV_MAX = 2048"
definition CWD_MAX :: nat where "CWD_MAX = 128"
definition NS_MAX :: nat where "NS_MAX = 256"

definition TASK_KILLED_STATUS :: u64 where "TASK_KILLED_STATUS = 0x100"
definition SPAWN_ERROR :: u64 where "SPAWN_ERROR = - 1"
definition SET_ID_DENIED :: u64 where "SET_ID_DENIED = - 1"
definition SPAWN_ERR_BAD_ELF :: u64 where "SPAWN_ERR_BAD_ELF = - 12"
definition SPAWN_ERR_TOO_LARGE :: u64 where "SPAWN_ERR_TOO_LARGE = - 13"
definition SPAWN_ERR_NO_FREE_SLOT :: u64 where "SPAWN_ERR_NO_FREE_SLOT = - 14"
definition TASK_ERR_NO_SUCH_TASK :: u64 where "TASK_ERR_NO_SUCH_TASK = - 15"
definition TASK_ERR_PROTECTED :: u64 where "TASK_ERR_PROTECTED = - 16"
definition WAIT_INTERRUPTED :: u64 where "WAIT_INTERRUPTED = - 17"
definition RECV_INTERRUPTED :: u64 where "RECV_INTERRUPTED = - 20"
definition MSG_ERR_FULL :: u64 where "MSG_ERR_FULL = - 21"
definition MSG_ERR_TOO_BIG :: u64 where "MSG_ERR_TOO_BIG = - 22"
definition NO_MSG :: u64 where "NO_MSG = - 23"
definition GRANT_ERR :: u64 where "GRANT_ERR = - 27"
definition SAFECOPY_ERR :: u64 where "SAFECOPY_ERR = - 28"
definition MSG_ERR_DENIED :: u64 where "MSG_ERR_DENIED = - 29"
definition SPAWN_ERR_IMAGE_TOO_LARGE :: u64 where "SPAWN_ERR_IMAGE_TOO_LARGE = - 42"
definition TASK_ERR_SELF :: u64 where "TASK_ERR_SELF = - 43"
definition REPLY_STALE :: u64 where "REPLY_STALE = - 44"
definition SPAWN_ERR_STAGING_BUSY :: u64 where "SPAWN_ERR_STAGING_BUSY = - 45"
definition GRANT_READ :: u64 where "GRANT_READ = 1"
definition GRANT_WRITE :: u64 where "GRANT_WRITE = 2"

section \<open>Data\<close>

datatype wait_reason =
    Wait_Keyboard
  | Wait_Key u64
  | Wait_Sleep u64
  | Wait_TaskExit nat
  | Wait_Message u64 u64 "nat option"
  | Wait_NetInput u64

datatype task_state = Unused | Runnable | Blocked wait_reason | Zombie u64

record cpu_context =
  cx_gpr :: "nat \<Rightarrow> u64"
  cx_sp_el0 :: u64
  cx_elr_el1 :: u64
  cx_spsr_el1 :: u64
  cx_fpsimd :: "nat \<Rightarrow> 128 word"
  cx_fpcr :: u64
  cx_fpsr :: u64

definition context_zeroed :: cpu_context where
  "context_zeroed =
     \<lparr>cx_gpr = (\<lambda>_. 0), cx_sp_el0 = 0, cx_elr_el1 = 0, cx_spsr_el1 = 0, cx_fpsimd = (\<lambda>_. 0),
      cx_fpcr = 0, cx_fpsr = 0\<rparr>"

text \<open>A credential: the packed \<open>(gid << 32) | uid\<close>, the sender's packed task identity, the call the
  message opens, and the supplementary groups.\<close>

record cred =
  cr_id :: u64
  cr_task :: u64
  cr_call :: u64
  cr_groups :: "u32 list"
  cr_n_groups :: nat
  cr_present :: bool

definition cred_none :: cred where
  "cred_none = \<lparr>cr_id = 0, cr_task = 0, cr_call = 0, cr_groups = replicate MAX_SUPP_GROUPS 0,
     cr_n_groups = 0, cr_present = False\<rparr>"

record message =
  ms_sender :: u8
  ms_len :: u16
  ms_cred :: cred
  ms_data :: "u8 list"

record mailbox =
  mb_msgs :: "message list"
  mb_head :: nat
  mb_count :: nat

definition mailbox_new :: mailbox where
  "mailbox_new =
     \<lparr>mb_msgs = replicate MSG_QUEUE_DEPTH
        \<lparr>ms_sender = 0, ms_len = 0, ms_cred = cred_none, ms_data = replicate MSG_MAX 0\<rparr>,
      mb_head = 0, mb_count = 0\<rparr>"

record grant =
  gr_grantee :: nat
  gr_ptr :: u64
  gr_len :: u64
  gr_dir :: u64
  gr_active :: bool

text \<open>The spawn staging of \<open>src/kernel/src/syscall.rs\<close>: its owner, the latches and the buffers.\<close>

record staging =
  sg_stager :: u64
  sg_env_len :: nat
  sg_image_end :: nat
  sg_argv_len :: nat
  sg_cwd_len :: nat
  sg_image :: "u8 list"
  sg_args :: "u8 list"
  sg_cwd :: "u8 list"
  sg_env :: "u8 list"

text \<open>The last five fields are what the operations read of the machine: the tick counter and the
  clock at the entry, the answers the two keyboards give to the polls to come (an exhausted list
  answers nothing), and whether a network frame is in.\<close>

record kernel =
  k_states :: "nat \<Rightarrow> task_state"
  k_tasks :: "nat \<Rightarrow> cpu_context"
  k_regions :: "nat \<Rightarrow> u64 \<times> u64"
  k_current :: "nat \<Rightarrow> nat"
  k_round :: "nat \<Rightarrow> nat"
  k_boot_core :: nat
  k_secondaries :: "nat \<Rightarrow> bool"
  k_idle_base :: u64
  k_region_top :: u64
  k_input_owner :: nat
  k_prev_owners :: "nat \<Rightarrow> u64"
  k_fg_command :: "nat \<Rightarrow> bool"
  k_pending_kill :: u64
  k_kbd_raw :: "nat \<Rightarrow> bool"
  k_kbd :: keyqueue
  k_calls :: "nat \<Rightarrow> u64"
  k_next_call :: u64
  k_gens :: "nat \<Rightarrow> u64"
  k_next_gen :: u64
  k_mail :: "nat \<Rightarrow> mailbox"
  k_argv :: "nat \<Rightarrow> u8 list"
  k_env :: "nat \<Rightarrow> u8 list"
  k_cwd :: "nat \<Rightarrow> u8 list"
  k_ns :: "nat \<Rightarrow> u8 list"
  k_stdout :: "nat \<Rightarrow> u64"
  k_ids :: "nat \<Rightarrow> u64"
  k_saved_ids :: "nat \<Rightarrow> u64"
  k_groups :: "nat \<Rightarrow> u32 list"
  k_group_counts :: "nat \<Rightarrow> nat"
  k_creds :: "nat \<Rightarrow> cred"
  k_delegated :: "nat \<Rightarrow> u64"
  k_parents :: "nat \<Rightarrow> u64"
  k_grants :: "nat \<Rightarrow> grant"
  k_doomed :: "nat \<Rightarrow> u64"
  k_staging :: staging
  k_mem :: "u64 \<Rightarrow> u8"
  k_ticks :: u64
  k_now_us :: u64
  k_serial :: "u8 option list"
  k_usb :: "(u8 \<times> bool) option list"
  k_net_frame :: bool

text \<open>The tables as they are before the first task is installed.\<close>

definition kernel_new :: kernel where
  "kernel_new =
     \<lparr>k_states = (\<lambda>i. if i < 2 then Runnable else Unused),
      k_tasks = (\<lambda>_. context_zeroed), k_regions = (\<lambda>_. (0, 0)),
      k_current = (\<lambda>c. if c = 0 then FIRST else IDLE), k_round = (\<lambda>_. 0),
      k_boot_core = 0, k_secondaries = (\<lambda>_. False), k_idle_base = 0, k_region_top = 0, k_input_owner = 0,
      k_prev_owners = (\<lambda>_. 0), k_fg_command = (\<lambda>_. False), k_pending_kill = 0,
      k_kbd_raw = (\<lambda>_. False), k_kbd = keyqueue_new 2 50, k_calls = (\<lambda>_. 0), k_next_call = 1,
      k_gens = (\<lambda>_. 0), k_next_gen = 1, k_mail = (\<lambda>_. mailbox_new), k_argv = (\<lambda>_. []),
      k_env = (\<lambda>_. []), k_cwd = (\<lambda>_. []), k_ns = (\<lambda>_. []),
      k_stdout = (\<lambda>_. of_nat CON_TASK), k_ids = (\<lambda>_. 0), k_saved_ids = (\<lambda>_. 0),
      k_groups = (\<lambda>_. replicate MAX_SUPP_GROUPS 0), k_group_counts = (\<lambda>_. 0),
      k_creds = (\<lambda>_. cred_none), k_delegated = (\<lambda>_. 0), k_parents = (\<lambda>_. 0),
      k_grants = (\<lambda>_. \<lparr>gr_grantee = 0, gr_ptr = 0, gr_len = 0, gr_dir = 0, gr_active = False\<rparr>),
      k_doomed = (\<lambda>_. 0),
      k_staging = \<lparr>sg_stager = 0, sg_env_len = 0, sg_image_end = 0, sg_argv_len = 0, sg_cwd_len = 0,
        sg_image = replicate SPAWN_STAGING_SIZE 0, sg_args = replicate ARGV_MAX 0,
        sg_cwd = replicate CWD_MAX 0, sg_env = replicate ENV_MAX 0\<rparr>,
      k_mem = (\<lambda>_. 0), k_ticks = 0, k_now_us = 0, k_serial = [], k_usb = [], k_net_frame = False\<rparr>"

section \<open>Slots, occupants and identities\<close>

text \<open>A caller-supplied slot, checked; and the next slot in the round.\<close>

definition task_index :: "nat \<Rightarrow> nat option" where
  "task_index i = (if i < NUM_TASKS then Some i else None)"

definition succ_slot :: "nat \<Rightarrow> nat" where
  "succ_slot i = (i + 1) mod NUM_TASKS"

definition is_spawnable :: "nat \<Rightarrow> bool" where
  "is_spawnable i \<longleftrightarrow> i \<ge> FIRST_SPAWNABLE"

definition running_core :: "kernel \<Rightarrow> nat \<Rightarrow> nat option" where
  "running_core k slot =
     (if slot = IDLE then None
      else List.find (\<lambda>c. k_current k c = slot) [0..<MAX_CORES])"

definition is_boot_or_idle :: "nat \<Rightarrow> bool" where
  "is_boot_or_idle slot \<longleftrightarrow> slot = FIRST \<or> slot = IDLE"

text \<open>A number above the slot's eight bits: a generation, or a call's number.\<close>

definition pack_slot :: "u64 \<Rightarrow> nat \<Rightarrow> u64" where
  "pack_slot n slot = push_bit 8 n OR of_nat slot"

definition task_id_slot :: "u64 \<Rightarrow> nat" where
  "task_id_slot ident = unat (ident AND (push_bit 8 1 - 1))"

definition task_id_of :: "kernel \<Rightarrow> nat \<Rightarrow> u64 option" where
  "task_id_of k slot =
     (if slot \<ge> NUM_TASKS \<or> k_states k slot = Unused then None
      else Some (pack_slot (k_gens k slot) slot))"

definition issue_generation :: "nat \<Rightarrow> kernel \<Rightarrow> kernel" where
  "issue_generation slot k =
     k\<lparr>k_next_gen := k_next_gen k + 1, k_gens := (k_gens k)(slot := k_next_gen k)\<rparr>"

definition occupant_is :: "kernel \<Rightarrow> nat \<Rightarrow> u64 \<Rightarrow> bool" where
  "occupant_is k slot ident \<longleftrightarrow> task_id_of k slot = Some ident"

definition is_occupied :: "kernel \<Rightarrow> nat \<Rightarrow> bool" where
  "is_occupied k t = (case k_states k t of Runnable \<Rightarrow> True | Blocked _ \<Rightarrow> True | _ \<Rightarrow> False)"

definition live_index :: "kernel \<Rightarrow> nat \<Rightarrow> nat option" where
  "live_index k i = (case task_index i of None \<Rightarrow> None | Some t \<Rightarrow> if is_occupied k t then Some t else None)"

definition live_occupant :: "kernel \<Rightarrow> u64 \<Rightarrow> nat option" where
  "live_occupant k ident =
     (case live_index k (task_id_slot ident) of
        None \<Rightarrow> None | Some t \<Rightarrow> if occupant_is k t ident then Some t else None)"

definition task_region :: "kernel \<Rightarrow> nat \<Rightarrow> u64 \<times> u64" where
  "task_region k i = k_regions k i"

definition task_state_code :: "kernel \<Rightarrow> nat \<Rightarrow> u64" where
  "task_state_code k i =
     (case k_states k i of Unused \<Rightarrow> 0 | Runnable \<Rightarrow> 1 | Blocked _ \<Rightarrow> 2 | Zombie _ \<Rightarrow> 3)"

definition try_reap :: "nat \<Rightarrow> kernel \<Rightarrow> u64 option \<times> kernel" where
  "try_reap target k =
     (case k_states k target of
        Zombie status \<Rightarrow> (Some status, k\<lparr>k_states := (k_states k)(target := Unused)\<rparr>)
      | _ \<Rightarrow> (None, k))"

definition zombie_status :: "kernel \<Rightarrow> nat \<Rightarrow> u64 option" where
  "zombie_status k target = (case k_states k target of Zombie status \<Rightarrow> Some status | _ \<Rightarrow> None)"

text \<open>\<open>set_parent\<close> records an identity, not a slot.\<close>

definition set_parent :: "nat \<Rightarrow> nat \<Rightarrow> kernel \<Rightarrow> kernel" where
  "set_parent child spawner k =
     k\<lparr>k_parents := (k_parents k)(child := (case task_id_of k spawner of Some i \<Rightarrow> i | None \<Rightarrow> 0))\<rparr>"

definition clear_parent :: "nat \<Rightarrow> kernel \<Rightarrow> kernel" where
  "clear_parent slot k = k\<lparr>k_parents := (k_parents k)(slot := 0)\<rparr>"

definition is_child_of :: "kernel \<Rightarrow> nat \<Rightarrow> nat \<Rightarrow> bool" where
  "is_child_of k child parent \<longleftrightarrow> child < NUM_TASKS \<and> occupant_is k parent (k_parents k child)"

section \<open>Memory\<close>

definition mem_read :: "(u64 \<Rightarrow> u8) \<Rightarrow> u64 \<Rightarrow> nat \<Rightarrow> u8 list" where
  "mem_read m a n = map (\<lambda>i. m (a + of_nat i)) [0..<n]"

primrec mem_write :: "(u64 \<Rightarrow> u8) \<Rightarrow> u64 \<Rightarrow> u8 list \<Rightarrow> u64 \<Rightarrow> u8" where
  "mem_write m a [] = m"
| "mem_write m a (b # bs) = mem_write (m(a := b)) (a + 1) bs"

lemma unat_diff_Suc:
  fixes a x :: u64
  assumes "x \<noteq> a"
  shows "unat (x - a) = Suc (unat (x - (a + 1)))"
proof -
  have "x - a \<noteq> 0" using assms by simp
  moreover have "unat (x - a) \<noteq> 0" using assms by (simp add: unat_eq_0)
  ultimately have "unat (x - a) = Suc (unat (x - a - 1))" using unat_minus_one [of "x - a"] by linarith
  then show ?thesis by (simp only: diff_diff_eq)
qed

lemma unat_u64_less: "unat (n :: u64) < 2 ^ 64"
  using unsigned_less [of n] by simp

lemma mem_write_at:
  assumes "length bs \<le> 2 ^ 64"
  shows "mem_write m a bs x = (if unat (x - a) < length bs then bs ! unat (x - a) else m x)"
  using assms
proof (induction bs arbitrary: m a)
  case Nil
  then show ?case by simp
next
  case (Cons b bs)
  show ?case
  proof (cases "x = a")
    case True
    then have "x - (a + 1) = - 1" by simp
    then have "unat (x - (a + 1)) = 2 ^ 64 - 1" by (simp add: unsigned_minus_1_eq_mask mask_eq_exp_minus_1)
    then show ?thesis using Cons True by simp
  next
    case False
    then show ?thesis using Cons unat_diff_Suc [OF False] by simp
  qed
qed

lemma mem_read_write:
  assumes "length bs \<le> 2 ^ 64"
  shows "mem_read (mem_write m a bs) a (length bs) = bs"
proof (rule nth_equalityI)
  show "length (mem_read (mem_write m a bs) a (length bs)) = length bs" by (simp add: mem_read_def)
  fix i assume "i < length (mem_read (mem_write m a bs) a (length bs))"
  then have i: "i < length bs" by (simp add: mem_read_def)
  moreover have "unat (of_nat i :: u64) = i"
    using i assms by (simp add: unat_of_nat)
  ultimately show "mem_read (mem_write m a bs) a (length bs) ! i = bs ! i"
    using assms by (simp add: mem_read_def mem_write_at)
qed

lemma unat_diff_range:
  fixes a x :: u64
  assumes "unat a + n \<le> 2 ^ 64" "unat (x - a) < n"
  shows "unat a \<le> unat x \<and> unat x < unat a + n"
proof -
  have "unat x = (unat a + unat (x - a)) mod 2 ^ 64"
    using unat_word_ariths(1) [of a "x - a"] by simp
  then show ?thesis using assms by simp
qed

lemma mem_write_outside:
  assumes "unat a + length bs \<le> 2 ^ 64" "mem_write m a bs x \<noteq> m x"
  shows "unat a \<le> unat x \<and> unat x < unat a + length bs"
  using assms unat_diff_range [of a "length bs" x] mem_write_at [of bs m a x]
  by (auto split: if_splits)

section \<open>Packed identities\<close>

lemma and_push_bit_1: "(w :: 'a::len word) AND push_bit n 1 \<noteq> 0 \<longleftrightarrow> bit w n"
proof (cases "n < LENGTH('a)")
  case True
  have "w AND push_bit n 1 = (if bit w n then push_bit n 1 else 0)"
    by (rule bit_word_eqI) (auto simp: bit_simps)
  moreover have "push_bit n (1 :: 'a word) \<noteq> 0" using True by (metis bit_0_eq bit_push_bit_iff bit_1_iff bot_apply bot_bool_def diff_self_eq_0 le_refl possible_bit_word)
  ultimately show ?thesis by simp
next
  case False
  then show ?thesis using bit_imp_le_length by (auto intro!: bit_word_eqI simp: bit_simps)
qed

lemma push_bit_8_mult: "push_bit 8 (n :: u64) = n * 256"
  by (simp add: push_bit_eq_mult)

lemma pack_slot_unat:
  assumes "unat n < 2 ^ 56" "slot < 256"
  shows "unat (pack_slot n slot) = unat n * 256 + slot"
proof -
  have s: "unat (of_nat slot :: u64) = slot" using assms(2) by (simp add: unat_of_nat)
  have p: "unat (push_bit 8 n) = unat n * 256"
    using assms(1) by (simp add: push_bit_8_mult unat_word_ariths)
  have "push_bit 8 n AND of_nat slot = 0"
  proof (rule bit_word_eqI)
    fix i
    have "bit (of_nat slot :: u64) i \<Longrightarrow> i < 8"
    proof -
      assume b: "bit (of_nat slot :: u64) i"
      have "(of_nat slot :: u64) = take_bit 8 (of_nat slot)"
        using s assms(2) by (simp add: word_unat_eq_iff unsigned_take_bit_eq take_bit_nat_eq_self)
      with b show "i < 8" by (metis bit_take_bit_iff)
    qed
    then show "bit (push_bit 8 n AND of_nat slot) i = bit (0 :: u64) i"
      by (auto simp: bit_and_iff bit_push_bit_iff)
  qed
  then have "pack_slot n slot = push_bit 8 n + of_nat slot"
    by (simp add: pack_slot_def disjunctive_add_eq_or)
  then show ?thesis using p s assms by (simp add: unat_word_ariths)
qed

lemma task_id_slot_take_bit: "task_id_slot w = unat (take_bit 8 w)"
  by (simp add: task_id_slot_def take_bit_eq_mask mask_eq_decr_exp push_bit_eq_mult)

lemma task_id_slot_pack [simp]:
  assumes "slot < 256"
  shows "task_id_slot (pack_slot n slot) = slot"
proof -
  have "unat (of_nat slot :: u64) = slot" using assms by (simp add: unat_of_nat)
  moreover have "take_bit 8 (pack_slot n slot) = take_bit 8 (of_nat slot :: u64)"
    by (rule bit_word_eqI) (auto simp: pack_slot_def bit_simps)
  ultimately show ?thesis
    using assms by (simp add: task_id_slot_take_bit unsigned_take_bit_eq take_bit_nat_eq_self)
qed

lemma drop_bit_pack_slot:
  assumes "unat n < 2 ^ 56" "slot < 256"
  shows "drop_bit 8 (pack_slot n slot) = n"
  using pack_slot_unat [OF assms] assms
  by (simp add: word_unat_eq_iff drop_bit_eq_div unat_div)

lemma pack_slot_inject:
  assumes "unat n < 2 ^ 56" "unat m < 2 ^ 56" "i < 256" "j < 256"
  shows "pack_slot n i = pack_slot m j \<longleftrightarrow> n = m \<and> i = j"
  using assms by (metis drop_bit_pack_slot task_id_slot_pack)

lemma slot_below_256 [simp]: "i < NUM_TASKS \<Longrightarrow> i < 256"
  by (simp add: NUM_TASKS_def)

section \<open>Liveness\<close>

lemma is_occupied_not_Unused: "is_occupied k t \<Longrightarrow> k_states k t \<noteq> Unused"
  by (auto simp: is_occupied_def)

lemma live_index_iff [simp]: "live_index k i = Some t \<longleftrightarrow> t = i \<and> i < NUM_TASKS \<and> is_occupied k i"
  by (auto simp: live_index_def task_index_def)

lemma task_id_of_Some:
  "task_id_of k slot = Some ident \<longleftrightarrow>
     slot < NUM_TASKS \<and> k_states k slot \<noteq> Unused \<and> ident = pack_slot (k_gens k slot) slot"
  by (auto simp: task_id_of_def)

lemma task_id_of_None: "task_id_of k slot = None \<longleftrightarrow> NUM_TASKS \<le> slot \<or> k_states k slot = Unused"
  by (auto simp: task_id_of_def)

text \<open>An identity names a live task exactly when that task is the one the identity was issued to.\<close>

lemma live_occupant_iff:
  "live_occupant k ident = Some t \<longleftrightarrow>
     t < NUM_TASKS \<and> is_occupied k t \<and> ident = pack_slot (k_gens k t) t"
proof
  assume "live_occupant k ident = Some t"
  then have "live_index k (task_id_slot ident) = Some t" "occupant_is k t ident"
    by (auto simp: live_occupant_def split: option.splits if_splits)
  then show "t < NUM_TASKS \<and> is_occupied k t \<and> ident = pack_slot (k_gens k t) t"
    by (simp add: occupant_is_def task_id_of_Some)
next
  assume t: "t < NUM_TASKS \<and> is_occupied k t \<and> ident = pack_slot (k_gens k t) t"
  then have "live_index k (task_id_slot ident) = Some t" by simp
  then show "live_occupant k ident = Some t"
    using t by (simp add: live_occupant_def occupant_is_def task_id_of_Some is_occupied_not_Unused del: live_index_iff)
qed

end
