(* ===== verification/Kernel_Ipc.thy ===== *)
theory Kernel_Ipc
  imports Kernel_State
begin

text \<open>
  Messages, calls and rights of \<open>src/kernel/src/tasks.rs\<close>: the static send masks and the runtime
  delegations, the credentials captured with a message, the four-deep mailboxes, the calls in
  progress and the replies they take, and the memory a caller grants to the server it called.
\<close>

section \<open>Send rights\<close>

definition CAP_BLOCK :: u32 where "CAP_BLOCK = push_bit 16 1"
definition CAP_CON :: u32 where "CAP_CON = push_bit 17 1"
definition CAP_NET :: u32 where "CAP_NET = push_bit 18 1"
definition TO_SHELL :: u32 where "TO_SHELL = push_bit 0 1"
definition TO_FSD :: u32 where "TO_FSD = push_bit FSD_TASK 1"
definition TO_CON :: u32 where "TO_CON = push_bit CON_TASK 1"
definition TO_NET :: u32 where "TO_NET = push_bit NET_TASK 1"
definition TO_ACCT :: u32 where "TO_ACCT = push_bit ACCT_TASK 1"

definition TO_SPAWNABLE :: u32 where
  "TO_SPAWNABLE = (push_bit NUM_TASKS 1 - 1) AND NOT (push_bit FIRST_SPAWNABLE 1 - 1)"

definition caps_for_slot :: "nat \<Rightarrow> u32" where
  "caps_for_slot slot =
     (if slot = 0 then TO_FSD OR TO_CON OR TO_NET OR TO_ACCT OR TO_SPAWNABLE
      else if slot = 1 then 0
      else if slot = FSD_TASK then TO_CON OR CAP_BLOCK
      else if slot = CON_TASK then CAP_CON
      else if slot = NET_TASK then TO_FSD OR TO_CON OR CAP_NET
      else if slot = ACCT_TASK then TO_FSD OR TO_CON
      else TO_SHELL OR TO_FSD OR TO_CON OR TO_ACCT)"

definition cap_has :: "nat \<Rightarrow> u32 \<Rightarrow> bool" where
  "cap_has slot cap \<longleftrightarrow> caps_for_slot slot AND cap \<noteq> 0"

definition holds_send_right :: "kernel \<Rightarrow> nat \<Rightarrow> nat \<Rightarrow> bool" where
  "holds_send_right k src dest \<longleftrightarrow>
     dest < NUM_TASKS \<and>
     (caps_for_slot src AND push_bit dest 1 \<noteq> 0 \<or> k_delegated k src AND push_bit dest 1 \<noteq> 0)"

definition may_send :: "kernel \<Rightarrow> nat \<Rightarrow> nat \<Rightarrow> bool" where
  "may_send k src dest = (if dest \<ge> NUM_TASKS then False else holds_send_right k src dest)"

definition may_grant :: "kernel \<Rightarrow> nat \<Rightarrow> nat \<Rightarrow> bool" where
  "may_grant k delegator target = holds_send_right k delegator target"

definition may_delegate :: "kernel \<Rightarrow> nat \<Rightarrow> nat \<Rightarrow> nat \<Rightarrow> bool" where
  "may_delegate k delegator grantee target \<longleftrightarrow> is_child_of k grantee delegator \<and> may_grant k delegator target"

definition set_delegate :: "nat \<Rightarrow> nat \<Rightarrow> kernel \<Rightarrow> kernel" where
  "set_delegate grantee target k =
     k\<lparr>k_delegated := (k_delegated k)(grantee := k_delegated k grantee OR push_bit target 1)\<rparr>"

definition clear_delegations_of :: "nat \<Rightarrow> kernel \<Rightarrow> kernel" where
  "clear_delegations_of task k = k\<lparr>k_delegated := (k_delegated k)(task := 0)\<rparr>"

definition clear_delegations_at :: "nat \<Rightarrow> kernel \<Rightarrow> kernel" where
  "clear_delegations_at slot k =
     k\<lparr>k_delegated := (\<lambda>i. if i < NUM_TASKS then k_delegated k i AND NOT (push_bit slot 1) else k_delegated k i)\<rparr>"

section \<open>Identities and credentials\<close>

definition set_groups :: "nat \<Rightarrow> u32 list \<Rightarrow> kernel \<Rightarrow> kernel" where
  "set_groups task gids k =
     (let n = min (length gids) MAX_SUPP_GROUPS in
      k\<lparr>k_groups := (k_groups k)(task := take n gids @ drop n (k_groups k task)),
        k_group_counts := (k_group_counts k)(task := n)\<rparr>)"

definition groups_of :: "kernel \<Rightarrow> nat \<Rightarrow> u32 list \<Rightarrow> nat \<times> u32 list" where
  "groups_of k task out =
     (let n = k_group_counts k task; copy = min n (length out) in
      (n, take copy (k_groups k task) @ drop copy out))"

definition uid_of :: "kernel \<Rightarrow> nat \<Rightarrow> u32" where "uid_of k task = ucast (k_ids k task)"
definition id_of :: "kernel \<Rightarrow> nat \<Rightarrow> u64" where "id_of k task = k_ids k task"
definition saved_id_of :: "kernel \<Rightarrow> nat \<Rightarrow> u64" where "saved_id_of k task = k_saved_ids k task"

definition apply_id :: "nat \<Rightarrow> u64 \<Rightarrow> kernel \<Rightarrow> kernel" where
  "apply_id task new k =
     k\<lparr>k_saved_ids := (k_saved_ids k)(task := k_ids k task), k_ids := (k_ids k)(task := new)\<rparr>"

definition inherit_id :: "nat \<Rightarrow> nat \<Rightarrow> kernel \<Rightarrow> kernel" where
  "inherit_id child parent k =
     (let cur = k_ids k parent; n = k_group_counts k parent; live = min n MAX_SUPP_GROUPS in
      k\<lparr>k_ids := (k_ids k)(child := cur), k_saved_ids := (k_saved_ids k)(child := cur),
        k_groups := (k_groups k)(child := take live (k_groups k parent) @ drop live (k_groups k child)),
        k_group_counts := (k_group_counts k)(child := n)\<rparr>)"

definition reset_id :: "nat \<Rightarrow> kernel \<Rightarrow> kernel" where
  "reset_id task k =
     k\<lparr>k_ids := (k_ids k)(task := 0), k_saved_ids := (k_saved_ids k)(task := 0),
       k_group_counts := (k_group_counts k)(task := 0)\<rparr>"

definition cred_of :: "kernel \<Rightarrow> nat \<Rightarrow> cred" where
  "cred_of k task =
     (if task \<ge> NUM_TASKS then cred_none
      else case groups_of k task (replicate MAX_SUPP_GROUPS 0) of (n, groups) \<Rightarrow>
        \<lparr>cr_id = id_of k task, cr_task = (case task_id_of k task of Some i \<Rightarrow> i | None \<Rightarrow> 0), cr_call = 0,
         cr_groups = groups, cr_n_groups = min n MAX_SUPP_GROUPS, cr_present = True\<rparr>)"

definition record_sender_cred :: "nat \<Rightarrow> cred \<Rightarrow> kernel \<Rightarrow> kernel" where
  "record_sender_cred dest c k = k\<lparr>k_creds := (k_creds k)(dest := c)\<rparr>"

definition clear_sender_cred :: "nat \<Rightarrow> kernel \<Rightarrow> kernel" where
  "clear_sender_cred task k = k\<lparr>k_creds := (k_creds k)(task := cred_none)\<rparr>"

definition sender_id_of :: "kernel \<Rightarrow> nat \<Rightarrow> u64 option" where
  "sender_id_of k task = (if cr_present (k_creds k task) then Some (cr_id (k_creds k task)) else None)"

definition sender_task_of :: "kernel \<Rightarrow> nat \<Rightarrow> u64 option" where
  "sender_task_of k task =
     (if cr_present (k_creds k task) \<and> cr_task (k_creds k task) \<noteq> 0
      then Some (cr_task (k_creds k task)) else None)"

definition sender_call_of :: "kernel \<Rightarrow> nat \<Rightarrow> u64 option" where
  "sender_call_of k task = (if cr_call (k_creds k task) \<noteq> 0 then Some (cr_call (k_creds k task)) else None)"

definition sender_groups_of :: "kernel \<Rightarrow> nat \<Rightarrow> u32 list \<Rightarrow> (nat \<times> u32 list) option" where
  "sender_groups_of k task out =
     (let c = k_creds k task in
      if \<not> cr_present c then None
      else let n = cr_n_groups c; copy = min n (length out) in
           Some (n, take copy (cr_groups c) @ drop copy out))"

section \<open>Calls in progress\<close>

definition begin_call :: "nat \<Rightarrow> kernel \<Rightarrow> u64 \<times> kernel" where
  "begin_call task k =
     (let n = k_next_call k in
      (pack_slot n task, k\<lparr>k_next_call := n + 1, k_calls := (k_calls k)(task := n)\<rparr>))"

definition end_call :: "nat \<Rightarrow> kernel \<Rightarrow> kernel" where
  "end_call task k = k\<lparr>k_calls := (k_calls k)(task := 0)\<rparr>"

definition waits_for_reply :: "task_state \<Rightarrow> nat \<Rightarrow> bool" where
  "waits_for_reply st server =
     (case st of Blocked (Wait_Message _ _ (Some f)) \<Rightarrow> f = server | _ \<Rightarrow> False)"

definition reply_target :: "kernel \<Rightarrow> nat \<Rightarrow> u64 \<Rightarrow> nat option" where
  "reply_target k server handle =
     (let slot = unat (handle AND (push_bit 8 1 - 1)); n = drop_bit 8 handle in
      if slot \<ge> NUM_TASKS \<or> n = 0 \<or> k_calls k slot \<noteq> n then None
      else if waits_for_reply (k_states k slot) server then Some slot else None)"

section \<open>Mailboxes\<close>

definition set_x0 :: "nat \<Rightarrow> u64 \<Rightarrow> kernel \<Rightarrow> kernel" where
  "set_x0 task v k =
     k\<lparr>k_tasks := (k_tasks k)(task := (k_tasks k task)\<lparr>cx_gpr := (cx_gpr (k_tasks k task))(0 := v)\<rparr>)\<rparr>"

definition set_state :: "nat \<Rightarrow> task_state \<Rightarrow> kernel \<Rightarrow> kernel" where
  "set_state task st k = k\<lparr>k_states := (k_states k)(task := st)\<rparr>"

definition store_bytes :: "u64 \<Rightarrow> u8 list \<Rightarrow> kernel \<Rightarrow> kernel" where
  "store_bytes a bs k = k\<lparr>k_mem := mem_write (k_mem k) a bs\<rparr>"

definition pack_received :: "nat \<Rightarrow> nat \<Rightarrow> u64" where
  "pack_received sender n = push_bit 32 (of_nat sender) OR of_nat n"

definition mb_push :: "message \<Rightarrow> mailbox \<Rightarrow> mailbox" where
  "mb_push m mb =
     (let slot = (mb_head mb + mb_count mb) mod MSG_QUEUE_DEPTH in
      mb\<lparr>mb_msgs := (mb_msgs mb)[slot := m\<lparr>ms_data := ms_data m @ drop (length (ms_data m)) (ms_data (mb_msgs mb ! slot))\<rparr>],
         mb_count := mb_count mb + 1\<rparr>)"

definition mb_pop :: "mailbox \<Rightarrow> message option \<times> mailbox" where
  "mb_pop mb =
     (if mb_count mb = 0 then (None, mb)
      else (Some (mb_msgs mb ! mb_head mb),
            mb\<lparr>mb_head := (mb_head mb + 1) mod MSG_QUEUE_DEPTH, mb_count := mb_count mb - 1\<rparr>))"

definition receives :: "task_state \<Rightarrow> (u64 \<times> u64) option" where
  "receives st = (case st of Blocked (Wait_Message buf n None) \<Rightarrow> Some (buf, n) | _ \<Rightarrow> None)"

definition send_message :: "nat \<Rightarrow> nat \<Rightarrow> u8 list \<Rightarrow> u64 \<Rightarrow> kernel \<Rightarrow> u64 \<times> kernel" where
  "send_message sender dest data call k =
     (if length data > MSG_MAX then (MSG_ERR_TOO_BIG, k)
      else case receives (k_states k dest) of
        Some (buf, n) \<Rightarrow>
          (let copy_len = min (length data) (unat n);
               k1 = set_x0 dest (pack_received sender copy_len) (store_bytes buf (take copy_len data) k)
           in (0, set_state dest Runnable
                 (record_sender_cred dest ((cred_of k1 sender)\<lparr>cr_call := call\<rparr>) k1)))
      | None \<Rightarrow>
          (if mb_count (k_mail k dest) \<ge> MSG_QUEUE_DEPTH then (MSG_ERR_FULL, k)
           else let msg = \<lparr>ms_sender = of_nat sender, ms_len = of_nat (length data),
                    ms_cred = (cred_of k sender)\<lparr>cr_call := call\<rparr>, ms_data = data\<rparr>;
                  k1 = k\<lparr>k_mail := (k_mail k)(dest := mb_push msg (k_mail k dest))\<rparr>
                in (0, case k_states k dest of
                      Blocked (Wait_NetInput _) \<Rightarrow> set_state dest Runnable k1 | _ \<Rightarrow> k1)))"

definition try_recv_message :: "nat \<Rightarrow> u64 \<Rightarrow> u64 \<Rightarrow> kernel \<Rightarrow> u64 option \<times> kernel" where
  "try_recv_message task buf buf_len k =
     (case mb_pop (k_mail k task) of
        (None, _) \<Rightarrow> (None, k)
      | (Some msg, mb) \<Rightarrow>
          (let copy_len = unat (min (ucast (ms_len msg)) buf_len) in
           (Some (pack_received (unat (ms_sender msg)) copy_len),
            record_sender_cred task (ms_cred msg)
              (store_bytes buf (take copy_len (ms_data msg))
                (k\<lparr>k_mail := (k_mail k)(task := mb)\<rparr>)))))"

definition deliver_reply :: "nat \<Rightarrow> nat \<Rightarrow> u8 list \<Rightarrow> kernel \<Rightarrow> kernel" where
  "deliver_reply server dest data k =
     (case k_states k dest of
        Blocked (Wait_Message buf n (Some _)) \<Rightarrow>
          (let copy_len = min (length data) (unat n) in
           set_state dest Runnable (end_call dest
             (set_x0 dest (pack_received server copy_len) (store_bytes buf (take copy_len data) k))))
      | _ \<Rightarrow> k)"

definition clear_mailbox :: "nat \<Rightarrow> kernel \<Rightarrow> kernel" where
  "clear_mailbox task k =
     k\<lparr>k_mail := (k_mail k)(task := (k_mail k task)\<lparr>mb_head := 0, mb_count := 0\<rparr>)\<rparr>"

definition has_queued_message :: "kernel \<Rightarrow> nat \<Rightarrow> bool" where
  "has_queued_message k task \<longleftrightarrow> mb_count (k_mail k task) > 0"

section \<open>Grants\<close>

definition set_grant :: "nat \<Rightarrow> nat \<Rightarrow> u64 \<Rightarrow> u64 \<Rightarrow> u64 \<Rightarrow> kernel \<Rightarrow> kernel" where
  "set_grant granter grantee ptr n dir k =
     k\<lparr>k_grants := (k_grants k)(granter :=
        \<lparr>gr_grantee = grantee, gr_ptr = ptr, gr_len = n, gr_dir = dir, gr_active = True\<rparr>)\<rparr>"

definition clear_grant :: "nat \<Rightarrow> kernel \<Rightarrow> kernel" where
  "clear_grant task k = k\<lparr>k_grants := (k_grants k)(task := (k_grants k task)\<lparr>gr_active := False\<rparr>)\<rparr>"

text \<open>The checks before a copy: where in the client's memory it goes, or nothing.\<close>

definition safecopy_at :: "kernel \<Rightarrow> nat \<Rightarrow> u64 \<Rightarrow> u64 \<Rightarrow> u64 \<Rightarrow> u64 \<Rightarrow> u64 option" where
  "safecopy_at k server call client_off n dir =
     Option.bind (reply_target k server call) (\<lambda>client.
       if dir \<noteq> GRANT_READ \<and> dir \<noteq> GRANT_WRITE then None
       else let g = k_grants k client in
       if \<not> gr_active g \<or> gr_grantee g \<noteq> server \<or> gr_dir g AND dir = 0 then None
       else Option.bind (checked_add client_off n) (\<lambda>e.
         if e > gr_len g then None
         else Option.bind (checked_add (gr_ptr g) client_off) (\<lambda>client_addr.
           let (base, size) = task_region k client in
           if size = 0 \<or> client_addr < base then None
           else Option.bind (checked_add client_addr n) (\<lambda>last.
             if last > base + size then None else Some client_addr))))"

definition safecopy :: "nat \<Rightarrow> u64 \<Rightarrow> u64 \<Rightarrow> u64 \<Rightarrow> u64 \<Rightarrow> u64 \<Rightarrow> kernel \<Rightarrow> u64 option \<times> kernel" where
  "safecopy server call client_off loc n dir k =
     (case safecopy_at k server call client_off n dir of
        None \<Rightarrow> (None, k)
      | Some client_addr \<Rightarrow>
          (Some n,
           if dir = GRANT_READ
           then store_bytes loc (mem_read (k_mem k) client_addr (unat n)) k
           else store_bytes client_addr (mem_read (k_mem k) loc (unat n)) k))"

lemmas kset_defs = set_x0_def set_state_def store_bytes_def record_sender_cred_def end_call_def

section \<open>The mailbox as a bounded queue\<close>

definition mb_ok :: "mailbox \<Rightarrow> bool" where
  "mb_ok mb \<longleftrightarrow> length (mb_msgs mb) = MSG_QUEUE_DEPTH \<and> mb_head mb < MSG_QUEUE_DEPTH \<and>
     mb_count mb \<le> MSG_QUEUE_DEPTH \<and>
     list_all (\<lambda>m. length (ms_data m) = MSG_MAX \<and> unat (ms_len m) \<le> MSG_MAX) (mb_msgs mb)"

definition mb_items :: "mailbox \<Rightarrow> message list" where
  "mb_items mb = ring_list (mb_msgs mb) (mb_head mb) (mb_count mb)"

lemma mb_ok_new [simp]: "mb_ok mailbox_new" "mb_items mailbox_new = []"
  by (simp_all add: mb_ok_def mb_items_def mailbox_new_def MSG_QUEUE_DEPTH_def list_all_iff ring_simps)

lemma length_mb_items [simp]: "length (mb_items mb) = mb_count mb"
  by (simp add: mb_items_def ring_simps)

lemma mb_pop_front:
  assumes "mb_ok mb" "mb_items mb = m # ms"
  shows "\<exists>mb'. mb_pop mb = (Some m, mb') \<and> mb_ok mb' \<and> mb_items mb' = ms"
proof -
  have c: "0 < mb_count mb" using assms(2) length_mb_items [of mb] by (cases "mb_count mb") auto
  have l: "length (mb_msgs mb) = MSG_QUEUE_DEPTH" "mb_head mb < length (mb_msgs mb)"
    using assms(1) by (auto simp: mb_ok_def)
  have "mb_msgs mb ! mb_head mb = m"
    using ring_list_hd [OF c l(2)] assms(2) by (simp add: mb_items_def)
  moreover have "ring_list (mb_msgs mb) ((mb_head mb + 1) mod MSG_QUEUE_DEPTH) (mb_count mb - 1) = ms"
    using ring_list_pop [of "mb_msgs mb" "mb_head mb" "mb_count mb - 1"] assms(2) c
    by (simp add: mb_items_def l(1))
  ultimately show ?thesis
    using c assms(1) by (auto simp: mb_pop_def mb_ok_def mb_items_def MSG_QUEUE_DEPTH_def)
qed

lemma mb_items_len:
  assumes "mb_ok mb" "m \<in> set (mb_items mb)"
  shows "unat (ms_len m) \<le> length (ms_data m)"
proof -
  have "m \<in> set (mb_msgs mb)"
    using assms by (auto simp: mb_items_def ring_list_def mb_ok_def MSG_QUEUE_DEPTH_def)
  then show ?thesis using assms(1) by (auto simp: mb_ok_def list_all_iff)
qed

interpretation mail: fifo_reader mb_ok mb_items mb_pop
proof
  show "mb_pop s = (None, s)" if "mb_ok s" "mb_items s = []" for s
    using that by (simp add: mb_pop_def mb_items_def ring_simps)
qed (rule mb_pop_front)

lemma mb_push_back:
  assumes "mb_ok mb" "mb_count mb < MSG_QUEUE_DEPTH" "length (ms_data m) \<le> MSG_MAX"
    "unat (ms_len m) \<le> MSG_MAX"
  shows "\<exists>tail. mb_items (mb_push m mb) = mb_items mb @ [m\<lparr>ms_data := ms_data m @ tail\<rparr>]"
    and "mb_ok (mb_push m mb)"
proof -
  let ?s = "(mb_head mb + mb_count mb) mod MSG_QUEUE_DEPTH"
  let ?old = "ms_data (mb_msgs mb ! ?s)"
  have l: "length (mb_msgs mb) = MSG_QUEUE_DEPTH" using assms(1) by (simp add: mb_ok_def)
  show "\<exists>tail. mb_items (mb_push m mb) = mb_items mb @ [m\<lparr>ms_data := ms_data m @ tail\<rparr>]"
    using ring_list_push [of "mb_count mb" "mb_msgs mb" "mb_head mb"] assms(2)
    by (auto simp: mb_push_def mb_items_def Let_def l)
  have "?s < MSG_QUEUE_DEPTH" by (simp add: MSG_QUEUE_DEPTH_def)
  then have "length ?old = MSG_MAX" using assms(1) by (simp add: mb_ok_def list_all_length)
  then show "mb_ok (mb_push m mb)"
    using assms by (auto simp: mb_ok_def mb_push_def Let_def list_all_iff dest!: set_update_subset_insert [THEN subsetD])
qed

text \<open>What a receiver is given of a message: who sent it, its bytes and its credential.\<close>

definition msg_view :: "message \<Rightarrow> nat \<times> u8 list \<times> cred" where
  "msg_view m = (unat (ms_sender m), take (unat (ms_len m)) (ms_data m), ms_cred m)"

lemma msg_view_sent:
  assumes "length data \<le> MSG_MAX" "sender < 256"
  shows "msg_view \<lparr>ms_sender = of_nat sender, ms_len = of_nat (length data), ms_cred = c,
      ms_data = data @ tail\<rparr> = (sender, data, c)"
  using assms by (simp add: msg_view_def unat_of_nat MSG_MAX_def)

text \<open>The three answers of a send, by where the message went.\<close>

lemma send_message_queued:
  assumes "length data \<le> MSG_MAX" "receives (k_states k dest) = None" "mb_ok (k_mail k dest)"
    "mb_count (k_mail k dest) < MSG_QUEUE_DEPTH" "sender < 256"
  shows "fst (send_message sender dest data call k) = 0"
    and "map msg_view (mb_items (k_mail (snd (send_message sender dest data call k)) dest)) =
      map msg_view (mb_items (k_mail k dest)) @ [(sender, data, (cred_of k sender)\<lparr>cr_call := call\<rparr>)]"
    and "mb_ok (k_mail (snd (send_message sender dest data call k)) dest)"
proof -
  let ?m = "\<lparr>ms_sender = of_nat sender, ms_len = of_nat (length data),
     ms_cred = (cred_of k sender)\<lparr>cr_call := call\<rparr>, ms_data = data\<rparr>"
  have m: "k_mail (snd (send_message sender dest data call k)) dest = mb_push ?m (k_mail k dest)"
    using assms by (auto simp: send_message_def Let_def set_state_def split: task_state.split wait_reason.split)
  show "fst (send_message sender dest data call k) = 0"
    using assms by (simp add: send_message_def Let_def)
  have d: "length (ms_data ?m) \<le> MSG_MAX" "unat (ms_len ?m) \<le> MSG_MAX"
    using assms(1) by (simp_all add: unat_of_nat MSG_MAX_def)
  from mb_push_back(2) [OF assms(3,4) d]
  show "mb_ok (k_mail (snd (send_message sender dest data call k)) dest)" by (simp only: m)
  from mb_push_back(1) [OF assms(3,4) d] assms(1,5)
  show "map msg_view (mb_items (k_mail (snd (send_message sender dest data call k)) dest)) =
      map msg_view (mb_items (k_mail k dest)) @ [(sender, data, (cred_of k sender)\<lparr>cr_call := call\<rparr>)]"
    by (auto simp: m msg_view_sent)
qed

lemma unat_ucast_u16 [simp]: "unat (ucast (x :: u16) :: u64) = unat x"
proof -
  have "unat x < 2 ^ 16" using unsigned_less [of x] by simp
  then show ?thesis by (simp add: unsigned_ucast_eq take_bit_nat_eq_self)
qed

lemma try_recv_front:
  assumes "mb_ok (k_mail k task)" "mb_items (k_mail k task) = m # ms"
  shows "try_recv_message task buf n k =
    (let bytes = take (unat n) (fst (snd (msg_view m))) in
     (Some (pack_received (fst (msg_view m)) (min (unat (ms_len m)) (unat n))),
      k\<lparr>k_mail := (k_mail k)(task := snd (mb_pop (k_mail k task))),
        k_mem := mem_write (k_mem k) buf bytes,
        k_creds := (k_creds k)(task := snd (snd (msg_view m)))\<rparr>))"
proof -
  obtain mb' where p: "mb_pop (k_mail k task) = (Some m, mb')" using mb_pop_front [OF assms] by blast
  have "unat (min (ucast (ms_len m)) n) = min (unat (ms_len m)) (unat n)"
    by (simp add: min_def word_le_nat_alt)
  then show ?thesis
    using p by (simp add: try_recv_message_def Let_def kset_defs msg_view_def min.commute)
qed


lemma try_recv_empty: "mb_items (k_mail k task) = [] \<Longrightarrow> try_recv_message task buf n k = (None, k)"
  by (simp add: try_recv_message_def mb_pop_def mb_items_def ring_simps)

definition mail_list :: "kernel \<Rightarrow> nat \<Rightarrow> (nat \<times> u8 list \<times> cred) list" where
  "mail_list k task = map msg_view (mb_items (k_mail k task))"

definition enqueue_bounded :: "'a \<Rightarrow> 'a list \<Rightarrow> u64 \<times> 'a list" where
  "enqueue_bounded x q = (if MSG_QUEUE_DEPTH \<le> length q then (MSG_ERR_FULL, q) else (0, q @ [x]))"

lemma send_message_full:
  assumes "length data \<le> MSG_MAX" "receives (k_states k dest) = None"
    "MSG_QUEUE_DEPTH \<le> mb_count (k_mail k dest)"
  shows "send_message sender dest data call k = (MSG_ERR_FULL, k)"
  using assms by (simp add: send_message_def)

lemma send_message_other_mail:
  "d \<noteq> dest \<Longrightarrow> k_mail (snd (send_message sender dest data call k)) d = k_mail k d"
  by (auto simp: send_message_def Let_def kset_defs split: option.split task_state.split wait_reason.split prod.split)



text \<open>(C27) A message is received as it was sent: once the messages ahead of it are taken, the receiver
  is given the sender's slot, the bytes up to the room in its buffer, and the credential the sender had
  when it sent, whatever has happened to the sender, its identity or its slot since.\<close>

theorem recv_after_send:
  assumes "length data \<le> MSG_MAX" "receives (k_states k dest) = None" "mb_ok (k_mail k dest)"
    and "mb_count (k_mail k dest) < MSG_QUEUE_DEPTH" "sender < 256"
    and "k_mail k2 dest = k_mail (snd (send_message sender dest data call k)) dest"
    and "k3 = k2\<lparr>k_mail := (k_mail k2)(dest := snd (mail.drain (mb_count (k_mail k dest)) (k_mail k2 dest)))\<rparr>"
  shows "fst (try_recv_message dest buf blen k3) = Some (pack_received sender (min (length data) (unat blen))) \<and>
    mem_read (k_mem (snd (try_recv_message dest buf blen k3))) buf (min (length data) (unat blen)) =
      take (unat blen) data \<and>
    k_creds (snd (try_recv_message dest buf blen k3)) dest = (cred_of k sender)\<lparr>cr_call := call\<rparr>"
proof -
  let ?n = "mb_count (k_mail k dest)"
  note q = send_message_queued [OF assms(1-5), of call, folded assms(6)]
  obtain us m where us: "mb_items (k_mail k2 dest) = us @ [m]"
      and m: "msg_view m = (sender, data, (cred_of k sender)\<lparr>cr_call := call\<rparr>)"
      and l: "map msg_view us = map msg_view (mb_items (k_mail k dest))"
    using q(2) by (auto simp: map_eq_append_conv)
  have "length us = ?n" using arg_cong [OF l, of length] by simp
  then have "drop ?n (mb_items (k_mail k2 dest)) = [m]" using us by simp
  then have ok: "mb_ok (k_mail k3 dest)" "mb_items (k_mail k3 dest) = [m]"
    using mail.drain_in_order [OF q(3), of ?n] assms(7) by auto
  have "min (unat (ms_len m)) (unat blen) = min (length data) (unat blen)"
    using m mb_items_len [OF ok(1)] ok(2) by (auto simp: msg_view_def)
  moreover have "mem_read (mem_write (k_mem k3) buf (take (unat blen) data)) buf (min (length data) (unat blen)) =
      take (unat blen) data"
    using mem_read_write [of "take (unat blen) data"] assms(1) by (simp add: MSG_MAX_def)
  ultimately show ?thesis
    using try_recv_front [OF ok, of buf blen] m by (simp add: Let_def)
qed

theorem recv_after_send_witness:
  "k_creds (snd (try_recv_message 2 0x100 16
      ((snd (send_message 0 2 [1, 2] 0 kernel_new))\<lparr>k_ids := (\<lambda>_. 7)\<rparr>))) 2 =
     (cred_of kernel_new 0)\<lparr>cr_call := 0\<rparr>"
proof -
  let ?k2 = "(snd (send_message 0 2 [1, 2] 0 kernel_new))\<lparr>k_ids := (\<lambda>_. 7)\<rparr>"
  have r: "receives (k_states kernel_new 2) = None" "mb_ok (k_mail kernel_new 2)"
      "mb_count (k_mail kernel_new 2) = 0"
    by (simp_all add: receives_def kernel_new_def) (simp add: mailbox_new_def)
  have "?k2 = ?k2\<lparr>k_mail := (k_mail ?k2)(2 := snd (mail.drain (mb_count (k_mail kernel_new 2)) (k_mail ?k2 2)))\<rparr>"
    by (simp add: r(3))
  from recv_after_send [OF _ r(1,2) _ _ _ this, of "[1, 2]" 0 0] show ?thesis
    by (simp add: r(3) MSG_MAX_def MSG_QUEUE_DEPTH_def)
qed

section \<open>Replies and granted memory\<close>

text \<open>A reply names its call exactly.\<close>

lemma reply_target_iff:
  assumes "unat (k_calls k c) < 2 ^ 56"
  shows "reply_target k server h = Some c \<longleftrightarrow>
    c < NUM_TASKS \<and> k_calls k c \<noteq> 0 \<and> h = pack_slot (k_calls k c) c \<and> waits_for_reply (k_states k c) server"
proof
  assume "reply_target k server h = Some c"
  then have c: "task_id_slot h = c" "c < NUM_TASKS" "drop_bit 8 h = k_calls k c" "k_calls k c \<noteq> 0"
      "waits_for_reply (k_states k c) server"
    by (auto simp: reply_target_def task_id_slot_def Let_def split: if_splits)
  have "h = pack_slot (drop_bit 8 h) (task_id_slot h)"
    by (rule bit_word_eqI)
       (auto simp: pack_slot_def bit_simps task_id_slot_take_bit)
  with c show "c < NUM_TASKS \<and> k_calls k c \<noteq> 0 \<and> h = pack_slot (k_calls k c) c \<and> waits_for_reply (k_states k c) server"
    by simp
next
  assume "c < NUM_TASKS \<and> k_calls k c \<noteq> 0 \<and> h = pack_slot (k_calls k c) c \<and> waits_for_reply (k_states k c) server"
  then show "reply_target k server h = Some c"
    using assms drop_bit_pack_slot [of "k_calls k c" c] task_id_slot_pack [of c "k_calls k c"]
    by (simp add: reply_target_def Let_def task_id_slot_def)
qed

lemma reply_target_slot: "reply_target k server h = Some c \<Longrightarrow> c = task_id_slot h"
  by (auto simp: reply_target_def task_id_slot_def Let_def split: if_splits)

lemma safecopy_at_ok:
  assumes "safecopy_at k server call off n dir = Some a" "c = task_id_slot call" "g = k_grants k c"
    "task_region k c = (base, sz)" "unat base + unat sz < 2 ^ 64"
  shows "reply_target k server call = Some c" "gr_active g" "gr_grantee g = server" "gr_dir g AND dir \<noteq> 0"
    "dir = GRANT_READ \<or> dir = GRANT_WRITE"
    "a = gr_ptr g + off" "unat (gr_ptr g) \<le> unat a" "unat a + unat n \<le> unat (gr_ptr g) + unat (gr_len g)"
    "unat base \<le> unat a" "unat a + unat n \<le> unat base + unat sz"
proof -
  show c: "reply_target k server call = Some c"
    using assms(1,2) reply_target_slot by (auto simp: safecopy_at_def bind_eq_Some_conv)
  have b: "unat (base + sz) = unat base + unat sz" using assms(5) by (simp add: unat_word_ariths)
  from assms c show "gr_active g" "gr_grantee g = server" "gr_dir g AND dir \<noteq> 0"
      "dir = GRANT_READ \<or> dir = GRANT_WRITE"
    by (auto simp: safecopy_at_def Let_def split: if_splits)
  from assms c obtain e where e: "checked_add off n = Some e" "e \<le> gr_len g"
      "checked_add (gr_ptr g) off = Some a"
    by (auto simp: safecopy_at_def Let_def bind_eq_Some_conv split: if_splits)
  from assms c obtain l where l: "base \<le> a" "checked_add a n = Some l" "l \<le> base + sz"
    by (auto simp: safecopy_at_def Let_def bind_eq_Some_conv not_less split: if_splits)
  have ua: "unat a = unat (gr_ptr g) + unat off"
    using e(3) by (auto simp: unat_checked_add unat_word_ariths)
  have ue: "unat e = unat off + unat n" using e(1) by (auto simp: unat_checked_add unat_word_ariths)
  have ul: "unat l = unat a + unat n" using l(2) by (auto simp: unat_checked_add unat_word_ariths)
  show "a = gr_ptr g + off" using e(3) by (simp add: unat_checked_add)
  show "unat (gr_ptr g) \<le> unat a" by (simp add: ua)
  show "unat a + unat n \<le> unat (gr_ptr g) + unat (gr_len g)" using ua ue e(2) by (simp add: word_le_nat_alt)
  show "unat base \<le> unat a" "unat a + unat n \<le> unat base + unat sz"
    using l(1,3) ul b by (simp_all add: word_le_nat_alt)
qed


definition sample_client :: kernel where
  "sample_client = kernel_new\<lparr>
     k_states := (k_states kernel_new)(2 := Runnable, 6 := Blocked (Wait_Message 0x10000 768 (Some 2))),
     k_calls := (k_calls kernel_new)(6 := 1), k_next_call := 2,
     k_regions := (k_regions kernel_new)(2 := (0x8000, 0x1000), 6 := (0x10000, 0x1000)),
     k_grants := (k_grants kernel_new)(6 := \<lparr>gr_grantee = 2, gr_ptr = 0x10800, gr_len = 0x100,
        gr_dir = GRANT_WRITE, gr_active = True\<rparr>)\<rparr>"

lemma sample_client_6:
  "reply_target sample_client 2 0x106 = Some 6" "task_id_slot 0x106 = 6"
  "task_region sample_client 6 = (0x10000, 0x1000)"
  "k_grants sample_client 6 = \<lparr>gr_grantee = 2, gr_ptr = 0x10800, gr_len = 0x100,
     gr_dir = GRANT_WRITE, gr_active = True\<rparr>"
  by (simp_all add: reply_target_def task_id_slot_def task_region_def sample_client_def kernel_new_def
      NUM_TASKS_def waits_for_reply_def Let_def push_bit_eq_mult drop_bit_eq_div)


end
