(* ===== verification/Kernel_Input.thy ===== *)
theory Kernel_Input
  imports Kernel_Ipc
begin

text \<open>
  Who owns the keyboard (\<open>src/kernel/src/tasks.rs\<close>) and how its bytes reach the owner
  (\<open>src/kernel/src/syscall.rs\<close>): hand-overs and the chain of previous owners, what an interrupt
  key does, and the bounded reads of the two keyboards into the key queue.
\<close>

section \<open>Ownership\<close>

definition PENDING_KILL_BY_QUIT :: u64 where "PENDING_KILL_BY_QUIT = push_bit 63 1"
definition KEY_INTERRUPT :: u8 where "KEY_INTERRUPT = 0x03"
definition KEY_QUIT :: u8 where "KEY_QUIT = 0x1c"

definition kill_pending_for :: "kernel \<Rightarrow> nat \<Rightarrow> bool" where
  "kill_pending_for k slot \<longleftrightarrow>
     (let marked = k_pending_kill k AND NOT PENDING_KILL_BY_QUIT;
          doomed = (if slot < NUM_TASKS then k_doomed k slot else 0);
          ident = task_id_of k slot
      in (marked \<noteq> 0 \<and> ident = Some marked) \<or> (doomed \<noteq> 0 \<and> ident = Some doomed))"

datatype key_verdict = Verdict_Byte | Verdict_Consumed | Verdict_BootInterrupt

definition set_kbd_raw :: "nat \<Rightarrow> bool \<Rightarrow> kernel \<Rightarrow> kernel" where
  "set_kbd_raw task raw k = k\<lparr>k_kbd_raw := (k_kbd_raw k)(task := raw)\<rparr>"

definition keyboard_owner_changed :: "kernel \<Rightarrow> kernel" where
  "keyboard_owner_changed k = k\<lparr>k_kbd := trim_cut_key (k_kbd k) (k_ticks k)\<rparr>"

text \<open>The walk down the chain from the previous owner: the links passed when \<open>owner\<close> is found below
  one of them, within \<open>n\<close> steps.\<close>

fun owner_walk :: "kernel \<Rightarrow> nat \<Rightarrow> nat \<Rightarrow> nat \<Rightarrow> nat list \<Rightarrow> nat list option" where
  "owner_walk k owner 0 link walked = None"
| "owner_walk k owner (Suc n) link walked =
     (case live_occupant k (k_prev_owners k link) of
        None \<Rightarrow> None
      | Some below \<Rightarrow>
          if below = owner then Some (walked @ [link])
          else owner_walk k owner n below (walked @ [link]))"

definition set_input_owner :: "nat \<Rightarrow> bool \<Rightarrow> kernel \<Rightarrow> kernel" where
  "set_input_owner owner foreground_command k =
     (let k0 = (if owner < NUM_TASKS
                then k\<lparr>k_fg_command := (k_fg_command k)(owner := foreground_command)\<rparr> else k);
          previous = k_input_owner k0;
          k1 = k0\<lparr>k_input_owner := owner\<rparr>
      in if previous = owner then k1
         else let k2 = keyboard_owner_changed k1 in
           case owner_walk k2 owner NUM_TASKS previous [] of
             Some walked \<Rightarrow>
               k2\<lparr>k_prev_owners := (\<lambda>i. if i \<in> set walked then 0 else k_prev_owners k2 i)\<rparr>
           | None \<Rightarrow>
               if owner \<noteq> 0
               then k2\<lparr>k_prev_owners := (k_prev_owners k2)(owner :=
                      (case task_id_of k2 previous of Some holder \<Rightarrow> holder | None \<Rightarrow> 0))\<rparr>
               else k2)"

definition owner_below :: "kernel \<Rightarrow> u64 \<Rightarrow> nat" where
  "owner_below k previous = (case live_occupant k previous of Some t \<Rightarrow> t | None \<Rightarrow> 0)"

definition revert_input_owner_if :: "nat \<Rightarrow> kernel \<Rightarrow> kernel" where
  "revert_input_owner_if dying k =
     (let previous = k_prev_owners k dying;
          k1 = k\<lparr>k_prev_owners := (k_prev_owners k)(dying := 0)\<rparr>;
          k2 = (case task_id_of k1 dying of
                  None \<Rightarrow> k1
                | Some ident \<Rightarrow>
                    k1\<lparr>k_prev_owners := (\<lambda>i. if i < NUM_TASKS \<and> k_prev_owners k1 i = ident then previous
                                              else k_prev_owners k1 i)\<rparr>)
      in if k_input_owner k2 \<noteq> dying then k2
         else keyboard_owner_changed (k2\<lparr>k_input_owner := owner_below k2 previous\<rparr>))"

definition clear_previous_owner :: "nat \<Rightarrow> kernel \<Rightarrow> kernel" where
  "clear_previous_owner slot k = k\<lparr>k_prev_owners := (k_prev_owners k)(slot := 0)\<rparr>"

definition task_waited_on :: "kernel \<Rightarrow> nat \<Rightarrow> bool" where
  "task_waited_on k target = list_ex (\<lambda>i. k_states k i = Blocked (Wait_TaskExit target)) [0..<NUM_TASKS]"

definition interrupt_key_check :: "u8 \<Rightarrow> kernel \<Rightarrow> key_verdict \<times> kernel" where
  "interrupt_key_check byte k =
     (let owner = k_input_owner k in
      if owner = 0 then
        (if byte = KEY_INTERRUPT \<or> byte = KEY_QUIT then Verdict_BootInterrupt else Verdict_Byte, k)
      else if \<not> (byte = KEY_QUIT \<or> byte = KEY_INTERRUPT \<and> \<not> k_kbd_raw k owner) then (Verdict_Byte, k)
      else case task_id_of k owner of
        None \<Rightarrow> (Verdict_Byte, k)
      | Some ident \<Rightarrow>
          if k_fg_command k owner \<or> task_waited_on k owner then
            (Verdict_Consumed,
             k\<lparr>k_pending_kill := ident OR (if byte = KEY_QUIT then PENDING_KILL_BY_QUIT else 0)\<rparr>)
          else (Verdict_Consumed,
                keyboard_owner_changed (k\<lparr>k_input_owner := owner_below k (k_prev_owners k owner)\<rparr>)))"

section \<open>Reading the keyboards\<close>

definition READ_AHEAD_MAX :: nat where "READ_AHEAD_MAX = QUEUE_LEN"
definition READ_DROPPED_MAX :: nat where "READ_DROPPED_MAX = QUEUE_LEN"
definition FLUSH_EMPTY_MAX :: nat where "FLUSH_EMPTY_MAX = 8"

text \<open>One poll of a device: its next answer, and the answers left.\<close>

definition next_answer :: "'a option list \<Rightarrow> 'a option \<times> 'a option list" where
  "next_answer l = (case l of [] \<Rightarrow> (None, []) | x # xs \<Rightarrow> (x, xs))"

definition poll_serial :: "kernel \<Rightarrow> (u8 \<times> source) option \<times> kernel" where
  "poll_serial k = (case next_answer (k_serial k) of (b, rest) \<Rightarrow>
     (map_option (\<lambda>byte. (byte, Serial)) b, k\<lparr>k_serial := rest\<rparr>))"

definition poll_usb :: "kernel \<Rightarrow> (u8 \<times> source) option \<times> kernel" where
  "poll_usb k = (case next_answer (k_usb k) of (b, rest) \<Rightarrow>
     (map_option (\<lambda>(byte, last). (byte, Usb last)) b, k\<lparr>k_usb := rest\<rparr>))"

definition keyboard_device_byte :: "kernel \<Rightarrow> (u8 \<times> source) option \<times> kernel" where
  "keyboard_device_byte k0 =
     (let (usb_first, q1) = inside_usb_key (k_kbd k0) (k_ticks k0);
          (serial_only, q2) = inside_serial_key q1 (k_ticks k0);
          k = k0\<lparr>k_kbd := q2\<rparr>
      in if serial_only then poll_serial k
         else if usb_first then
           (case poll_usb k of (Some b, k1) \<Rightarrow> (Some b, k1) | (None, k1) \<Rightarrow> poll_serial k1)
         else (case poll_serial k of (Some b, k1) \<Rightarrow> (Some b, k1) | (None, k1) \<Rightarrow> poll_usb k1))"

datatype took = Took_Nothing | Took_Byte | Took_Interrupted | Took_BootInterrupt

definition take_one :: "bool \<Rightarrow> kernel \<Rightarrow> took \<times> kernel" where
  "take_one boot_waits k0 =
     (case keyboard_device_byte k0 of
        (None, k) \<Rightarrow> (Took_Nothing, k)
      | (Some (byte, src), k) \<Rightarrow>
          (case interrupt_key_check byte k of (verdict, k1) \<Rightarrow>
             if verdict = Verdict_Consumed then
               (Took_Interrupted, k1\<lparr>k_kbd := kq_flush (k_kbd k1) (Some byte)\<rparr>)
             else if verdict = Verdict_BootInterrupt \<and> boot_waits then
               (Took_BootInterrupt, k1\<lparr>k_kbd := kq_flush (k_kbd k1) (Some byte)\<rparr>)
             else (Took_Byte, k1\<lparr>k_kbd := kq_push (k_kbd k1) byte src (k_ticks k1)\<rparr>)))"

fun key_waiting_loop :: "nat \<Rightarrow> kernel \<Rightarrow> bool \<times> kernel" where
  "key_waiting_loop 0 k = (\<not> kq_is_empty (k_kbd k), k)"
| "key_waiting_loop (Suc n) k =
     (if \<not> kq_is_empty (k_kbd k) then (True, k)
      else case take_one False k of (t, k1) \<Rightarrow>
        if t \<noteq> Took_Byte then (False, k1) else key_waiting_loop n k1)"

definition keyboard_key_waiting :: "nat \<Rightarrow> kernel \<Rightarrow> bool \<times> kernel" where
  "keyboard_key_waiting reader k =
     (if reader \<noteq> k_input_owner k \<or> kill_pending_for k reader then (False, k)
      else key_waiting_loop READ_DROPPED_MAX k)"

definition poll_keyboard_byte :: "nat \<Rightarrow> kernel \<Rightarrow> u8 option \<times> kernel" where
  "poll_keyboard_byte reader k =
     (case keyboard_key_waiting reader k of
        (False, k1) \<Rightarrow> (None, k1)
      | (True, k1) \<Rightarrow> (case kq_pop (k_kbd k1) of (b, q) \<Rightarrow> (b, k1\<lparr>k_kbd := q\<rparr>)))"

definition key_wait_answer :: "nat \<Rightarrow> u64 \<Rightarrow> kernel \<Rightarrow> u64 option \<times> kernel" where
  "key_wait_answer task until_us k =
     (case keyboard_key_waiting task k of
        (True, k1) \<Rightarrow> (Some 1, k1)
      | (False, k1) \<Rightarrow> (if k_now_us k1 \<ge> until_us then Some 0 else None, k1))"

fun read_ahead_loop :: "nat \<Rightarrow> kernel \<Rightarrow> bool \<times> kernel" where
  "read_ahead_loop 0 k = (False, k)"
| "read_ahead_loop (Suc n) k =
     (case take_one True k of (t, k1) \<Rightarrow>
        (case t of Took_Byte \<Rightarrow> read_ahead_loop n k1
         | Took_Nothing \<Rightarrow> (False, k1)
         | Took_Interrupted \<Rightarrow> (False, k1)
         | Took_BootInterrupt \<Rightarrow> (True, k1)))"

definition read_keyboard_ahead :: "nat \<Rightarrow> kernel \<Rightarrow> bool \<times> kernel" where
  "read_keyboard_ahead reader k =
     (if reader \<noteq> k_input_owner k \<or> kill_pending_for k reader then (False, k)
      else read_ahead_loop READ_AHEAD_MAX k)"

definition keyboard_interrupts_wait :: "nat \<Rightarrow> kernel \<Rightarrow> bool \<times> kernel" where
  "keyboard_interrupts_wait waiter k = read_keyboard_ahead waiter k"

fun flush_loop :: "nat \<Rightarrow> nat \<Rightarrow> kernel \<Rightarrow> bool \<times> kernel" where
  "flush_loop 0 empties k = (True, k)"
| "flush_loop (Suc n) empties k =
     (case take_one True k of (t, k1) \<Rightarrow>
        (case t of
           Took_Nothing \<Rightarrow> if empties + 1 = FLUSH_EMPTY_MAX then (True, k1) else flush_loop n (empties + 1) k1
         | Took_Byte \<Rightarrow> flush_loop n 0 k1
         | _ \<Rightarrow> (False, k1)))"

definition keyboard_flush_input :: "nat \<Rightarrow> kernel \<Rightarrow> kernel" where
  "keyboard_flush_input reader k =
     (if reader \<noteq> k_input_owner k \<or> kill_pending_for k reader then k
      else case flush_loop READ_AHEAD_MAX 0 k of
        (False, k1) \<Rightarrow> k1
      | (True, k1) \<Rightarrow> k1\<lparr>k_kbd := kq_flush (k_kbd k1) None\<rparr>)"

section \<open>Sound ownership\<close>

text \<open>Generations are issued once and entries name only issued ones; the owner and the boot shell are
  live; and following previous owners never comes back.\<close>

definition gens_ok :: "kernel \<Rightarrow> bool" where
  "gens_ok k \<longleftrightarrow> unat (k_next_gen k) < 2 ^ 55 \<and>
     (\<forall>t<NUM_TASKS. unat (k_gens k t) < unat (k_next_gen k) \<and>
        unat (drop_bit 8 (k_prev_owners k t)) < unat (k_next_gen k) \<and>
        (k_states k t \<noteq> Unused \<longrightarrow> k_gens k t \<noteq> 0))"

definition owner_edges :: "kernel \<Rightarrow> (nat \<times> nat) set" where
  "owner_edges k = {(i, j). i < NUM_TASKS \<and> live_occupant k (k_prev_owners k i) = Some j}"

definition input_ok :: "kernel \<Rightarrow> bool" where
  "input_ok k \<longleftrightarrow> gens_ok k \<and> k_input_owner k < NUM_TASKS \<and> is_occupied k (k_input_owner k) \<and>
     is_occupied k 0 \<and> acyclic (owner_edges k)"

lemma zero_lt_NUM_TASKS [simp]: "0 < NUM_TASKS" by (simp add: NUM_TASKS_def)

lemma live_occupant_cong:
  assumes "k_states k = k_states k'" "k_gens k = k_gens k'"
  shows "live_occupant k = live_occupant k'"
proof -
  have "is_occupied k = is_occupied k'" using assms by (simp add: fun_eq_iff is_occupied_def)
  moreover have "occupant_is k = occupant_is k'"
    using assms by (simp add: fun_eq_iff occupant_is_def task_id_of_def)
  ultimately show ?thesis by (auto simp: fun_eq_iff live_occupant_def live_index_def split: option.split)
qed

lemma input_ok_cong:
  assumes "k_states k = k_states k'" "k_gens k = k_gens k'" "k_next_gen k = k_next_gen k'"
    "k_prev_owners k = k_prev_owners k'" "k_input_owner k = k_input_owner k'"
  shows "input_ok k = input_ok k'"
  using assms live_occupant_cong [OF assms(1,2)]
  by (simp add: input_ok_def gens_ok_def owner_edges_def is_occupied_def)

lemma gens_ok_bound: "gens_ok k \<Longrightarrow> t < NUM_TASKS \<Longrightarrow> unat (k_gens k t) < 2 ^ 55"
  unfolding gens_ok_def by (meson less_trans)

text \<open>A cleared entry names no live task.\<close>

lemma live_occupant_zero:
  assumes "gens_ok k"
  shows "live_occupant k 0 = None"
proof (rule ccontr)
  assume "live_occupant k 0 \<noteq> None"
  then obtain t where t: "t < NUM_TASKS" "is_occupied k t" "pack_slot (k_gens k t) t = 0" by (auto simp: live_occupant_iff)
  have "k_gens k t \<noteq> 0" using assms t is_occupied_not_Unused by (auto simp: gens_ok_def)
  moreover have "unat (pack_slot (k_gens k t) t) = unat (k_gens k t) * 256 + t"
    using gens_ok_bound [OF assms t(1)] t(1) by (intro pack_slot_unat) auto
  ultimately show False using t(3) by (simp add: unat_eq_0)
qed

lemma owner_edgesD:
  "(i, j) \<in> owner_edges k \<Longrightarrow> i < NUM_TASKS \<and> j < NUM_TASKS \<and> is_occupied k j \<and>
     k_prev_owners k i = pack_slot (k_gens k j) j"
  by (auto simp: owner_edges_def live_occupant_iff)

lemma owner_below_ok:
  assumes "is_occupied k 0"
  shows "owner_below k p < NUM_TASKS" "is_occupied k (owner_below k p)"
  using assms by (auto simp: owner_below_def live_occupant_iff split: option.split)

section \<open>The walk finds every owner below\<close>

lemma owner_walk_path:
  assumes "length p \<le> n" "p \<noteq> []" "last p = owner" "owner \<notin> set (butlast p)"
    "\<forall>i<length p. ((link # p) ! i, p ! i) \<in> owner_edges k"
  shows "owner_walk k owner n link walked \<noteq> None"
  using assms
proof (induction p arbitrary: n link walked)
  case (Cons x p)
  obtain n' where n: "n = Suc n'" using Cons.prems(1) by (cases n) auto
  have e: "live_occupant k (k_prev_owners k link) = Some x"
    using Cons.prems(5) [rule_format, of 0] by (auto simp: owner_edges_def)
  show ?case
  proof (cases "x = owner")
    case True
    then show ?thesis using e n by simp
  next
    case False
    then have p: "p \<noteq> []" "last p = owner" "owner \<notin> set (butlast p)"
      using Cons.prems(3,4) by (auto split: if_splits)
    moreover have "\<forall>i<length p. ((x # p) ! i, p ! i) \<in> owner_edges k"
    proof (intro allI impI)
      fix i assume "i < length p"
      then show "((x # p) ! i, p ! i) \<in> owner_edges k" using Cons.prems(5) [rule_format, of "Suc i"] by simp
    qed
    ultimately have "owner_walk k owner n' x (walked @ [link]) \<noteq> None"
      using Cons.IH [of n' x "walked @ [link]"] Cons.prems(1) n by simp
    then show ?thesis using e n False by simp
  qed
qed simp

lemma owner_walk_only_edges:
  assumes "owner_walk k owner n link walked = Some ws" "set walked \<subseteq> {..<NUM_TASKS}" "link < NUM_TASKS"
  shows "set ws \<subseteq> {..<NUM_TASKS}"
  using assms
  by (induction n arbitrary: link walked) (auto simp: live_occupant_iff split: option.splits if_splits)


lemma owner_walk_finds:
  assumes "acyclic (owner_edges k)" "(link, owner) \<in> (owner_edges k)\<^sup>+"
  shows "owner_walk k owner NUM_TASKS link walked \<noteq> None"
proof -
  let ?R = "owner_edges k"
  obtain m where m: "(link, owner) \<in> ?R ^^ Suc m" using assms(2) by (metis Suc_pred trancl_power)
  obtain f where f: "f 0 = link" "f (Suc m) = owner" "\<And>i. i < Suc m \<Longrightarrow> (f i, f (Suc i)) \<in> ?R"
    using m unfolding relpow_fun_conv by auto
  have reach: "(f i, f j) \<in> ?R\<^sup>+" if "i < j" "j \<le> Suc m" for i j
    using that
  proof (induction j)
    case (Suc j)
    then have "(f j, f (Suc j)) \<in> ?R" using f(3) [of j] by simp
    then show ?case using Suc by (cases "i = j") (auto intro: trancl_into_trancl)
  qed simp
  then have inj: "inj_on f {..Suc m}"
    using assms(1) unfolding inj_on_def acyclic_def by (metis atMost_iff linorder_neqE_nat)
  have "f ` {..Suc m} \<subseteq> {..<NUM_TASKS}"
  proof
    fix x assume "x \<in> f ` {..Suc m}"
    then obtain i where i: "x = f i" "i \<le> Suc m" by auto
    show "x \<in> {..<NUM_TASKS}"
      using owner_edgesD [OF f(3) [of i]] owner_edgesD [OF f(3) [of "i - 1"]] i by (cases "i = Suc m") auto
  qed
  then have "Suc (Suc m) \<le> NUM_TASKS"
    using card_inj_on_le [OF inj, of "{..<NUM_TASKS}"] by simp
  moreover let ?p = "map f [1..<Suc (Suc m)]"
  have "owner \<notin> set (butlast ?p)"
  proof
    assume "owner \<in> set (butlast ?p)"
    then obtain i where "1 \<le> i" "i < Suc m" "f i = owner" by (auto simp: butlast_conv_take take_map)
    with inj f(2) show False by (auto simp: inj_on_def)
  qed
  moreover have "((link # ?p) ! i, ?p ! i) \<in> ?R" if "i < length ?p" for i
    using f(1) f(3) [of i] that by (cases i) (auto simp del: upt_Suc)
  ultimately show ?thesis
    using f(2) by (intro owner_walk_path [of ?p]) (auto simp: last_map)
qed

lemma owner_walk_cong:
  assumes "k_states k = k_states k'" "k_gens k = k_gens k'" "k_prev_owners k = k_prev_owners k'"
  shows "owner_walk k owner n link walked = owner_walk k' owner n link walked"
  by (induction n arbitrary: link walked)
     (auto simp: live_occupant_cong [OF assms(1,2)] assms(3) split: option.split)

lemma set_input_owner_fields:
  "k_states (set_input_owner owner fg k) = k_states k"
  "k_gens (set_input_owner owner fg k) = k_gens k"
  "k_next_gen (set_input_owner owner fg k) = k_next_gen k"
  "k_input_owner (set_input_owner owner fg k) = owner"
  "k_prev_owners (set_input_owner owner fg k) =
     (if k_input_owner k = owner then k_prev_owners k
      else case owner_walk k owner NUM_TASKS (k_input_owner k) [] of
        Some ws \<Rightarrow> (\<lambda>i. if i \<in> set ws then 0 else k_prev_owners k i)
      | None \<Rightarrow>
          if owner = 0 then k_prev_owners k
          else (k_prev_owners k)(owner := (case task_id_of k (k_input_owner k) of Some h \<Rightarrow> h | None \<Rightarrow> 0)))"
proof -
  define k2 where "k2 = keyboard_owner_changed ((if owner < NUM_TASKS
      then k\<lparr>k_fg_command := (k_fg_command k)(owner := fg)\<rparr> else k)\<lparr>k_input_owner := owner\<rparr>)"
  have k2: "k_states k2 = k_states k" "k_gens k2 = k_gens k" "k_prev_owners k2 = k_prev_owners k"
      "k_next_gen k2 = k_next_gen k" "k_input_owner k2 = owner"
    by (simp_all add: k2_def keyboard_owner_changed_def)
  have k0: "k_input_owner (if owner < NUM_TASKS then k\<lparr>k_fg_command := (k_fg_command k)(owner := fg)\<rparr> else k) =
      k_input_owner k" by simp
  have "owner_walk k2 = owner_walk k" using owner_walk_cong [of k2 k] k2 by blast
  moreover have "task_id_of k2 = task_id_of k" using k2 by (simp add: fun_eq_iff task_id_of_def)
  moreover have "set_input_owner owner fg k =
     (if k_input_owner k = owner
      then (if owner < NUM_TASKS then k\<lparr>k_fg_command := (k_fg_command k)(owner := fg)\<rparr> else k)\<lparr>k_input_owner := owner\<rparr>
      else case owner_walk k2 owner NUM_TASKS (k_input_owner k) [] of
             Some walked \<Rightarrow>
               k2\<lparr>k_prev_owners := (\<lambda>i. if i \<in> set walked then 0 else k_prev_owners k2 i)\<rparr>
           | None \<Rightarrow>
               if owner \<noteq> 0
               then k2\<lparr>k_prev_owners := (k_prev_owners k2)(owner :=
                      (case task_id_of k2 (k_input_owner k) of Some holder \<Rightarrow> holder | None \<Rightarrow> 0))\<rparr>
               else k2)"
    unfolding set_input_owner_def Let_def k0 k2_def by (rule refl)
  ultimately show "k_states (set_input_owner owner fg k) = k_states k"
  "k_gens (set_input_owner owner fg k) = k_gens k"
  "k_next_gen (set_input_owner owner fg k) = k_next_gen k"
  "k_input_owner (set_input_owner owner fg k) = owner"
  "k_prev_owners (set_input_owner owner fg k) =
     (if k_input_owner k = owner then k_prev_owners k
      else case owner_walk k owner NUM_TASKS (k_input_owner k) [] of
        Some ws \<Rightarrow> (\<lambda>i. if i \<in> set ws then 0 else k_prev_owners k i)
      | None \<Rightarrow>
          if owner = 0 then k_prev_owners k
          else (k_prev_owners k)(owner := (case task_id_of k (k_input_owner k) of Some h \<Rightarrow> h | None \<Rightarrow> 0)))"
    by (auto simp: k2 split: option.split)
qed

lemma owner_edges_update:
  assumes "k_states k' = k_states k" "k_gens k' = k_gens k"
    "\<And>i. i < NUM_TASKS \<Longrightarrow> k_prev_owners k' i = k_prev_owners k i \<or>
       live_occupant k (k_prev_owners k' i) = None \<or> (i, the (live_occupant k (k_prev_owners k' i))) \<in> S"
  shows "owner_edges k' \<subseteq> owner_edges k \<union> S"
  using assms(3) live_occupant_cong [OF assms(1,2)]
  by (auto simp: owner_edges_def) (metis option.distinct(1) option.sel)

lemma gens_ok_update:
  assumes "gens_ok k" "k_states k' = k_states k" "k_gens k' = k_gens k" "k_next_gen k' = k_next_gen k"
    "\<And>i. i < NUM_TASKS \<Longrightarrow> unat (drop_bit 8 (k_prev_owners k' i)) < unat (k_next_gen k)"
  shows "gens_ok k'"
  using assms by (simp add: gens_ok_def)

lemma drop_bit_task_id:
  assumes "gens_ok k" "t < NUM_TASKS"
  shows "unat (drop_bit 8 (pack_slot (k_gens k t) t)) < unat (k_next_gen k)"
  using assms gens_ok_bound [OF assms] drop_bit_pack_slot [of "k_gens k t" t] by (simp add: gens_ok_def)

lemma prev_gen_bound: "gens_ok k \<Longrightarrow> i < NUM_TASKS \<Longrightarrow> unat (drop_bit 8 (k_prev_owners k i)) < unat (k_next_gen k)"
  by (simp add: gens_ok_def)

lemma next_gen_pos: "gens_ok k \<Longrightarrow> 0 < unat (k_next_gen k)"
  unfolding gens_ok_def by (metis less_nat_zero_code neq0_conv zero_lt_NUM_TASKS)

lemma acyclic_add_edge:
  assumes "acyclic r" "r' \<subseteq> r \<union> {(a, b)}" "(b, a) \<notin> r\<^sup>*"
  shows "acyclic r'"
proof -
  have "acyclic (insert (a, b) r)" using assms(1,3) by simp
  then show ?thesis using assms(2) by (auto intro: acyclic_subset)
qed

text \<open>Handing the keyboard to a live task keeps the ownership sound.\<close>

lemma input_ok_set_input_owner:
  assumes ok: "input_ok k" and o: "owner < NUM_TASKS" "is_occupied k owner"
  shows "input_ok (set_input_owner owner fg k)"
proof -
  let ?k = "set_input_owner owner fg k" and ?prev = "k_input_owner k"
  note f = set_input_owner_fields [of owner fg k]
  have g: "gens_ok k" "?prev < NUM_TASKS" "is_occupied k ?prev" "is_occupied k 0" "acyclic (owner_edges k)"
    using ok by (auto simp: input_ok_def)
  have occ: "is_occupied ?k t = is_occupied k t" for t by (simp add: is_occupied_def f)
  have id: "task_id_of k ?prev = Some (pack_slot (k_gens k ?prev) ?prev)"
    using g(2,3) is_occupied_not_Unused by (simp add: task_id_of_Some)
  have "gens_ok ?k"
    by (rule gens_ok_update [OF g(1) f(1-3)])
       (auto simp: f(5) id prev_gen_bound [OF g(1)] next_gen_pos [OF g(1)] drop_bit_task_id [OF g(1,2)] split: option.split)
  moreover have "acyclic (owner_edges ?k)"
  proof (cases "?prev = owner \<or> owner = 0 \<or> owner_walk k owner NUM_TASKS ?prev [] \<noteq> None")
    case True
    have "owner_edges ?k \<subseteq> owner_edges k \<union> {}"
      by (rule owner_edges_update [OF f(1,2)])
         (use True in \<open>auto simp: f(5) live_occupant_zero [OF g(1)] split: option.split\<close>)
    then show ?thesis using g(5) by (auto intro: acyclic_subset)
  next
    case False
    have "(?prev, owner) \<notin> (owner_edges k)\<^sup>*"
      using owner_walk_finds [OF g(5), of ?prev owner "[]"] False by (auto simp: rtrancl_eq_or_trancl)
    moreover have "owner_edges ?k \<subseteq> owner_edges k \<union> {(owner, ?prev)}"
    proof (rule owner_edges_update [OF f(1,2)])
      have "live_occupant k (pack_slot (k_gens k ?prev) ?prev) = Some ?prev" using g(2,3) by (simp add: live_occupant_iff)
      then show "k_prev_owners ?k i = k_prev_owners k i \<or> live_occupant k (k_prev_owners ?k i) = None \<or>
          (i, the (live_occupant k (k_prev_owners ?k i))) \<in> {(owner, ?prev)}" for i
        using False by (auto simp: f(5) id split: option.split)
    qed
    ultimately show ?thesis using acyclic_add_edge [OF g(5)] by blast
  qed
  ultimately show ?thesis using o g by (simp add: input_ok_def f occ)
qed

lemma input_ok_updates [simp]:
  "input_ok (k\<lparr>k_tasks := x_1\<rparr>) = input_ok k"
  "input_ok (k\<lparr>k_regions := x_2\<rparr>) = input_ok k"
  "input_ok (k\<lparr>k_current := x_3\<rparr>) = input_ok k"
  "input_ok (k\<lparr>k_round := x_4\<rparr>) = input_ok k"
  "input_ok (k\<lparr>k_boot_core := x_5\<rparr>) = input_ok k"
  "input_ok (k\<lparr>k_secondaries := x_6\<rparr>) = input_ok k"
  "input_ok (k\<lparr>k_idle_base := x_ib\<rparr>) = input_ok k"
  "input_ok (k\<lparr>k_region_top := x_7\<rparr>) = input_ok k"
  "input_ok (k\<lparr>k_fg_command := x_10\<rparr>) = input_ok k"
  "input_ok (k\<lparr>k_pending_kill := x_11\<rparr>) = input_ok k"
  "input_ok (k\<lparr>k_kbd_raw := x_12\<rparr>) = input_ok k"
  "input_ok (k\<lparr>k_kbd := x_13\<rparr>) = input_ok k"
  "input_ok (k\<lparr>k_calls := x_14\<rparr>) = input_ok k"
  "input_ok (k\<lparr>k_next_call := x_15\<rparr>) = input_ok k"
  "input_ok (k\<lparr>k_mail := x_18\<rparr>) = input_ok k"
  "input_ok (k\<lparr>k_argv := x_19\<rparr>) = input_ok k"
  "input_ok (k\<lparr>k_env := x_20\<rparr>) = input_ok k"
  "input_ok (k\<lparr>k_cwd := x_21\<rparr>) = input_ok k"
  "input_ok (k\<lparr>k_ns := x_22\<rparr>) = input_ok k"
  "input_ok (k\<lparr>k_stdout := x_23\<rparr>) = input_ok k"
  "input_ok (k\<lparr>k_ids := x_24\<rparr>) = input_ok k"
  "input_ok (k\<lparr>k_saved_ids := x_25\<rparr>) = input_ok k"
  "input_ok (k\<lparr>k_groups := x_26\<rparr>) = input_ok k"
  "input_ok (k\<lparr>k_group_counts := x_27\<rparr>) = input_ok k"
  "input_ok (k\<lparr>k_creds := x_28\<rparr>) = input_ok k"
  "input_ok (k\<lparr>k_delegated := x_29\<rparr>) = input_ok k"
  "input_ok (k\<lparr>k_parents := x_30\<rparr>) = input_ok k"
  "input_ok (k\<lparr>k_grants := x_31\<rparr>) = input_ok k"
  "input_ok (k\<lparr>k_doomed := x_32\<rparr>) = input_ok k"
  "input_ok (k\<lparr>k_staging := x_33\<rparr>) = input_ok k"
  "input_ok (k\<lparr>k_mem := x_34\<rparr>) = input_ok k"
  "input_ok (k\<lparr>k_ticks := x_35\<rparr>) = input_ok k"
  "input_ok (k\<lparr>k_now_us := x_36\<rparr>) = input_ok k"
  "input_ok (k\<lparr>k_serial := x_37\<rparr>) = input_ok k"
  "input_ok (k\<lparr>k_usb := x_38\<rparr>) = input_ok k"
  "input_ok (k\<lparr>k_net_frame := x_39\<rparr>) = input_ok k"
  by (rule input_ok_cong; simp)+

lemma revert_fields:
  "k_states (revert_input_owner_if d k) = k_states k"
  "k_gens (revert_input_owner_if d k) = k_gens k"
  "k_next_gen (revert_input_owner_if d k) = k_next_gen k"
  by (auto simp: revert_input_owner_if_def Let_def keyboard_owner_changed_def split: option.split)

lemma revert_prev_owners:
  assumes "gens_ok k" "d < NUM_TASKS" "is_occupied k d" "i < NUM_TASKS"
  shows "k_prev_owners (revert_input_owner_if d k) i =
    (if i = d then 0 else if k_prev_owners k i = pack_slot (k_gens k d) d then k_prev_owners k d
     else k_prev_owners k i)"
proof -
  have "live_occupant k (pack_slot (k_gens k d) d) = Some d" using assms by (simp add: live_occupant_iff)
  then have "pack_slot (k_gens k d) d \<noteq> 0" using live_occupant_zero [OF assms(1)] by auto
  moreover have "k_states k d \<noteq> Unused" using assms(3) is_occupied_not_Unused by blast
  ultimately show ?thesis
    using assms(2,4)
    by (auto simp: revert_input_owner_if_def Let_def keyboard_owner_changed_def task_id_of_def)
qed

lemma revert_owner:
  assumes "gens_ok k" "d < NUM_TASKS" "is_occupied k d"
  shows "k_input_owner (revert_input_owner_if d k) =
    (if k_input_owner k = d then owner_below k (k_prev_owners k d) else k_input_owner k)"
proof -
  have c: "live_occupant (k\<lparr>k_prev_owners := p\<rparr>) = live_occupant k" for p
    by (rule live_occupant_cong) simp_all
  show ?thesis
    by (auto simp: revert_input_owner_if_def Let_def keyboard_owner_changed_def owner_below_def c
        split: option.split)
qed

text \<open>A task's end, with the keyboard reverted, keeps the ownership sound.\<close>

lemma input_ok_death:
  assumes ok: "input_ok k" and d: "d < NUM_TASKS" "d \<noteq> 0" "is_occupied k d"
    and k': "k_states k' = (k_states k)(d := st)" "st = Unused \<or> (\<exists>s. st = Zombie s)"
      "k_gens k' = k_gens k" "k_next_gen k' = k_next_gen k"
      "k_prev_owners k' = k_prev_owners (revert_input_owner_if d k)"
      "k_input_owner k' = k_input_owner (revert_input_owner_if d k)"
  shows "input_ok k'"
proof -
  have g: "gens_ok k" "k_input_owner k < NUM_TASKS" "is_occupied k (k_input_owner k)" "is_occupied k 0"
      "acyclic (owner_edges k)"
    using ok by (auto simp: input_ok_def)
  note p = revert_prev_owners [OF g(1) d(1,3)]
  have occ: "is_occupied k' t \<longleftrightarrow> t \<noteq> d \<and> is_occupied k t" for t
    using k'(1,2) by (auto simp: is_occupied_def)
  have live: "live_occupant k' e = Some j \<longleftrightarrow> j \<noteq> d \<and> live_occupant k e = Some j" for e j
    by (auto simp: live_occupant_iff occ k'(3))
  have "owner_edges k' \<subseteq> (owner_edges k)\<^sup>+"
  proof
    fix e assume "e \<in> owner_edges k'"
    then obtain i j where e: "e = (i, j)" "i < NUM_TASKS" "j \<noteq> d" "live_occupant k (k_prev_owners k' i) = Some j"
      by (auto simp: owner_edges_def live)
    have "i \<noteq> d"
    proof
      assume "i = d"
      then have "k_prev_owners k' i = 0" using p [OF e(2)] by (simp add: k'(5))
      then show False using e(4) live_occupant_zero [OF g(1)] by simp
    qed
    moreover have "(i, d) \<in> owner_edges k" if "k_prev_owners k i = pack_slot (k_gens k d) d"
      using that e(2) d by (auto simp: owner_edges_def live_occupant_iff)
    moreover have "(d, j) \<in> owner_edges k" if "k_prev_owners k i = pack_slot (k_gens k d) d" "i \<noteq> d"
      using that e(2,4) p [OF e(2)] d(1) k'(5) by (simp add: owner_edges_def)
    moreover have "(i, j) \<in> owner_edges k" if "k_prev_owners k i \<noteq> pack_slot (k_gens k d) d" "i \<noteq> d"
      using that e(2,4) p [OF e(2)] k'(5) by (simp add: owner_edges_def)
    ultimately show "e \<in> (owner_edges k)\<^sup>+"
      using e(1) by (cases "k_prev_owners k i = pack_slot (k_gens k d) d") (auto intro: trancl_trans)
  qed
  then have ac: "acyclic (owner_edges k')"
    using g(5) by (metis acyclic_def acyclic_subset trancl_id trans_trancl)
  have "k_input_owner k' < NUM_TASKS \<and> is_occupied k' (k_input_owner k')"
  proof (cases "k_input_owner k = d")
    case True
    then have o: "k_input_owner k' = owner_below k (k_prev_owners k d)"
      using revert_owner [OF g(1) d(1,3)] k'(6) by simp
    have "owner_below k (k_prev_owners k d) \<noteq> d"
    proof
      assume "owner_below k (k_prev_owners k d) = d"
      then have "(d, d) \<in> owner_edges k"
        using d(1,2) by (auto simp: owner_edges_def owner_below_def split: option.splits)
      then show False using g(5) by (auto simp: acyclic_def)
    qed
    then show ?thesis using owner_below_ok [OF g(4)] o by (simp add: occ)
  next
    case False
    then show ?thesis using revert_owner [OF g(1) d(1,3)] k'(6) g(2,3) by (simp add: occ)
  qed
  moreover have "gens_ok k'"
    using g(1) k' p is_occupied_not_Unused [OF d(3)] by (auto simp: gens_ok_def next_gen_pos [OF g(1)] d(1))
  ultimately show ?thesis using ac g(4) d(2) by (simp add: input_ok_def occ)
qed

text \<open>A new task in an empty slot is named by no entry.\<close>

lemma input_ok_birth:
  assumes ok: "input_ok k" and s: "s < NUM_TASKS" "k_states k s = Unused" "unat (k_next_gen k) + 1 < 2 ^ 55"
    and k': "k_states k' = (k_states k)(s := Runnable)" "k_gens k' = (k_gens k)(s := k_next_gen k)"
      "k_next_gen k' = k_next_gen k + 1" "k_prev_owners k' = (k_prev_owners k)(s := 0)"
      "k_input_owner k' = k_input_owner k"
  shows "input_ok k'"
proof -
  have g: "gens_ok k" "k_input_owner k < NUM_TASKS" "is_occupied k (k_input_owner k)" "is_occupied k 0"
      "acyclic (owner_edges k)"
    using ok by (auto simp: input_ok_def)
  have n: "unat (k_next_gen k + 1) = unat (k_next_gen k) + 1" using s(3) by (simp add: unat_word_ariths)
  have b: "unat (k_next_gen k) < 2 ^ 56" using s(3) by simp
  have occ: "is_occupied k' t \<longleftrightarrow> t = s \<or> is_occupied k t" for t using k'(1) by (auto simp: is_occupied_def)
  have "k_next_gen k \<noteq> 0" using next_gen_pos [OF g(1)] by (simp add: unat_gt_0)
  then have "gens_ok k'"
    using g(1) s k' n by (auto simp: gens_ok_def less_Suc_eq)
  have old: "live_occupant k (k_prev_owners k i) = Some j" "i \<noteq> s"
    if "i < NUM_TASKS" "live_occupant k' (k_prev_owners k' i) = Some j" for i j
  proof -
    show "i \<noteq> s" using that live_occupant_zero [OF \<open>gens_ok k'\<close>] by (auto simp: k'(4))
    have "j \<noteq> s"
    proof
      assume "j = s"
      then have "k_prev_owners k i = pack_slot (k_next_gen k) s"
        using that \<open>i \<noteq> s\<close> by (auto simp: live_occupant_iff k')
      then have "drop_bit 8 (k_prev_owners k i) = k_next_gen k" using b s(1) by (simp add: drop_bit_pack_slot)
      then show False using prev_gen_bound [OF g(1) that(1)] by simp
    qed
    then show "live_occupant k (k_prev_owners k i) = Some j"
      using that \<open>i \<noteq> s\<close> by (auto simp: live_occupant_iff occ k')
  qed
  then have "owner_edges k' \<subseteq> owner_edges k" by (auto simp: owner_edges_def)
  then have "acyclic (owner_edges k')" using g(5) by (rule acyclic_subset [rotated])
  then show ?thesis using g \<open>gens_ok k'\<close> by (simp add: input_ok_def occ k'(5))
qed

section \<open>Reading keeps the ownership and the queue sound\<close>

definition kbd_ok :: "kernel \<Rightarrow> bool" where
  "kbd_ok k \<longleftrightarrow> input_ok k \<and> kq_inv (k_kbd k)"

lemma kbd_ok_input: "kbd_ok k \<Longrightarrow> input_ok k" and kbd_ok_queue: "kbd_ok k \<Longrightarrow> kq_inv (k_kbd k)"
  by (simp_all add: kbd_ok_def)

lemma input_ok_owner_below:
  assumes "input_ok k"
  shows "input_ok (k\<lparr>k_input_owner := owner_below k p\<rparr>)"
proof -
  have "live_occupant (k\<lparr>k_input_owner := owner_below k p\<rparr>) = live_occupant k"
    by (rule live_occupant_cong) simp_all
  then show ?thesis
    using assms owner_below_ok [of k p] by (simp add: input_ok_def gens_ok_def owner_edges_def is_occupied_def)
qed

lemma kbd_ok_interrupt: "kbd_ok k \<Longrightarrow> kbd_ok (snd (interrupt_key_check b k))"
proof -
  assume k: "kbd_ok k"
  have "kbd_ok (keyboard_owner_changed (k\<lparr>k_input_owner := owner_below k p\<rparr>))" for p
    using k input_ok_owner_below [of k p] input_ok_cong [of "keyboard_owner_changed (k\<lparr>k_input_owner := owner_below k p\<rparr>)"
        "k\<lparr>k_input_owner := owner_below k p\<rparr>"]
    by (simp add: kbd_ok_def keyboard_owner_changed_def kq_inv_trim)
  moreover have "kbd_ok (k\<lparr>k_pending_kill := x\<rparr>)" for x
    using k input_ok_cong [of "k\<lparr>k_pending_kill := x\<rparr>" k] by (simp add: kbd_ok_def)
  ultimately show ?thesis
    using k by (auto simp: interrupt_key_check_def Let_def split: option.split)
qed

lemma interrupt_control:
  "fst (interrupt_key_check b k) \<noteq> Verdict_Byte \<Longrightarrow> b = KEY_INTERRUPT \<or> b = KEY_QUIT"
  by (auto simp: interrupt_key_check_def Let_def split: if_splits option.splits)

text \<open>Steps that only read the keyboards: the tables they may change are the ownership and the queue.\<close>

definition unread :: "kernel \<Rightarrow> kernel" where
  "unread k = k\<lparr>k_kbd := keyqueue_new 0 0, k_serial := [], k_usb := [], k_pending_kill := 0, k_input_owner := 0\<rparr>"

definition reads_only :: "kernel \<Rightarrow> kernel \<Rightarrow> bool" where
  "reads_only k k' \<longleftrightarrow> unread k' = unread k"

lemma reads_only_refl [simp]: "reads_only k k"
  by (simp add: reads_only_def)

lemma reads_only_trans: "reads_only k k1 \<Longrightarrow> reads_only k1 k2 \<Longrightarrow> reads_only k k2"
  by (simp add: reads_only_def)

lemma reads_only_updates [simp]:
  "reads_only k (k1\<lparr>k_kbd := q\<rparr>) = reads_only k k1"
  "reads_only k (k1\<lparr>k_serial := s\<rparr>) = reads_only k k1"
  "reads_only k (k1\<lparr>k_usb := u\<rparr>) = reads_only k k1"
  "reads_only k (k1\<lparr>k_pending_kill := p\<rparr>) = reads_only k k1"
  "reads_only k (k1\<lparr>k_input_owner := i\<rparr>) = reads_only k k1"
  by (simp_all add: reads_only_def unread_def)

lemma kbd_ok_set_kbd: "kbd_ok (k\<lparr>k_kbd := q\<rparr>) \<longleftrightarrow> input_ok k \<and> kq_inv q"
  using input_ok_cong [of "k\<lparr>k_kbd := q\<rparr>" k] by (simp add: kbd_ok_def)

lemma poll_ok:
  "reads_only k (snd (poll_serial k)) \<and> k_kbd (snd (poll_serial k)) = k_kbd k \<and>
    input_ok (snd (poll_serial k)) = input_ok k"
  "reads_only k (snd (poll_usb k)) \<and> k_kbd (snd (poll_usb k)) = k_kbd k \<and>
    input_ok (snd (poll_usb k)) = input_ok k"
  by (auto simp: poll_serial_def poll_usb_def split: prod.split)

lemma kbd_ok_poll:
  assumes "kbd_ok k" "reads_only k0 k"
  shows "kbd_ok (snd (poll_serial k)) \<and> reads_only k0 (snd (poll_serial k))"
    and "kbd_ok (snd (poll_usb k)) \<and> reads_only k0 (snd (poll_usb k))"
  using assms poll_ok [of k] reads_only_trans [of k0 k] by (auto simp: kbd_ok_def)

lemma device_byte_ok:
  assumes "kbd_ok k"
  shows "kbd_ok (snd (keyboard_device_byte k)) \<and> reads_only k (snd (keyboard_device_byte k))"
proof -
  define k1 where "k1 = k\<lparr>k_kbd := expire (expire (k_kbd k) (k_ticks k)) (k_ticks k)\<rparr>"
  have k1: "kbd_ok k1" "reads_only k k1"
    using assms by (simp_all add: k1_def kbd_ok_set_kbd kbd_ok_def kq_inv_expire)
  have "snd (keyboard_device_byte k) \<in> {snd (poll_serial k1), snd (poll_usb k1),
      snd (poll_serial (snd (poll_usb k1))), snd (poll_usb (snd (poll_serial k1)))}"
    by (auto simp: keyboard_device_byte_def Let_def inside_usb_key_def inside_serial_key_def k1_def
        split: prod.split option.split)
  then show ?thesis using kbd_ok_poll [OF k1] kbd_ok_poll [of "snd (poll_usb k1)" k] kbd_ok_poll [of "snd (poll_serial k1)" k]
    by auto
qed

lemma interrupt_reads_only: "reads_only k (snd (interrupt_key_check b k))"
  by (auto simp: interrupt_key_check_def Let_def keyboard_owner_changed_def split: option.split)

lemma take_one_ok:
  assumes "kbd_ok k"
  shows "kbd_ok (snd (take_one w k)) \<and> reads_only k (snd (take_one w k))"
proof (cases "keyboard_device_byte k")
  case (Pair d k1)
  have k1: "kbd_ok k1" "reads_only k k1" using device_byte_ok [OF assms] Pair by auto
  show ?thesis
  proof (cases d)
    case None
    then show ?thesis using k1 Pair by (simp add: take_one_def)
  next
    case (Some bs)
    obtain b s where bs: "bs = (b, s)" by force
    obtain v k2 where v: "interrupt_key_check b k1 = (v, k2)" by force
    have k2: "kbd_ok k2" "reads_only k k2"
      using kbd_ok_interrupt [OF k1(1), of b] interrupt_reads_only [of k1 b] k1(2) v reads_only_trans by auto
    have "v \<noteq> Verdict_Byte \<Longrightarrow> b \<noteq> ESC \<and> (b < 0x20 \<or> b = DEL)"
      using interrupt_control [of b k1] v by (auto simp: KEY_INTERRUPT_def KEY_QUIT_def ESC_def DEL_def)
    then have "v \<noteq> Verdict_Byte \<Longrightarrow> kq_inv (kq_flush (k_kbd k2) (Some b))"
      using k2(1) by (intro kq_inv_flush) (auto simp: kbd_ok_def)
    then show ?thesis
      using k2 Pair Some bs v by (auto simp: take_one_def kbd_ok_set_kbd dest: kbd_ok_input kbd_ok_queue kq_inv_push)
  qed
qed

lemma key_waiting_loop_ok:
  "kbd_ok k \<Longrightarrow> kbd_ok (snd (key_waiting_loop n k)) \<and> reads_only k (snd (key_waiting_loop n k))"
proof (induction n arbitrary: k)
  case (Suc n)
  then show ?case
    using take_one_ok [OF Suc.prems, of False] by (auto split: prod.split intro: reads_only_trans)
qed simp

lemma read_ahead_loop_ok:
  "kbd_ok k \<Longrightarrow> kbd_ok (snd (read_ahead_loop n k)) \<and> reads_only k (snd (read_ahead_loop n k))"
proof (induction n arbitrary: k)
  case (Suc n)
  then show ?case
    using take_one_ok [OF Suc.prems, of True] by (auto split: prod.split took.split intro: reads_only_trans)
qed simp

lemma flush_loop_ok:
  "kbd_ok k \<Longrightarrow> kbd_ok (snd (flush_loop n e k)) \<and> reads_only k (snd (flush_loop n e k))"
proof (induction n arbitrary: k e)
  case (Suc n)
  then show ?case
    using take_one_ok [OF Suc.prems, of True] by (auto split: prod.split took.split intro: reads_only_trans)
qed simp

lemma key_waiting_ok:
  "kbd_ok k \<Longrightarrow> kbd_ok (snd (keyboard_key_waiting r k)) \<and> reads_only k (snd (keyboard_key_waiting r k))"
  by (simp add: keyboard_key_waiting_def key_waiting_loop_ok)

lemma poll_keyboard_ok:
  "kbd_ok k \<Longrightarrow> kbd_ok (snd (poll_keyboard_byte r k)) \<and> reads_only k (snd (poll_keyboard_byte r k))"
  using key_waiting_ok [of k r]
  by (auto simp: poll_keyboard_byte_def kbd_ok_set_kbd split: prod.split bool.split)
     (auto simp: kbd_ok_def dest: kq_inv_pop)

lemma key_wait_answer_ok:
  "kbd_ok k \<Longrightarrow> kbd_ok (snd (key_wait_answer r us k)) \<and> reads_only k (snd (key_wait_answer r us k))"
  using key_waiting_ok [of k r] by (auto simp: key_wait_answer_def split: prod.split bool.split)

lemma read_ahead_ok:
  "kbd_ok k \<Longrightarrow> kbd_ok (snd (read_keyboard_ahead r k)) \<and> reads_only k (snd (read_keyboard_ahead r k))"
  by (simp add: read_keyboard_ahead_def read_ahead_loop_ok)

lemma flush_input_ok:
  "kbd_ok k \<Longrightarrow> kbd_ok (keyboard_flush_input r k) \<and> reads_only k (keyboard_flush_input r k)"
  using flush_loop_ok [of k READ_AHEAD_MAX 0]
  by (auto simp: keyboard_flush_input_def kbd_ok_set_kbd split: prod.split bool.split)
     (auto simp: kbd_ok_def intro: kq_inv_flush)

section \<open>Interrupt keys\<close>

lemma bit_quit: "bit PENDING_KILL_BY_QUIT n \<longleftrightarrow> n = 63"
  unfolding PENDING_KILL_BY_QUIT_def bit_push_bit_iff bit_1_iff by auto

lemma quit_bit_clear:
  fixes w :: u64
  assumes "unat w < 2 ^ 63"
  shows "w AND NOT PENDING_KILL_BY_QUIT = w" "(w OR PENDING_KILL_BY_QUIT) AND NOT PENDING_KILL_BY_QUIT = w"
proof -
  have "unat w div 2 ^ 63 = 0" using assms by simp
  then have "drop_bit 63 w = 0" by (simp add: word_unat_eq_iff drop_bit_eq_div unat_div)
  then have "\<not> bit (drop_bit 63 w) 0" by (simp only: bit_0_eq) simp
  then have b: "\<not> bit w 63" by (simp only: bit_drop_bit_eq comp_apply add_0_right) simp
  show "w AND NOT PENDING_KILL_BY_QUIT = w" "(w OR PENDING_KILL_BY_QUIT) AND NOT PENDING_KILL_BY_QUIT = w"
    using b by (intro bit_word_eqI; auto simp: bit_and_iff bit_or_iff bit_not_iff bit_quit)+
qed

lemma task_id_bounds:
  assumes "gens_ok k" "t < NUM_TASKS" "k_states k t \<noteq> Unused"
  shows "unat (pack_slot (k_gens k t) t) < 2 ^ 63" "pack_slot (k_gens k t) t \<noteq> 0"
proof -
  have "unat (pack_slot (k_gens k t) t) = unat (k_gens k t) * 256 + t"
    using gens_ok_bound [OF assms(1,2)] assms(2) by (intro pack_slot_unat) auto
  moreover have "k_gens k t \<noteq> 0" using assms by (simp add: gens_ok_def)
  moreover have "t < 256" using assms(2) by simp
  ultimately show "unat (pack_slot (k_gens k t) t) < 2 ^ 63" "pack_slot (k_gens k t) t \<noteq> 0"
    using gens_ok_bound [OF assms(1,2)] by (auto simp: unat_eq_0)
qed

definition detach :: "kernel \<Rightarrow> kernel" where
  "detach k = snd (interrupt_key_check KEY_QUIT k)"

lemma input_ok_id:
  assumes "input_ok k"
  shows "task_id_of k (k_input_owner k) = Some (pack_slot (k_gens k (k_input_owner k)) (k_input_owner k))"
  using assms is_occupied_not_Unused by (auto simp: input_ok_def task_id_of_Some)

lemma detach_moves:
  assumes "input_ok k" "k_input_owner k \<noteq> 0" "\<not> k_fg_command k (k_input_owner k)"
    "\<not> task_waited_on k (k_input_owner k)"
  shows "detach k = keyboard_owner_changed (k\<lparr>k_input_owner := owner_below k (k_prev_owners k (k_input_owner k))\<rparr>)"
  using assms input_ok_id [OF assms(1)] by (simp add: detach_def interrupt_key_check_def Let_def)

lemma detach_zero: "k_input_owner k = 0 \<Longrightarrow> detach k = k"
  by (simp add: detach_def interrupt_key_check_def)

lemma owner_below_not_self:
  assumes "acyclic (owner_edges k)" "t < NUM_TASKS" "t \<noteq> 0"
  shows "owner_below k (k_prev_owners k t) \<noteq> t"
proof
  assume "owner_below k (k_prev_owners k t) = t"
  then have "(t, t) \<in> owner_edges k"
    using assms(2,3) by (auto simp: owner_edges_def owner_below_def split: option.splits)
  then show False using assms(1) by (auto simp: acyclic_def)
qed

text \<open>(C29) Ctrl+backslash is never lost on a task other than the boot shell: it is consumed, and it
  either marks exactly the owning task for termination (a foreground command, or a task somebody waits
  for) or takes the keyboard away from it and gives it to another live task.\<close>

theorem quit_key_never_ignored:
  assumes "input_ok k" "k_input_owner k \<noteq> 0"
  shows "fst (interrupt_key_check KEY_QUIT k) = Verdict_Consumed \<and>
    (if k_fg_command k (k_input_owner k) \<or> task_waited_on k (k_input_owner k)
     then kill_pending_for (snd (interrupt_key_check KEY_QUIT k)) (k_input_owner k)
     else k_input_owner (snd (interrupt_key_check KEY_QUIT k)) \<noteq> k_input_owner k \<and>
       is_occupied (snd (interrupt_key_check KEY_QUIT k)) (k_input_owner (snd (interrupt_key_check KEY_QUIT k))))"
proof -
  let ?o = "k_input_owner k"
  have g: "gens_ok k" "?o < NUM_TASKS" "is_occupied k ?o" "is_occupied k 0" "acyclic (owner_edges k)"
    using assms by (auto simp: input_ok_def)
  note id = input_ok_id [OF assms(1)]
  have "unat (pack_slot (k_gens k ?o) ?o) < 2 ^ 63" "pack_slot (k_gens k ?o) ?o \<noteq> 0"
    using task_id_bounds [OF g(1,2)] is_occupied_not_Unused [OF g(3)] by auto
  then have "kill_pending_for (k\<lparr>k_pending_kill := pack_slot (k_gens k ?o) ?o OR PENDING_KILL_BY_QUIT\<rparr>) ?o"
    using id by (simp add: kill_pending_for_def Let_def quit_bit_clear task_id_of_def split: if_splits)
  then show ?thesis
    using id assms(2) owner_below_not_self [OF g(5,2) assms(2)] owner_below_ok [OF g(4), of "k_prev_owners k ?o"]
    by (auto simp: interrupt_key_check_def Let_def keyboard_owner_changed_def is_occupied_def)
qed

lemma finite_owner_edges: "finite (owner_edges k)"
proof (rule finite_subset)
  show "owner_edges k \<subseteq> {..<NUM_TASKS} \<times> {..<NUM_TASKS}" using owner_edgesD by auto
qed simp

lemma detach_count:
  assumes "input_ok k" "\<forall>t. \<not> k_fg_command k t \<and> \<not> task_waited_on k t"
    "card ((owner_edges k)\<^sup>+ `` {k_input_owner k}) < n"
  shows "k_input_owner ((detach ^^ n) k) = 0"
  using assms
proof (induction n arbitrary: k)
  case (Suc n)
  show ?case
  proof (cases "k_input_owner k = 0")
    case True
    then have "(detach ^^ m) k = k" for m by (induction m) (simp_all add: detach_zero)
    then show ?thesis using True by (simp del: funpow.simps)
  next
    case False
    let ?o = "k_input_owner k" and ?k = "detach k"
    have d: "?k = keyboard_owner_changed (k\<lparr>k_input_owner := owner_below k (k_prev_owners k ?o)\<rparr>)"
      using detach_moves [OF Suc.prems(1) False] Suc.prems(2) by simp
    have e: "owner_edges ?k = owner_edges k"
      using live_occupant_cong [of ?k k] by (simp add: d owner_edges_def keyboard_owner_changed_def)
    have ok: "input_ok ?k" using input_ok_owner_below [OF Suc.prems(1)] by (simp add: d keyboard_owner_changed_def)
    have w: "\<forall>t. \<not> k_fg_command ?k t \<and> \<not> task_waited_on ?k t"
      using Suc.prems(2) by (simp add: d keyboard_owner_changed_def task_waited_on_def)
    have no: "k_input_owner ?k = owner_below k (k_prev_owners k ?o)" by (simp add: d keyboard_owner_changed_def)
    have "k_input_owner ((detach ^^ n) ?k) = 0"
    proof (cases "k_input_owner ?k = 0")
      case True
      then have "(detach ^^ m) ?k = ?k" for m by (induction m) (simp_all add: detach_zero)
      then show ?thesis using True by simp
    next
      case False
      then have step: "(?o, k_input_owner ?k) \<in> owner_edges k"
        using no Suc.prems(1) by (auto simp: owner_below_def owner_edges_def input_ok_def split: option.splits)
      let ?A = "(owner_edges k)\<^sup>+ `` {k_input_owner ?k}" and ?B = "(owner_edges k)\<^sup>+ `` {?o}"
      have "?A \<subseteq> ?B" using step by (auto intro: trancl_into_trancl2)
      moreover have "k_input_owner ?k \<in> ?B" "k_input_owner ?k \<notin> ?A"
        using step Suc.prems(1) by (auto simp: input_ok_def acyclic_def)
      moreover have "finite ?B" using finite_owner_edges by (simp add: finite_Image)
      ultimately have "card ?A < card ?B" by (intro psubset_card_mono) auto
      then have "card ((owner_edges ?k)\<^sup>+ `` {k_input_owner ?k}) < n" using Suc.prems(3) e by simp
      then show ?thesis using Suc.IH [OF ok w] by simp
    qed
    then show ?thesis by (simp add: funpow_Suc_right del: funpow.simps)
  qed
qed simp

text \<open>(C30) The keyboard can always be brought back: with no foreground command and no waiter, as many
  presses of Ctrl+backslash as there are task slots return it to the boot shell, from any sound state.\<close>

theorem detach_reaches_boot_shell:
  assumes "input_ok k" "\<forall>t. \<not> k_fg_command k t \<and> \<not> task_waited_on k t"
  shows "k_input_owner ((detach ^^ NUM_TASKS) k) = 0"
proof (rule detach_count [OF assms])
  let ?B = "(owner_edges k)\<^sup>+ `` {k_input_owner k}"
  have "?B \<subseteq> {..<NUM_TASKS} - {k_input_owner k}"
  proof
    fix j assume "j \<in> ?B"
    then have "(k_input_owner k, j) \<in> (owner_edges k)\<^sup>+" by simp
    moreover from this obtain i where "(i, j) \<in> owner_edges k" by (auto elim: tranclE)
    ultimately show "j \<in> {..<NUM_TASKS} - {k_input_owner k}"
      using owner_edgesD assms(1) by (auto simp: input_ok_def acyclic_def)
  qed
  then have "card ?B \<le> card ({..<NUM_TASKS} - {k_input_owner k})" by (intro card_mono) auto
  also have "\<dots> < NUM_TASKS" using assms(1) by (simp add: input_ok_def)
  finally show "card ?B < NUM_TASKS" .
qed

definition sample_owner :: kernel where
  "sample_owner = kernel_new\<lparr>
     k_states := (k_states kernel_new)(6 := Runnable),
     k_gens := (k_gens kernel_new)(0 := 1, 1 := 2, 6 := 3), k_next_gen := 4,
     k_input_owner := 6, k_prev_owners := (k_prev_owners kernel_new)(6 := 0x100)\<rparr>"

lemma sample_owner_ok: "input_ok sample_owner"
proof -
  have f: "k_states sample_owner = (\<lambda>i. if i < 2 \<or> i = 6 then Runnable else Unused)"
      "k_gens sample_owner = (\<lambda>i. if i = 0 then 1 else if i = 1 then 2 else if i = 6 then 3 else 0)"
      "k_next_gen sample_owner = 4" "k_input_owner sample_owner = 6"
      "k_prev_owners sample_owner = (\<lambda>i. if i = 6 then 0x100 else 0)"
    by (auto simp: sample_owner_def kernel_new_def fun_eq_iff)
  have g: "gens_ok sample_owner"
    by (auto simp: gens_ok_def f drop_bit_eq_div)
  have "owner_edges sample_owner \<subseteq> {(6, 0)}"
  proof
    fix e assume "e \<in> owner_edges sample_owner"
    then obtain i j where e: "e = (i, j)" "live_occupant sample_owner (k_prev_owners sample_owner i) = Some j"
      by (auto simp: owner_edges_def)
    have i: "i = 6" using e(2) live_occupant_zero [OF g] by (auto simp: f split: if_splits)
    have "j = task_id_slot 0x100" using e(2) i task_id_slot_pack [of j "k_gens sample_owner j"]
      by (auto simp: live_occupant_iff f(5) simp del: task_id_slot_pack)
    then show "e \<in> {(6, 0)}" using e i by (simp add: task_id_slot_def push_bit_eq_mult)
  qed
  then have "acyclic (owner_edges sample_owner)"
    by (rule acyclic_subset [rotated]) (auto simp: acyclic_def trancl_insert)
  then show ?thesis using g by (simp add: input_ok_def is_occupied_def f NUM_TASKS_def)
qed

theorem quit_key_never_ignored_witness:
  "fst (interrupt_key_check KEY_QUIT sample_owner) = Verdict_Consumed \<and>
   k_input_owner (snd (interrupt_key_check KEY_QUIT sample_owner)) \<noteq> 6"
proof -
  have "k_input_owner sample_owner = 6" "\<not> k_fg_command sample_owner 6" "\<not> task_waited_on sample_owner 6"
    by (simp_all add: sample_owner_def kernel_new_def task_waited_on_def list_ex_iff)
  then show ?thesis using quit_key_never_ignored [OF sample_owner_ok] by simp
qed

theorem detach_reaches_boot_shell_witness:
  "k_input_owner sample_owner = 6 \<and> k_input_owner ((detach ^^ NUM_TASKS) sample_owner) = 0"
proof -
  have "k_input_owner sample_owner = 6" "\<forall>t. \<not> k_fg_command sample_owner t \<and> \<not> task_waited_on sample_owner t"
    by (simp_all add: sample_owner_def kernel_new_def task_waited_on_def list_ex_iff)
  then show ?thesis using detach_reaches_boot_shell [OF sample_owner_ok] by simp
qed

end
