(* ===== verification/Kernel_Sched.thy ===== *)
theory Kernel_Sched
  imports Kernel_Ipc
begin

text \<open>
  The scheduler of \<open>src/kernel/src/tasks.rs\<close>: which task may run on which core, the round-robin
  pick, saving and restoring trap frames, blocking and yielding, and the questions \<open>src/kernel/src/smp.rs\<close>
  answers about the cores. The core an entry is made on is the argument \<open>core\<close>, its trap frame \<open>frame\<close>;
  an answer \<open>None\<close> is the kernel halting because not even the idle task is runnable. Switching address
  spaces is not part of the model.
\<close>

section \<open>Placement\<close>

definition secondaries_up :: "kernel \<Rightarrow> bool" where
  "secondaries_up k = list_ex (k_secondaries k) [0..<MAX_CORES]"

definition is_boot :: "kernel \<Rightarrow> nat \<Rightarrow> bool" where
  "is_boot k core \<longleftrightarrow> core = k_boot_core k"

definition up_cores :: "kernel \<Rightarrow> nat list" where
  "up_cores k = filter (\<lambda>c. k_secondaries k c \<or> c = k_boot_core k) [0..<MAX_CORES]"

definition is_runnable :: "kernel \<Rightarrow> nat \<Rightarrow> bool" where
  "is_runnable k t \<longleftrightarrow> k_states k t = Runnable"

definition may_run_on :: "kernel \<Rightarrow> nat \<Rightarrow> nat \<Rightarrow> bool" where
  "may_run_on k core t =
     (if \<not> is_runnable k t then False
      else if t = IDLE then True
      else if (case running_core k t of Some c \<Rightarrow> c \<noteq> core | None \<Rightarrow> False) then False
      else if is_boot k core then \<not> is_spawnable t \<or> \<not> secondaries_up k
      else is_spawnable t)"

text \<open>The slots after \<open>cand\<close> in turn, at most \<open>n\<close> of them.\<close>

fun scan_loop :: "nat \<Rightarrow> nat \<Rightarrow> (nat \<Rightarrow> bool) \<Rightarrow> nat option" where
  "scan_loop 0 cand wanted = None"
| "scan_loop (Suc n) cand wanted =
     (if wanted (succ_slot cand) then Some (succ_slot cand) else scan_loop n (succ_slot cand) wanted)"

definition scan_from :: "nat \<Rightarrow> (nat \<Rightarrow> bool) \<Rightarrow> nat option" where
  "scan_from start wanted = scan_loop NUM_TASKS start wanted"

definition next_runnable :: "kernel \<Rightarrow> nat \<Rightarrow> nat \<Rightarrow> nat option" where
  "next_runnable k core start =
     (case scan_from start (\<lambda>c. c \<noteq> IDLE \<and> may_run_on k core c) of
        Some t \<Rightarrow> Some t
      | None \<Rightarrow> if may_run_on k core IDLE then Some IDLE else None)"

definition next_or_halt :: "kernel \<Rightarrow> nat \<Rightarrow> nat \<Rightarrow> nat option" where
  "next_or_halt k core start = next_runnable k core start"

definition next_at_tick :: "nat \<Rightarrow> kernel \<Rightarrow> (nat \<times> kernel) option" where
  "next_at_tick core k =
     (case next_runnable k core (k_round k core) of
        None \<Rightarrow> None
      | Some t \<Rightarrow> Some (t, k\<lparr>k_round := (k_round k)(core := t)\<rparr>))"

section \<open>Switching\<close>

definition IDLE_REGION_SIZE :: u64 where "IDLE_REGION_SIZE = 0x1000"

definition idle_context :: "kernel \<Rightarrow> cpu_context" where
  "idle_context k =
     context_zeroed\<lparr>cx_sp_el0 := k_idle_base k + IDLE_REGION_SIZE, cx_elr_el1 := k_idle_base k\<rparr>"

definition save_frame :: "nat \<Rightarrow> cpu_context \<Rightarrow> kernel \<Rightarrow> kernel" where
  "save_frame current frame k =
     (if current \<noteq> IDLE then k\<lparr>k_tasks := (k_tasks k)(current := frame)\<rparr> else k)"

definition set_current :: "nat \<Rightarrow> nat \<Rightarrow> kernel \<Rightarrow> kernel" where
  "set_current core slot k = k\<lparr>k_current := (k_current k)(core := slot)\<rparr>"

definition switch_to :: "nat \<Rightarrow> nat \<Rightarrow> kernel \<Rightarrow> cpu_context \<times> kernel" where
  "switch_to core t k =
     (if t = IDLE then idle_context k else k_tasks k t, set_current core t k)"

text \<open>What an entry answers: the value for the caller's first register, the frame to return to and the
  state; or nothing when the kernel halts.\<close>

type_synonym outcome = "(u64 \<times> cpu_context \<times> kernel) option"

definition resume_as :: "nat \<Rightarrow> nat \<Rightarrow> kernel \<Rightarrow> outcome" where
  "resume_as core t k = (case switch_to core t k of (fr, k1) \<Rightarrow> Some (cx_gpr fr 0, fr, k1))"

definition yield_current_and_switch :: "nat \<Rightarrow> cpu_context \<Rightarrow> kernel \<Rightarrow> outcome" where
  "yield_current_and_switch core frame k =
     (let current = k_current k core in
      case next_or_halt k core current of
        None \<Rightarrow> None
      | Some t \<Rightarrow>
          if t = current then Some (cx_gpr frame 0, frame, k)
          else resume_as core t
                 (save_frame current (frame\<lparr>cx_gpr := (cx_gpr frame)(0 := 0)\<rparr>) k))"

definition block_current_and_switch_to ::
  "nat \<Rightarrow> cpu_context \<Rightarrow> wait_reason \<Rightarrow> nat option \<Rightarrow> kernel \<Rightarrow> outcome" where
  "block_current_and_switch_to core frame reason pref k =
     (let current = k_current k core;
          k1 = set_state current (Blocked reason) (save_frame current frame k);
          pick = (case pref of
                    Some p \<Rightarrow> if p \<noteq> current \<and> may_run_on k1 core p then Some p else next_or_halt k1 core current
                  | None \<Rightarrow> next_or_halt k1 core current)
      in case pick of None \<Rightarrow> None | Some t \<Rightarrow> resume_as core t k1)"

definition block_current_and_switch :: "nat \<Rightarrow> cpu_context \<Rightarrow> wait_reason \<Rightarrow> kernel \<Rightarrow> outcome" where
  "block_current_and_switch core frame reason k = block_current_and_switch_to core frame reason None k"

definition on_secondary_tick :: "nat \<Rightarrow> cpu_context \<Rightarrow> kernel \<Rightarrow> (cpu_context \<times> kernel) option" where
  "on_secondary_tick core frame k =
     (let current = k_current k core in
      case next_at_tick core k of
        None \<Rightarrow> None
      | Some (t, k1) \<Rightarrow>
          if t = current then Some (frame, k1) else Some (switch_to core t (save_frame current frame k1)))"

definition reschedule_if_idle :: "nat \<Rightarrow> cpu_context \<Rightarrow> kernel \<Rightarrow> (cpu_context \<times> kernel) option" where
  "reschedule_if_idle core frame k =
     (if k_current k core \<noteq> IDLE then Some (frame, k)
      else case next_or_halt k core IDLE of
        None \<Rightarrow> None
      | Some t \<Rightarrow> if t \<noteq> IDLE then Some (switch_to core t k) else Some (frame, k))"

text \<open>The first pass over the idle network waiter, entered on the network card's interrupt.\<close>

fun net_waiter :: "nat list \<Rightarrow> kernel \<Rightarrow> nat option" where
  "net_waiter [] k = None"
| "net_waiter (i # is) k =
     (case k_states k i of Blocked (Wait_NetInput _) \<Rightarrow> Some i | _ \<Rightarrow> net_waiter is k)"

definition on_net_irq :: "nat \<Rightarrow> cpu_context \<Rightarrow> kernel \<Rightarrow> cpu_context \<times> kernel" where
  "on_net_irq core frame k =
     (let current = k_current k core in
      case net_waiter [0..<NUM_TASKS] k of
        None \<Rightarrow> (frame, k)
      | Some i \<Rightarrow>
          (let k1 = set_state i Runnable (set_x0 i 0 k) in
           if i \<noteq> current then switch_to core i (save_frame current frame k1) else (frame, k1)))"

section \<open>Kicks and core information\<close>

text \<open>The cores that are kicked: each idle core other than this one takes the first waiting task it may
  run, and no two are kicked for the same task.\<close>

fun kick_loop :: "kernel \<Rightarrow> nat \<Rightarrow> nat list \<Rightarrow> nat list \<Rightarrow> nat list" where
  "kick_loop k me [] waiting = []"
| "kick_loop k me (core # cores) waiting =
     (if core = me \<or> k_current k core \<noteq> IDLE then kick_loop k me cores waiting
      else case List.find (\<lambda>t. may_run_on k core t) waiting of
        None \<Rightarrow> kick_loop k me cores waiting
      | Some t \<Rightarrow> core # kick_loop k me cores (removeAll t waiting))"

definition waiting_tasks :: "kernel \<Rightarrow> nat list" where
  "waiting_tasks k =
     filter (\<lambda>t. t \<noteq> IDLE \<and> t \<notin> (k_current k) ` set (up_cores k) \<and> is_runnable k t) [0..<NUM_TASKS]"

definition kick_idle_cores :: "nat \<Rightarrow> kernel \<Rightarrow> nat list" where
  "kick_idle_cores me k =
     (if \<not> list_ex (\<lambda>c. k_current k c = IDLE \<and> c \<noteq> me) (up_cores k) then []
      else if waiting_tasks k = [] then []
      else kick_loop k me (up_cores k) (waiting_tasks k))"

definition CORE_INFO_THIS :: u64 where "CORE_INFO_THIS = 0"
definition CORE_INFO_BUSY :: u64 where "CORE_INFO_BUSY = 1"
definition CORE_INFO_UP :: u64 where "CORE_INFO_UP = 2"
definition CORE_INFO_TASK_CORE :: u64 where "CORE_INFO_TASK_CORE = 3"
definition CORE_INFO_NO_CORE :: u64 where "CORE_INFO_NO_CORE = - 2"
definition CORE_INFO_BAD_OP :: u64 where "CORE_INFO_BAD_OP = - 1"

definition core_busy_mask :: "kernel \<Rightarrow> u64" where
  "core_busy_mask k =
     foldl (\<lambda>m c. m OR push_bit c 1) 0 (filter (\<lambda>c. is_spawnable (k_current k c)) (up_cores k))"

definition core_info :: "nat \<Rightarrow> u64 \<Rightarrow> u64 \<Rightarrow> kernel \<Rightarrow> u64" where
  "core_info core op arg k =
     (if op = CORE_INFO_THIS then of_nat core
      else if op = CORE_INFO_BUSY then core_busy_mask k
      else if op = CORE_INFO_UP then of_nat (length (up_cores k))
      else if op = CORE_INFO_TASK_CORE then
        (case Option.bind (task_index (unat arg)) (running_core k) of
           Some c \<Rightarrow> of_nat c | None \<Rightarrow> CORE_INFO_NO_CORE)
      else CORE_INFO_BAD_OP)"

definition relocate_current :: "nat \<Rightarrow> nat \<Rightarrow> kernel \<Rightarrow> kernel" where
  "relocate_current src dst k =
     (if src = dst then k
      else k\<lparr>k_current := ((k_current k)(dst := k_current k src))(src := IDLE)\<rparr>)"

section \<open>The pick\<close>

lemma slot_reached:
  assumes "t < NUM_TASKS"
  shows "\<exists>i. 1 \<le> i \<and> i \<le> NUM_TASKS \<and> (c + i) mod NUM_TASKS = t"
proof -
  have n: "NUM_TASKS = 11" by (simp add: NUM_TASKS_def)
  let ?r = "c mod 11"
  let ?i = "if ?r < t then t - ?r else t + 11 - ?r"
  have r: "?r < 11" by simp
  have i: "1 \<le> ?i" "?i \<le> 11" "?r + ?i = t \<or> ?r + ?i = t + 11" using assms r by (auto simp: n)
  have "(c + ?i) mod 11 = (?r + ?i) mod 11" by (simp add: mod_add_left_eq)
  also have "\<dots> = t" using i(3) assms unfolding n by (metis mod_add_self2 mod_less)
  finally show ?thesis using i(1,2) unfolding n by blast
qed

lemma scan_loop_Some:
  assumes "scan_loop n c wanted = Some t"
  shows "\<exists>i. 1 \<le> i \<and> i \<le> n \<and> t = (c + i) mod NUM_TASKS \<and> wanted t \<and>
    (\<forall>j. 1 \<le> j \<and> j < i \<longrightarrow> \<not> wanted ((c + j) mod NUM_TASKS))"
  using assms
proof (induction n arbitrary: c)
  case (Suc n)
  show ?case
  proof (cases "wanted (succ_slot c)")
    case True
    then show ?thesis using Suc.prems by (auto simp: succ_slot_def intro!: exI [of _ 1])
  next
    case False
    have shift: "(succ_slot c + j) mod NUM_TASKS = (c + Suc j) mod NUM_TASKS" for j
      by (simp add: succ_slot_def mod_add_left_eq)
    from Suc False obtain i where i: "1 \<le> i" "i \<le> n" "t = (succ_slot c + i) mod NUM_TASKS" "wanted t"
        "\<forall>j. 1 \<le> j \<and> j < i \<longrightarrow> \<not> wanted ((succ_slot c + j) mod NUM_TASKS)"
      by (auto split: if_splits)
    have "\<not> wanted ((c + j) mod NUM_TASKS)" if "1 \<le> j" "j < Suc i" for j
    proof (cases "j = 1")
      case True
      then show ?thesis using False by (simp add: succ_slot_def)
    next
      case False
      then have j: "j = Suc (j - 1)" "1 \<le> j - 1" "j - 1 < i" using that by auto
      then show ?thesis using i(5) shift [of "j - 1"] by metis
    qed
    then show ?thesis using i(1-4) shift [of i] by (intro exI [of _ "Suc i"]) auto
  qed
qed simp

lemma scan_loop_None:
  "scan_loop n c wanted = None \<Longrightarrow> 1 \<le> i \<Longrightarrow> i \<le> n \<Longrightarrow> \<not> wanted ((c + i) mod NUM_TASKS)"
proof (induction n arbitrary: c i)
  case (Suc n)
  have w: "\<not> wanted (succ_slot c)" "scan_loop n (succ_slot c) wanted = None"
    using Suc.prems(1) by (auto split: if_splits)
  show ?case
  proof (cases "i = 1")
    case True
    then show ?thesis using w(1) by (simp add: succ_slot_def)
  next
    case False
    then have i: "1 \<le> i - 1" "i - 1 \<le> n" "c + i = Suc (c + (i - 1))" using Suc.prems by auto
    have "(succ_slot c + (i - 1)) mod NUM_TASKS = (c + i) mod NUM_TASKS"
      unfolding i(3) by (simp add: succ_slot_def mod_add_left_eq)
    then show ?thesis using Suc.IH [OF w(2) i(1,2)] by simp
  qed
qed simp

lemma scan_from_None: "scan_from c wanted = None \<Longrightarrow> t < NUM_TASKS \<Longrightarrow> \<not> wanted t"
  using slot_reached [of t c] scan_loop_None [of NUM_TASKS c wanted] by (auto simp: scan_from_def)

lemma next_runnable_total:
  assumes "k_states k IDLE = Runnable"
  shows "\<exists>t. next_runnable k core start = Some t \<and> t < NUM_TASKS \<and> may_run_on k core t \<and>
    (t \<noteq> IDLE \<or> (\<nexists>u. u < NUM_TASKS \<and> u \<noteq> IDLE \<and> may_run_on k core u))"
proof (cases "scan_from start (\<lambda>c. c \<noteq> IDLE \<and> may_run_on k core c)")
  case None
  then have "next_runnable k core start = Some IDLE"
    using assms by (simp add: next_runnable_def may_run_on_def is_runnable_def)
  moreover have "\<nexists>u. u < NUM_TASKS \<and> u \<noteq> IDLE \<and> may_run_on k core u"
    using scan_from_None [OF None] by blast
  ultimately show ?thesis
    using assms by (simp add: may_run_on_def is_runnable_def IDLE_def NUM_TASKS_def)
next
  case (Some t)
  then have "t \<noteq> IDLE" "may_run_on k core t" "t < NUM_TASKS"
    using scan_loop_Some [OF Some [unfolded scan_from_def]] by (auto simp: NUM_TASKS_def)
  then show ?thesis using Some by (simp add: next_runnable_def)
qed

lemma tick_pick:
  assumes "may_run_on k core t" "t \<noteq> IDLE" "1 \<le> d" "(k_round k core + d) mod NUM_TASKS = t"
  shows "\<exists>j k'. 1 \<le> j \<and> j \<le> d \<and> next_at_tick core k = Some ((k_round k core + j) mod NUM_TASKS, k') \<and>
    k_round k' core = (k_round k core + j) mod NUM_TASKS"
proof -
  let ?w = "\<lambda>c. c \<noteq> IDLE \<and> may_run_on k core c"
  have t: "t < NUM_TASKS" using assms(4) by (auto simp: NUM_TASKS_def)
  then obtain u where u: "scan_from (k_round k core) ?w = Some u"
    using scan_from_None [of "k_round k core" ?w t] assms(1,2) by (cases "scan_from (k_round k core) ?w") auto
  then obtain i where i: "1 \<le> i" "u = (k_round k core + i) mod NUM_TASKS"
      "\<forall>j. 1 \<le> j \<and> j < i \<longrightarrow> \<not> ?w ((k_round k core + j) mod NUM_TASKS)"
    using scan_loop_Some [of NUM_TASKS "k_round k core" ?w u] by (auto simp: scan_from_def)
  have "i \<le> d" using i(3) assms by (metis leI)
  then show ?thesis using u i by (auto simp: next_at_tick_def next_runnable_def intro!: exI [of _ i])
qed

lemma picked_within:
  assumes ticks: "\<forall>i. \<exists>t k'. next_at_tick core (ks i) = Some (t, k') \<and> k_round (ks (Suc i)) core = k_round k' core"
    and may: "\<forall>i. may_run_on (ks i) core t" "t \<noteq> IDLE"
    and d: "1 \<le> d" "d \<le> n" "(k_round (ks m) core + d) mod NUM_TASKS = t"
  shows "\<exists>i<n. map_option fst (next_at_tick core (ks (m + i))) = Some t"
  using d
proof (induction n arbitrary: m d)
  case (Suc n)
  obtain j k' where j: "1 \<le> j" "j \<le> d" "next_at_tick core (ks m) = Some ((k_round (ks m) core + j) mod NUM_TASKS, k')"
      "k_round k' core = (k_round (ks m) core + j) mod NUM_TASKS"
    using tick_pick [OF may(1) [rule_format] may(2) Suc.prems(1,3)] by blast
  show ?case
  proof (cases "j = d")
    case True
    then show ?thesis using j(3) Suc.prems(3) by (intro exI [of _ 0]) simp
  next
    case False
    have r: "k_round (ks (Suc m)) core = (k_round (ks m) core + j) mod NUM_TASKS"
      using ticks [rule_format, of m] j(3,4) by auto
    have "(k_round (ks (Suc m)) core + (d - j)) mod NUM_TASKS = (k_round (ks m) core + j + (d - j)) mod NUM_TASKS"
      unfolding r by (rule mod_add_left_eq)
    then have "(k_round (ks (Suc m)) core + (d - j)) mod NUM_TASKS = t" using j(2) Suc.prems(3) by simp
    moreover have "1 \<le> d - j" "d - j \<le> n" using False j(1,2) Suc.prems(2) by auto
    ultimately obtain i where "i < n" "map_option fst (next_at_tick core (ks (Suc m + i))) = Some t"
      using Suc.IH [of "d - j" "Suc m"] by blast
    then show ?thesis by (intro exI [of _ "Suc i"]) simp
  qed
qed simp

section \<open>One core for each task\<close>

text \<open>The idle task is always runnable; each core runs a task that is runnable; and no two cores run the
  same one, the idle task apart.\<close>

definition cores_ok :: "kernel \<Rightarrow> bool" where
  "cores_ok k \<longleftrightarrow> k_states k IDLE = Runnable \<and>
     (\<forall>c<MAX_CORES. k_current k c < NUM_TASKS \<and> k_states k (k_current k c) = Runnable) \<and>
     (\<forall>c<MAX_CORES. \<forall>d<MAX_CORES. c \<noteq> d \<and> k_current k c = k_current k d \<longrightarrow> k_current k c = IDLE)"

lemma cores_ok_cong:
  "k_states k = k_states k' \<Longrightarrow> k_current k = k_current k' \<Longrightarrow> cores_ok k = cores_ok k'"
  by (simp add: cores_ok_def)

lemma running_core_iff:
  "running_core k t = None \<longleftrightarrow> t = IDLE \<or> (\<forall>c<MAX_CORES. k_current k c \<noteq> t)"
  "running_core k t = Some c \<Longrightarrow> c < MAX_CORES \<and> k_current k c = t \<and> t \<noteq> IDLE"
  by (auto simp: running_core_def find_None_iff find_Some_iff split: if_splits)

lemma may_run_alone:
  assumes "cores_ok k" "core < MAX_CORES" "may_run_on k core t" "t \<noteq> IDLE" "c < MAX_CORES" "k_current k c = t"
  shows "c = core"
proof (rule ccontr)
  assume "c \<noteq> core"
  obtain c0 where c0: "running_core k t = Some c0" using running_core_iff(1) [of k t] assms(4-6) by auto
  then have "c0 = core" using assms(3,4) by (auto simp: may_run_on_def split: if_splits)
  then have "k_current k core = t" using running_core_iff(2) [OF c0] by simp
  then show False using assms \<open>c \<noteq> core\<close> by (auto simp: cores_ok_def)
qed

lemma may_run_on_runnable: "may_run_on k core t \<Longrightarrow> k_states k t = Runnable"
  by (auto simp: may_run_on_def is_runnable_def split: if_splits)

text \<open>A core may leave its own task in any state as long as it then runs one it may run: \<open>cores_ok\<close> but for
  this core.\<close>

definition cores_ok_but :: "nat \<Rightarrow> kernel \<Rightarrow> bool" where
  "cores_ok_but core k \<longleftrightarrow> k_states k IDLE = Runnable \<and>
     (\<forall>c<MAX_CORES. k_current k c < NUM_TASKS \<and> (c \<noteq> core \<longrightarrow> k_states k (k_current k c) = Runnable)) \<and>
     (\<forall>c<MAX_CORES. \<forall>d<MAX_CORES. c \<noteq> d \<and> k_current k c = k_current k d \<longrightarrow> k_current k c = IDLE)"

lemma cores_ok_butI: "cores_ok k \<Longrightarrow> cores_ok_but core k"
  by (simp add: cores_ok_def cores_ok_but_def)

lemma may_run_alone_but:
  assumes "cores_ok_but core k" "core < MAX_CORES" "may_run_on k core t" "t \<noteq> IDLE" "c < MAX_CORES" "k_current k c = t"
  shows "c = core"
proof (rule ccontr)
  assume "c \<noteq> core"
  obtain c0 where c0: "running_core k t = Some c0" using running_core_iff(1) [of k t] assms(4-6) by auto
  then have "c0 = core" using assms(3,4) by (auto simp: may_run_on_def split: if_splits)
  then have "k_current k core = t" using running_core_iff(2) [OF c0] by simp
  then show False using assms \<open>c \<noteq> core\<close> by (auto simp: cores_ok_but_def)
qed

lemma cores_ok_switch:
  assumes "cores_ok_but core k" "core < MAX_CORES" "may_run_on k core t" "t < NUM_TASKS"
  shows "cores_ok (set_current core t k)"
proof -
  let ?k = "set_current core t k"
  have cur: "k_current ?k c = (if c = core then t else k_current k c)" for c by (simp add: set_current_def)
  have st: "k_states ?k = k_states k" by (simp add: set_current_def)
  have run: "k_states k t = Runnable" by (rule may_run_on_runnable [OF assms(3)])
  have alone: "t = IDLE \<or> k_current k c \<noteq> t" if "c < MAX_CORES" "c \<noteq> core" for c
    using may_run_alone_but [OF assms(1-3) _ that(1)] that(2) by blast
  have "k_current ?k c = IDLE"
    if "c < MAX_CORES" "d < MAX_CORES" "c \<noteq> d" "k_current ?k c = k_current ?k d" for c d
    using that alone [of c] alone [of d] assms(1) by (auto simp: cur cores_ok_but_def split: if_splits)
  then show ?thesis
    using assms(1,4) run by (simp add: cores_ok_def cores_ok_but_def cur st)
qed

lemma next_or_halt_ok:
  assumes "k_states k IDLE = Runnable"
  obtains t where "next_or_halt k core start = Some t" "t < NUM_TASKS" "may_run_on k core t"
  using next_runnable_total [OF assms, of core start] by (auto simp: next_or_halt_def)

lemma resume_as_ok:
  assumes "cores_ok_but core k" "core < MAX_CORES" "may_run_on k core t" "t < NUM_TASKS"
  obtains v fr where "resume_as core t k = Some (v, fr, set_current core t k)"
    "cores_ok (set_current core t k)"
  using cores_ok_switch [OF assms] by (auto simp: resume_as_def switch_to_def)

text \<open>Blocking the current task always finds another to run, and keeps one core for each task.\<close>

lemma block_current_ok:
  assumes "cores_ok k" "core < MAX_CORES" "k_current k core \<noteq> IDLE"
    and "\<And>p. pref = Some p \<Longrightarrow> p < NUM_TASKS"
  shows "\<exists>v fr t. block_current_and_switch_to core frame reason pref k =
      Some (v, fr, set_current core t (set_state (k_current k core) (Blocked reason) (save_frame (k_current k core) frame k))) \<and>
    cores_ok (set_current core t (set_state (k_current k core) (Blocked reason) (save_frame (k_current k core) frame k)))"
proof -
  let ?k1 = "set_state (k_current k core) (Blocked reason) (save_frame (k_current k core) frame k)"
  have f: "k_states ?k1 = (k_states k)(k_current k core := Blocked reason)" "k_current ?k1 = k_current k"
    by (simp_all add: set_state_def save_frame_def)
  have b: "cores_ok_but core ?k1"
    using assms(1-3) by (auto simp: cores_ok_but_def cores_ok_def f)
  have i: "k_states ?k1 IDLE = Runnable" using b by (simp add: cores_ok_but_def)
  obtain n where n: "next_or_halt ?k1 core (k_current k core) = Some n" "n < NUM_TASKS" "may_run_on ?k1 core n"
    using next_or_halt_ok [OF i] by blast
  have "\<exists>t. block_current_and_switch_to core frame reason pref k = resume_as core t ?k1 \<and>
      t < NUM_TASKS \<and> may_run_on ?k1 core t"
    using n assms(4) by (cases pref) (auto simp: block_current_and_switch_to_def Let_def split: if_splits)
  then obtain t where t: "block_current_and_switch_to core frame reason pref k = resume_as core t ?k1"
      "t < NUM_TASKS" "may_run_on ?k1 core t" by blast
  show ?thesis using resume_as_ok [OF b assms(2) t(3,2)] t(1) by metis
qed


lemma kernel_new_tick:
  "may_run_on kernel_new 0 0" "next_at_tick 0 kernel_new = Some (0, kernel_new\<lparr>k_round := (k_round kernel_new)(0 := 0)\<rparr>)"
proof -
  have r: "running_core kernel_new 0 = Some 0"
    by (simp add: running_core_def kernel_new_def IDLE_def FIRST_def MAX_CORES_def upt_rec)
  show m: "may_run_on kernel_new 0 0"
    using r by (simp add: may_run_on_def is_boot_def is_spawnable_def FIRST_SPAWNABLE_def is_runnable_def)
       (simp add: kernel_new_def)
  have n: "i \<noteq> 0 \<Longrightarrow> \<not> (i \<noteq> IDLE \<and> may_run_on kernel_new 0 i)" for i
    using may_run_on_runnable [of kernel_new 0 i] by (auto simp: kernel_new_def IDLE_def split: if_splits)
  have z: "k_round kernel_new 0 = 0" by (simp add: kernel_new_def)
  have idle: "k_states kernel_new IDLE = Runnable" by (simp add: kernel_new_def IDLE_def)
  have "next_runnable kernel_new 0 0 = Some 0"
    using next_runnable_total [OF idle, of 0 0] m n by (metis IDLE_def NUM_TASKS_def zero_neq_one zero_less_numeral)
  then show "next_at_tick 0 kernel_new = Some (0, kernel_new\<lparr>k_round := (k_round kernel_new)(0 := 0)\<rparr>)"
    by (simp add: next_at_tick_def z)
qed


end
