(* ===== verification/Loader.thy ===== *)
theory Loader
  imports Kernel_State Part_Table
begin

text \<open>
  The ELF loader (\<open>src/kernel/src/loader.rs\<close>): the headers it reads, the size of the region a
  program needs, the layout of that region, and how the region is filled: zeroed, the loadable
  segments copied in, the relative relocations applied. Files are byte lists and memory is a function
  from addresses; sums the source writes with a plain \<open>+\<close> wrap, as in a release build. Reading the
  boot volume through UEFI is not part of the model.
\<close>

section \<open>Layout\<close>

definition PAGE_SIZE :: u64 where "PAGE_SIZE = 4096"
definition STACK_PAGES :: u64 where "STACK_PAGES = 14"
definition GUARD_PAGES :: u64 where "GUARD_PAGES = 1"
definition HEAP_PAGES :: u64 where "HEAP_PAGES = 256"
definition SLOT_PAGES :: u64 where "SLOT_PAGES = of_nat SLOT_ALIGN div PAGE_SIZE"
definition TAIL_PAGES :: u64 where "TAIL_PAGES = HEAP_PAGES + GUARD_PAGES + STACK_PAGES"

definition image_max :: u64 where
  "image_max = (SLOT_PAGES - TAIL_PAGES) * PAGE_SIZE"

record tail_areas =
  tl_heap :: "u64 \<times> u64"
  tl_guard :: u64
  tl_stack :: "u64 \<times> u64"

definition region_end :: "u64 \<Rightarrow> u64 \<Rightarrow> u64" where
  "region_end base sz = base + sz"

definition tail_of :: "u64 \<Rightarrow> u64 \<Rightarrow> tail_areas option" where
  "tail_of base sz =
     (if sz < TAIL_PAGES * PAGE_SIZE then None
      else let e = region_end base sz;
               stack_base = e - STACK_PAGES * PAGE_SIZE;
               guard = stack_base - GUARD_PAGES * PAGE_SIZE;
               heap_base = guard - HEAP_PAGES * PAGE_SIZE
           in Some \<lparr>tl_heap = (heap_base, HEAP_PAGES * PAGE_SIZE), tl_guard = guard,
                    tl_stack = (stack_base, STACK_PAGES * PAGE_SIZE)\<rparr>)"

definition heap_area :: "u64 \<Rightarrow> u64 \<Rightarrow> u64 \<times> u64" where
  "heap_area base sz = (case tail_of base sz of Some t \<Rightarrow> tl_heap t | None \<Rightarrow> (0, 0))"

definition stack_area :: "u64 \<Rightarrow> u64 \<Rightarrow> u64 \<times> u64" where
  "stack_area base sz = (case tail_of base sz of Some t \<Rightarrow> tl_stack t | None \<Rightarrow> (0, 0))"

definition guard_page_addr :: "u64 \<times> u64 \<Rightarrow> u64 option" where
  "guard_page_addr region = map_option tl_guard (tail_of (fst region) (snd region))"

section \<open>The file's tables\<close>

definition MAX_PROGRAM_HEADERS :: nat where "MAX_PROGRAM_HEADERS = 16"
definition ELF_MAGIC :: "u8 list" where "ELF_MAGIC = [0x7f, 0x45, 0x4c, 0x46]"
definition ELFCLASS64 :: u8 where "ELFCLASS64 = 2"
definition ELFDATA2LSB :: u8 where "ELFDATA2LSB = 1"
definition ET_DYN :: u16 where "ET_DYN = 3"
definition EM_AARCH64 :: u16 where "EM_AARCH64 = 183"
definition PT_LOAD :: u32 where "PT_LOAD = 1"
definition R_AARCH64_RELATIVE :: u32 where "R_AARCH64_RELATIVE = 1027"

record elf_header =
  e_ident :: "u8 list"
  e_type :: u16
  e_machine :: u16
  e_version :: u32
  e_entry :: u64
  e_phoff :: u64
  e_shoff :: u64
  e_flags :: u32
  e_ehsize :: u16
  e_phentsize :: u16
  e_phnum :: u16
  e_shentsize :: u16
  e_shnum :: u16
  e_shstrndx :: u16

record program_header =
  p_type :: u32
  p_flags :: u32
  p_offset :: u64
  p_vaddr :: u64
  p_paddr :: u64
  p_filesz :: u64
  p_memsz :: u64
  p_align :: u64

record section_header =
  sh_name :: u32
  sh_type :: u32
  sh_flags :: u64
  sh_addr :: u64
  sh_offset :: u64
  sh_size :: u64
  sh_link :: u32
  sh_info :: u32
  sh_addralign :: u64
  sh_entsize :: u64

record rela =
  r_offset :: u64
  r_info :: u64
  r_addend :: u64

datatype loader_error =
    ConfigNotUtf8 | ConfigEmpty | PathEncoding | ProgramEmpty
  | Truncated | BadMagic | UnsupportedClass u8 | UnsupportedEndian u8 | UnexpectedElfType u16
  | WrongMachine u16 | TooManyProgramHeaders | NoLoadSegments | RegionTooLarge u64
  | SegmentOutsideRegion | SegmentFileSizeOverMemSize | UnsupportedRelocation u32

text \<open>A fixed-size piece of the file at an offset.\<close>

definition read_at :: "nat \<Rightarrow> u8 list \<Rightarrow> u64 \<Rightarrow> loader_error + u8 list" where
  "read_at n file offset =
     (case checked_add offset (of_nat n) of
        None \<Rightarrow> Inl Truncated
      | Some e \<Rightarrow> if unat e > length file then Inl Truncated else Inr (take n (drop (unat offset) file)))"

definition field :: "nat \<Rightarrow> nat \<Rightarrow> u8 list \<Rightarrow> u64" where
  "field a n b = le_num (slice a (a + n) b)"

definition elf_header_of :: "u8 list \<Rightarrow> elf_header" where
  "elf_header_of b =
     \<lparr>e_ident = slice 0 16 b, e_type = ucast (field 16 2 b), e_machine = ucast (field 18 2 b),
      e_version = ucast (field 20 4 b), e_entry = field 24 8 b, e_phoff = field 32 8 b, e_shoff = field 40 8 b,
      e_flags = ucast (field 48 4 b), e_ehsize = ucast (field 52 2 b), e_phentsize = ucast (field 54 2 b), e_phnum = ucast (field 56 2 b),
      e_shentsize = ucast (field 58 2 b), e_shnum = ucast (field 60 2 b), e_shstrndx = ucast (field 62 2 b)\<rparr>"

definition program_header_of :: "u8 list \<Rightarrow> program_header" where
  "program_header_of b =
     \<lparr>p_type = ucast (field 0 4 b), p_flags = ucast (field 4 4 b), p_offset = field 8 8 b,
      p_vaddr = field 16 8 b, p_paddr = field 24 8 b, p_filesz = field 32 8 b, p_memsz = field 40 8 b,
      p_align = field 48 8 b\<rparr>"

definition section_header_of :: "u8 list \<Rightarrow> section_header" where
  "section_header_of b =
     \<lparr>sh_name = ucast (field 0 4 b), sh_type = ucast (field 4 4 b), sh_flags = field 8 8 b,
      sh_addr = field 16 8 b, sh_offset = field 24 8 b, sh_size = field 32 8 b,
      sh_link = ucast (field 40 4 b), sh_info = ucast (field 44 4 b), sh_addralign = field 48 8 b,
      sh_entsize = field 56 8 b\<rparr>"

definition rela_of :: "u8 list \<Rightarrow> rela" where
  "rela_of b = \<lparr>r_offset = field 0 8 b, r_info = field 8 8 b, r_addend = field 16 8 b\<rparr>"

definition parse_elf_header :: "u8 list \<Rightarrow> loader_error + elf_header" where
  "parse_elf_header file =
     (case read_at 64 file 0 of
        Inl e \<Rightarrow> Inl e
      | Inr b \<Rightarrow>
          (let header = elf_header_of b; ident = e_ident header in
           if take 4 ident \<noteq> ELF_MAGIC then Inl BadMagic
           else if ident ! 4 \<noteq> ELFCLASS64 then Inl (UnsupportedClass (ident ! 4))
           else if ident ! 5 \<noteq> ELFDATA2LSB then Inl (UnsupportedEndian (ident ! 5))
           else if e_type header \<noteq> ET_DYN then Inl (UnexpectedElfType (e_type header))
           else if e_machine header \<noteq> EM_AARCH64 then Inl (WrongMachine (e_machine header))
           else Inr header))"

fun program_headers_loop :: "u8 list \<Rightarrow> elf_header \<Rightarrow> nat \<Rightarrow> nat \<Rightarrow> loader_error + program_header list" where
  "program_headers_loop file header i 0 = Inr []"
| "program_headers_loop file header i (Suc n) =
     (case read_at 56 file (e_phoff header + of_nat i * ucast (e_phentsize header)) of
        Inl e \<Rightarrow> Inl e
      | Inr b \<Rightarrow>
          (case program_headers_loop file header (i + 1) n of
             Inl e \<Rightarrow> Inl e | Inr phs \<Rightarrow> Inr (program_header_of b # phs)))"

definition parse_program_headers :: "u8 list \<Rightarrow> elf_header \<Rightarrow> loader_error + program_header list" where
  "parse_program_headers file header =
     (let count = unat (e_phnum header) in
      if count > MAX_PROGRAM_HEADERS then Inl TooManyProgramHeaders
      else program_headers_loop file header 0 count)"

definition read_section_header :: "u8 list \<Rightarrow> elf_header \<Rightarrow> u16 \<Rightarrow> loader_error + section_header" where
  "read_section_header file header index =
     (case read_at 64 file (e_shoff header + ucast index * ucast (e_shentsize header)) of
        Inl e \<Rightarrow> Inl e | Inr b \<Rightarrow> Inr (section_header_of b))"

definition section_name :: "u8 list \<Rightarrow> nat \<Rightarrow> u8 list" where
  "section_name strtab name_off = takeWhile (\<lambda>b. b \<noteq> 0) (drop name_off strtab)"

fun find_section_loop ::
  "u8 list \<Rightarrow> elf_header \<Rightarrow> u8 list \<Rightarrow> u8 list \<Rightarrow> nat \<Rightarrow> nat \<Rightarrow> loader_error + section_header option" where
  "find_section_loop file header strtab name i 0 = Inr None"
| "find_section_loop file header strtab name i (Suc n) =
     (case read_section_header file header (of_nat i) of
        Inl e \<Rightarrow> Inl e
      | Inr sh \<Rightarrow>
          if unat (sh_name sh) \<ge> length strtab then find_section_loop file header strtab name (i + 1) n
          else if section_name strtab (unat (sh_name sh)) = name then Inr (Some sh)
          else find_section_loop file header strtab name (i + 1) n)"

definition find_section_by_name :: "u8 list \<Rightarrow> elf_header \<Rightarrow> u8 list \<Rightarrow> loader_error + section_header option" where
  "find_section_by_name file header name =
     (if e_shoff header = 0 \<or> e_shnum header = 0 then Inr None
      else case read_section_header file header (e_shstrndx header) of
        Inl e \<Rightarrow> Inl e
      | Inr sh \<Rightarrow>
          (case checked_add (sh_offset sh) (sh_size sh) of
             None \<Rightarrow> Inl Truncated
           | Some strtab_end \<Rightarrow>
               if unat strtab_end > length file then Inl Truncated
               else find_section_loop file header (slice (unat (sh_offset sh)) (unat strtab_end) file) name 0
                      (unat (e_shnum header))))"

section \<open>Sizing and filling a region\<close>

definition div_ceil :: "u64 \<Rightarrow> u64 \<Rightarrow> u64" where
  "div_ceil a b = a div b + (if a mod b = 0 then 0 else 1)"

fun max_segment_end :: "u64 \<Rightarrow> program_header list \<Rightarrow> loader_error + u64" where
  "max_segment_end acc [] = Inr acc"
| "max_segment_end acc (ph # phs) =
     (if p_type ph = PT_LOAD
      then case checked_add (p_vaddr ph) (p_memsz ph) of
             None \<Rightarrow> Inl SegmentOutsideRegion
           | Some e \<Rightarrow> max_segment_end (max acc e) phs
      else max_segment_end acc phs)"

definition elf_region_size :: "u8 list \<Rightarrow> loader_error + elf_header \<times> program_header list \<times> u64" where
  "elf_region_size program =
     (case parse_elf_header program of Inl e \<Rightarrow> Inl e | Inr header \<Rightarrow>
      (case parse_program_headers program header of Inl e \<Rightarrow> Inl e | Inr phdrs \<Rightarrow>
       (case max_segment_end 0 phdrs of Inl e \<Rightarrow> Inl e | Inr max_end \<Rightarrow>
        if max_end = 0 then Inl NoLoadSegments
        else let code_pages = div_ceil max_end PAGE_SIZE;
                 region_pages = code_pages + TAIL_PAGES
             in if region_pages > SLOT_PAGES then Inl (RegionTooLarge region_pages)
                else Inr (header, phdrs, region_pages * PAGE_SIZE))))"

text \<open>Each step answers with the memory it leaves, also when it fails.\<close>

fun copy_segments ::
  "u8 list \<Rightarrow> u64 \<Rightarrow> u64 \<Rightarrow> program_header list \<Rightarrow> (u64 \<Rightarrow> u8) \<Rightarrow> loader_error option \<times> (u64 \<Rightarrow> u8)" where
  "copy_segments file region_base region_size [] m = (None, m)"
| "copy_segments file region_base region_size (ph # phs) m =
     (if p_type ph \<noteq> PT_LOAD then copy_segments file region_base region_size phs m
      else case checked_add (p_offset ph) (p_filesz ph) of
        None \<Rightarrow> (Some Truncated, m)
      | Some src_end \<Rightarrow>
          if unat src_end > length file then (Some Truncated, m)
          else (case checked_add (p_vaddr ph) (p_memsz ph) of
            None \<Rightarrow> (Some SegmentOutsideRegion, m)
          | Some seg_end \<Rightarrow>
              if seg_end > region_size then (Some SegmentOutsideRegion, m)
              else (case checked_sub (p_memsz ph) (p_filesz ph) of
                None \<Rightarrow> (Some SegmentFileSizeOverMemSize, m)
              | Some bss_len \<Rightarrow>
                  (let dst = region_base + p_vaddr ph;
                       m1 = mem_write m dst (slice (unat (p_offset ph)) (unat src_end) file);
                       m2 = mem_write m1 (dst + p_filesz ph) (replicate (unat bss_len) 0)
                   in copy_segments file region_base region_size phs m2))))"

definition le_bytes8 :: "u64 \<Rightarrow> u8 list" where
  "le_bytes8 v = map (\<lambda>i. ucast (drop_bit (8 * i) v)) [0..<8]"

fun reloc_loop ::
  "u8 list \<Rightarrow> u64 \<Rightarrow> u64 \<Rightarrow> nat \<Rightarrow> nat \<Rightarrow> (u64 \<Rightarrow> u8) \<Rightarrow> loader_error option \<times> (u64 \<Rightarrow> u8)" where
  "reloc_loop file table_start region_base i 0 m = (None, m)"
| "reloc_loop file table_start region_base i (Suc n) m =
     (case read_at 24 file (table_start + of_nat i * 24) of
        Inl e \<Rightarrow> (Some e, m)
      | Inr b \<Rightarrow>
          (let r = rela_of b; r_type = ucast (r_info r AND 0xffffffff) in
           if r_type \<noteq> R_AARCH64_RELATIVE then (Some (UnsupportedRelocation r_type), m)
           else reloc_loop file table_start region_base (i + 1) n
                  (mem_write m (region_base + r_offset r) (le_bytes8 (region_base + r_addend r)))))"

definition apply_relocations ::
  "u8 list \<Rightarrow> section_header \<Rightarrow> u64 \<Rightarrow> (u64 \<Rightarrow> u8) \<Rightarrow> loader_error option \<times> (u64 \<Rightarrow> u8)" where
  "apply_relocations file rela_shdr region_base m =
     (case checked_add (sh_offset rela_shdr) (sh_size rela_shdr) of
        None \<Rightarrow> (Some Truncated, m)
      | Some table_end \<Rightarrow>
          if unat table_end > length file then (Some Truncated, m)
          else reloc_loop file (sh_offset rela_shdr) region_base 0 (unat (sh_size rela_shdr) div 24) m)"

record loaded_program =
  lp_base :: u64
  lp_size :: u64
  lp_entry :: u64

definition lp_region :: "loaded_program \<Rightarrow> u64 \<times> u64" where
  "lp_region p = (lp_base p, lp_size p)"

definition stack_top :: "loaded_program \<Rightarrow> u64" where
  "stack_top p = region_end (lp_base p) (lp_size p)"

definition initial_context :: "loaded_program \<Rightarrow> cpu_context" where
  "initial_context p = context_zeroed\<lparr>cx_sp_el0 := stack_top p, cx_elr_el1 := lp_entry p\<rparr>"

definition RELA_DYN :: "u8 list" where
  "RELA_DYN = [0x2e, 0x72, 0x65, 0x6c, 0x61, 0x2e, 0x64, 0x79, 0x6e]"

definition populate_region ::
  "u8 list \<Rightarrow> elf_header \<Rightarrow> program_header list \<Rightarrow> u64 \<Rightarrow> u64 \<Rightarrow> (u64 \<Rightarrow> u8) \<Rightarrow>
     (loader_error + loaded_program) \<times> (u64 \<Rightarrow> u8)" where
  "populate_region program header phdrs region_base region_size m =
     (let m0 = mem_write m region_base (replicate (unat region_size) 0) in
      case copy_segments program region_base region_size phdrs m0 of
        (Some e, m1) \<Rightarrow> (Inl e, m1)
      | (None, m1) \<Rightarrow>
          (case find_section_by_name program header RELA_DYN of
             Inl e \<Rightarrow> (Inl e, m1)
           | Inr None \<Rightarrow>
               (Inr \<lparr>lp_base = region_base, lp_size = region_size, lp_entry = region_base + e_entry header\<rparr>, m1)
           | Inr (Some rela_shdr) \<Rightarrow>
               (case apply_relocations program rela_shdr region_base m1 of
                  (Some e, m2) \<Rightarrow> (Inl e, m2)
                | (None, m2) \<Rightarrow>
                    (Inr \<lparr>lp_base = region_base, lp_size = region_size,
                          lp_entry = region_base + e_entry header\<rparr>, m2))))"

section \<open>What a region holds\<close>

lemma le_num_Cons: "le_num (b # bs) = ucast b OR push_bit 8 (le_num bs)"
  by (simp add: le_num_def or.commute)

lemma le_num_bytes: "le_num (map (\<lambda>i. ucast (drop_bit (8 * i) v)) [0..<n]) = take_bit (8 * n) v"
proof (induction n arbitrary: v)
  case 0
  then show ?case by (simp add: le_num_def)
next
  case (Suc n)
  have "map (\<lambda>i. ucast (drop_bit (8 * i) v) :: u8) [0..<Suc n] =
      ucast v # map (\<lambda>i. ucast (drop_bit (8 * i) (drop_bit 8 v))) [0..<n]"
    by (simp add: upt_conv_Cons map_Suc_upt [symmetric] del: upt_Suc) (simp add: add.commute)
  then have "le_num (map (\<lambda>i. ucast (drop_bit (8 * i) v)) [0..<Suc n]) =
      ucast (ucast v :: u8) OR push_bit 8 (take_bit (8 * n) (drop_bit 8 v))"
    by (simp only: le_num_Cons Suc.IH)
  also have "\<dots> = take_bit (8 * Suc n) v"
    by (rule bit_word_eqI) (auto simp: bit_simps)
  finally show ?case .
qed

lemma le_num_le_bytes8 [simp]: "le_num (le_bytes8 v) = v" "length (le_bytes8 v) = 8"
  by (simp_all add: le_bytes8_def le_num_bytes del: upt_Suc) (simp add: take_bit_word_eq_self)

lemma mem_write_off:
  assumes "v + length bs \<le> 2 ^ 64" "off < 2 ^ 64"
  shows "mem_write m (base + of_nat v) bs (base + of_nat off) =
    (if v \<le> off \<and> off < v + length bs then bs ! (off - v) else m (base + of_nat off))"
proof -
  have d: "(base + of_nat off) - (base + of_nat v) = (of_nat off - of_nat v :: u64)" by simp
  have l: "length bs \<le> 2 ^ 64" using assms(1) by linarith
  show ?thesis
  proof (cases "v \<le> off")
    case True
    then have "(of_nat off - of_nat v :: u64) = of_nat (off - v)" by (simp add: of_nat_diff)
    then have "unat (of_nat off - of_nat v :: u64) = off - v" using assms(2) by (simp add: unat_of_nat)
    then show ?thesis using True mem_write_at [OF l, of m "base + of_nat v" "base + of_nat off"] d by auto
  next
    case False
    show ?thesis
    proof (cases "bs = []")
      case False
      have v: "v < 2 ^ 64" using assms(1) False by (cases bs) auto
      have "(of_nat off - of_nat v :: u64) = of_nat (2 ^ 64 + off - v)"
        using v by (simp add: of_nat_diff)
      then have "unat (of_nat off - of_nat v :: u64) = (2 ^ 64 + off - v) mod 2 ^ 64"
        by (simp only: unat_of_nat) simp
      then have "unat (of_nat off - of_nat v :: u64) = 2 ^ 64 + off - v"
        using \<open>\<not> v \<le> off\<close> by simp
      then show ?thesis
        using \<open>\<not> v \<le> off\<close> assms(1) mem_write_at [OF l, of m "base + of_nat v" "base + of_nat off"] d by auto
    qed auto
  qed
qed

text \<open>What a region holds after the copy: at each offset, the byte of the last loadable segment that
  covers it, the zero fill past the segment's file bytes included.\<close>

fun image_byte :: "u8 list \<Rightarrow> program_header list \<Rightarrow> nat \<Rightarrow> u8 \<Rightarrow> u8" where
  "image_byte img [] off d = d"
| "image_byte img (ph # phs) off d =
     image_byte img phs off
       (if p_type ph = PT_LOAD \<and> unat (p_vaddr ph) \<le> off \<and> off < unat (p_vaddr ph) + unat (p_memsz ph)
        then (if off - unat (p_vaddr ph) < unat (p_filesz ph)
              then img ! (unat (p_offset ph) + (off - unat (p_vaddr ph))) else 0)
        else d)"

text \<open>One segment: the checks it passed and the memory it leaves.\<close>

definition put_segment :: "u8 list \<Rightarrow> u64 \<Rightarrow> program_header \<Rightarrow> (u64 \<Rightarrow> u8) \<Rightarrow> u64 \<Rightarrow> u8" where
  "put_segment img base ph m =
     mem_write (mem_write m (base + p_vaddr ph)
        (slice (unat (p_offset ph)) (unat (p_offset ph) + unat (p_filesz ph)) img))
       (base + p_vaddr ph + p_filesz ph) (replicate (unat (p_memsz ph) - unat (p_filesz ph)) 0)"

definition segment_fits :: "u8 list \<Rightarrow> u64 \<Rightarrow> program_header \<Rightarrow> bool" where
  "segment_fits img region_size ph \<longleftrightarrow>
     unat (p_offset ph) + unat (p_filesz ph) \<le> length img \<and> unat (p_offset ph) + unat (p_filesz ph) < 2 ^ 64 \<and>
     unat (p_vaddr ph) + unat (p_memsz ph) \<le> unat region_size \<and> p_filesz ph \<le> p_memsz ph"

lemma copy_segments_Cons:
  "p_type ph = PT_LOAD \<Longrightarrow> segment_fits img sz ph \<Longrightarrow>
     copy_segments img base sz (ph # phs) m = copy_segments img base sz phs (put_segment img base ph m)"
  "p_type ph = PT_LOAD \<Longrightarrow> \<not> segment_fits img sz ph \<Longrightarrow>
     \<exists>e. copy_segments img base sz (ph # phs) m = (Some e, m)"
proof -
  assume t: "p_type ph = PT_LOAD"
  have z: "unat sz < 2 ^ 64" by (rule unat_u64_less)
  show "copy_segments img base sz (ph # phs) m = copy_segments img base sz phs (put_segment img base ph m)"
    if "segment_fits img sz ph"
  proof -
    from that z have a: "checked_add (p_offset ph) (p_filesz ph) = Some (p_offset ph + p_filesz ph)"
        "checked_add (p_vaddr ph) (p_memsz ph) = Some (p_vaddr ph + p_memsz ph)"
        "checked_sub (p_memsz ph) (p_filesz ph) = Some (p_memsz ph - p_filesz ph)"
      by (auto simp: segment_fits_def unat_checked_add checked_sub_def not_less)
    have b: "unat (p_offset ph + p_filesz ph) = unat (p_offset ph) + unat (p_filesz ph)"
        "unat (p_vaddr ph + p_memsz ph) = unat (p_vaddr ph) + unat (p_memsz ph)"
        "unat (p_memsz ph - p_filesz ph) = unat (p_memsz ph) - unat (p_filesz ph)"
      using that z by (auto simp: segment_fits_def unat_word_ariths unat_sub)
    have "\<not> p_vaddr ph + p_memsz ph > sz" using that b by (simp add: segment_fits_def not_less word_le_nat_alt)
    then show ?thesis using t a b that by (simp add: put_segment_def segment_fits_def Let_def)
  qed
  show "\<exists>e. copy_segments img base sz (ph # phs) m = (Some e, m)" if n: "\<not> segment_fits img sz ph"
  proof (rule ccontr)
    assume c: "\<nexists>e. copy_segments img base sz (ph # phs) m = (Some e, m)"
    from c t obtain s where s: "checked_add (p_offset ph) (p_filesz ph) = Some s" "unat s \<le> length img"
      by (auto split: option.splits if_splits)
    from c t s obtain l where l: "checked_add (p_vaddr ph) (p_memsz ph) = Some l" "l \<le> sz"
      by (auto split: option.splits if_splits)
    from c t s l obtain b where b: "checked_sub (p_memsz ph) (p_filesz ph) = Some b"
      by (auto split: option.splits if_splits)
    have "segment_fits img sz ph"
      using s l b by (auto simp: segment_fits_def unat_checked_add unat_word_ariths checked_sub_def word_le_nat_alt
          word_less_nat_alt split: if_splits)
    then show False using n by simp
  qed
qed

lemma put_segment_byte:
  assumes "segment_fits img sz ph" "off < 2 ^ 64"
  shows "put_segment img base ph m (base + of_nat off) =
    (if unat (p_vaddr ph) \<le> off \<and> off < unat (p_vaddr ph) + unat (p_memsz ph)
     then (if off - unat (p_vaddr ph) < unat (p_filesz ph)
           then img ! (unat (p_offset ph) + (off - unat (p_vaddr ph))) else 0)
     else m (base + of_nat off))"
proof -
  let ?v = "unat (p_vaddr ph)" and ?f = "unat (p_filesz ph)" and ?n = "unat (p_memsz ph)" and ?o = "unat (p_offset ph)"
  have fit: "?o + ?f \<le> length img" "?v + ?n < 2 ^ 64" "?f \<le> ?n"
    using assms(1) unat_u64_less [of sz] by (auto simp: segment_fits_def word_le_nat_alt)
  have l: "length (slice ?o (?o + ?f) img) = ?f" using fit(1) by (simp add: slice_def)
  have v: "base + p_vaddr ph = base + of_nat ?v" "base + p_vaddr ph + p_filesz ph = base + of_nat (?v + ?f)"
    by simp_all
  have A: "mem_write m' (base + of_nat (?v + ?f)) (replicate (?n - ?f) 0) (base + of_nat off) =
      (if ?v + ?f \<le> off \<and> off < ?v + ?n then 0 else m' (base + of_nat off))" for m'
    using fit assms(2) by (subst mem_write_off) auto
  have B: "mem_write m (base + of_nat ?v) (slice ?o (?o + ?f) img) (base + of_nat off) =
      (if ?v \<le> off \<and> off < ?v + ?f then img ! (?o + (off - ?v)) else m (base + of_nat off))"
    using fit assms(2) by (subst mem_write_off) (auto simp: l, auto simp: slice_def)
  show ?thesis unfolding put_segment_def unfolding v(2) unfolding v(1) unfolding A B using fit(3) by auto
qed

lemma copy_segments_bytes:
  assumes "copy_segments img base sz phs m = (None, m')" "off < 2 ^ 64"
  shows "m' (base + of_nat off) = image_byte img phs off (m (base + of_nat off))"
  using assms(1)
proof (induction phs arbitrary: m)
  case (Cons ph phs)
  show ?case
  proof (cases "p_type ph = PT_LOAD")
    case True
    then have fit: "segment_fits img sz ph" using Cons.prems copy_segments_Cons(2) [OF True, of img sz base phs m] by (auto simp del: copy_segments.simps)
    then show ?thesis
      using Cons.IH Cons.prems copy_segments_Cons(1) [OF True fit] put_segment_byte [OF fit assms(2), of base m] True by simp
  next
    case False
    then show ?thesis using Cons by simp
  qed
qed simp

lemma copy_segments_inside:
  assumes "snd (copy_segments img base sz phs m) a \<noteq> m a"
  shows "unat (a - base) < unat sz"
  using assms
proof (induction phs arbitrary: m)
  case (Cons ph phs)
  show ?case
  proof (cases "p_type ph = PT_LOAD")
    case True
    show ?thesis
    proof (cases "segment_fits img sz ph")
      case fit: True
      have "a = base + of_nat (unat (a - base))" by simp
      then have "put_segment img base ph m a \<noteq> m a \<Longrightarrow> unat (a - base) < unat (p_vaddr ph) + unat (p_memsz ph)"
        using put_segment_byte [OF fit unat_u64_less, of base m "a - base"] by (auto split: if_splits)
      then show ?thesis
        using Cons copy_segments_Cons(1) [OF True fit] fit by (fastforce simp: segment_fits_def)
    next
      case False
      then show ?thesis using Cons.prems copy_segments_Cons(2) [OF True False, of base phs m] by auto
    qed
  next
    case False
    then show ?thesis using Cons by simp
  qed
qed simp

lemma mem_write_inside:
  assumes "length bs \<le> 2 ^ 64" "mem_write m base bs a \<noteq> m a"
  shows "unat (a - base) < length bs"
  using assms mem_write_at [OF assms(1), of m base a] by (auto split: if_splits)

text \<open>(C32) A program starts with nothing in its region but its own image: without relocations, each byte
  of the region is the byte of the last loadable segment covering it and zero elsewhere, whatever the
  memory held before, and no byte outside the region changes.\<close>

theorem loaded_image_exact:
  assumes "populate_region img h phs base sz m = (Inr p, m')" "find_section_by_name img h RELA_DYN = Inr None"
    and "off < unat sz"
  shows "m' (base + of_nat off) = image_byte img phs off 0 \<and>
    (\<forall>a. m' a \<noteq> m a \<longrightarrow> unat (a - base) < unat sz) \<and> lp_region p = (base, sz)"
proof -
  let ?m0 = "mem_write m base (replicate (unat sz) 0)"
  have z: "off < 2 ^ 64" "unat sz \<le> 2 ^ 64" using assms(3) unat_u64_less [of sz] by auto
  have c: "copy_segments img base sz phs ?m0 = (None, m')" "lp_region p = (base, sz)"
    using assms(1,2) by (auto simp: populate_region_def lp_region_def Let_def split: prod.splits option.splits)
  have "?m0 (base + of_nat off) = 0"
    using mem_write_off [of 0 "replicate (unat sz) 0" off m base] assms(3) z by simp
  moreover have "unat (a - base) < unat sz" if "m' a \<noteq> m a" for a
    using copy_segments_inside [of img base sz phs "?m0" a] mem_write_inside [of "replicate (unat sz) 0" m base a]
      c(1) that z(2) by (cases "?m0 a = m a") auto
  ultimately show ?thesis using copy_segments_bytes [OF c(1) z(1)] c(2) by simp
qed

definition sample_header_plain :: elf_header where
  "sample_header_plain = \<lparr>e_ident = [], e_type = ET_DYN, e_machine = EM_AARCH64, e_version = 1, e_entry = 0,
     e_phoff = 64, e_shoff = 0, e_flags = 0, e_ehsize = 64, e_phentsize = 56, e_phnum = 1, e_shentsize = 64,
     e_shnum = 0, e_shstrndx = 0\<rparr>"

definition sample_segment :: program_header where
  "sample_segment = \<lparr>p_type = PT_LOAD, p_flags = 5, p_offset = 1, p_vaddr = 2, p_paddr = 2, p_filesz = 2,
     p_memsz = 4, p_align = 1\<rparr>"

theorem loaded_image_exact_witness:
  "snd (populate_region [9, 7, 8, 9] sample_header_plain [sample_segment] 0x1000 8 (\<lambda>_. 5)) (0x1000 + of_nat 3) = 8"
proof -
  have f: "find_section_by_name [9, 7, 8, 9] sample_header_plain RELA_DYN = Inr None"
    by (simp add: find_section_by_name_def sample_header_plain_def)
  obtain p m' where r: "populate_region [9, 7, 8, 9] sample_header_plain [sample_segment] 0x1000 8 (\<lambda>_. 5) = (Inr p, m')"
    by (simp add: populate_region_def f sample_segment_def checked_add_def checked_sub_def Let_def)
  have "image_byte [9, 7, 8, 9] [sample_segment] 3 0 = 8" by (simp add: sample_segment_def)
  then show ?thesis using loaded_image_exact [OF r f, of 3] r by simp
qed


section \<open>The layout of a region\<close>

lemma div_ceil_ge:
  assumes "b = 4096"
  shows "unat a \<le> unat (div_ceil a b) * 4096" "unat (div_ceil a b) \<le> 2 ^ 52"
proof -
  have a: "unat a < 2 ^ 64" by (rule unat_u64_less)
  have d: "unat (a div 4096) = unat a div 4096" by (simp add: unat_div)
  have m: "a mod 4096 = 0 \<longleftrightarrow> unat a mod 4096 = 0" by (simp add: unat_mod word_unat_eq_iff)
  have "unat (div_ceil a 4096) = unat a div 4096 + (if unat a mod 4096 = 0 then 0 else 1)"
    using a by (auto simp: div_ceil_def m unat_word_ariths d)
  then show "unat a \<le> unat (div_ceil a b) * 4096" "unat (div_ceil a b) \<le> 2 ^ 52"
    using a assms by auto
qed

lemma max_segment_end_le:
  "max_segment_end acc phs = Inr e \<Longrightarrow> acc \<le> e \<and>
     (\<forall>ph\<in>set phs. p_type ph = PT_LOAD \<longrightarrow> unat (p_vaddr ph) + unat (p_memsz ph) \<le> unat e)"
proof (induction phs arbitrary: acc)
  case (Cons ph phs)
  show ?case
  proof (cases "p_type ph = PT_LOAD")
    case True
    then obtain x where x: "checked_add (p_vaddr ph) (p_memsz ph) = Some x" "max_segment_end (max acc x) phs = Inr e"
      using Cons.prems by (auto split: option.splits)
    have "unat x = unat (p_vaddr ph) + unat (p_memsz ph)" using x(1) by (auto simp: unat_checked_add unat_word_ariths)
    then show ?thesis using Cons.IH [OF x(2)] by (auto simp: word_le_nat_alt max_def split: if_splits)
  next
    case False
    then show ?thesis using Cons by auto
  qed
qed simp

text \<open>A region is its program's pages and a fixed tail of 271.\<close>

lemma elf_region_size_pages:
  assumes "elf_region_size img = Inr (h, phs, sz)"
  obtains e c where "max_segment_end 0 phs = Inr e" "unat e \<le> c * 4096" "c + 271 \<le> 512"
    "unat sz = (c + 271) * 4096"
proof -
  obtain e where e: "max_segment_end 0 phs = Inr e" "sz = (div_ceil e PAGE_SIZE + TAIL_PAGES) * PAGE_SIZE"
      "div_ceil e PAGE_SIZE + TAIL_PAGES \<le> SLOT_PAGES"
    using assms(1) by (auto simp: elf_region_size_def Let_def not_less split: sum.splits if_splits)
  define c where "c = unat (div_ceil e PAGE_SIZE)"
  have c: "unat e \<le> c * 4096" "c \<le> 2 ^ 52" using div_ceil_ge [of PAGE_SIZE e] by (simp_all add: c_def PAGE_SIZE_def)
  have k: "TAIL_PAGES = 271" "SLOT_PAGES = 512"
    by (simp_all add: TAIL_PAGES_def HEAP_PAGES_def GUARD_PAGES_def STACK_PAGES_def SLOT_PAGES_def SLOT_ALIGN_def PAGE_SIZE_def)
  have p: "unat (div_ceil e PAGE_SIZE + TAIL_PAGES) = c + 271"
    using c(2) by (simp add: k unat_word_ariths c_def [symmetric])
  then have c3: "c + 271 \<le> 512" using e(3) by (simp add: word_le_nat_alt k)
  then have "unat sz = (c + 271) * 4096" unfolding e(2) unat_word_ariths(2) p by (simp add: PAGE_SIZE_def)
  then show ?thesis using that e(1) c(1) c3 by blast
qed

text \<open>(C33) The region sized for a program fits one 2 MiB slot and holds, in order and without overlap,
  every loadable segment, the heap, the guard page and the stack, which ends exactly with the region.\<close>

theorem region_layout:
  assumes "elf_region_size img = Inr (h, phs, sz)" "unat base + unat sz < 2 ^ 64"
  shows "unat sz \<le> SLOT_ALIGN \<and>
    (\<exists>t. tail_of base sz = Some t \<and>
       (\<forall>ph\<in>set phs. p_type ph = PT_LOAD \<longrightarrow>
          unat base + unat (p_vaddr ph) + unat (p_memsz ph) \<le> unat (fst (tl_heap t))) \<and>
       unat (fst (tl_heap t)) + unat (snd (tl_heap t)) = unat (tl_guard t) \<and>
       unat (tl_guard t) + unat PAGE_SIZE = unat (fst (tl_stack t)) \<and>
       unat (fst (tl_stack t)) + unat (snd (tl_stack t)) = unat base + unat sz)"
proof -
  obtain e c where e: "max_segment_end 0 phs = Inr e" and c: "unat e \<le> c * 4096" and c3: "c + 271 \<le> 512"
      and s: "unat sz = (c + 271) * 4096"
    using elf_region_size_pages [OF assms(1)] by blast
  have k: "TAIL_PAGES = 271"
    by (simp add: TAIL_PAGES_def HEAP_PAGES_def GUARD_PAGES_def STACK_PAGES_def)
  have b: "unat (base + sz) = unat base + unat sz" using assms(2) by (simp add: unat_word_ariths)
  have le: "57344 \<le> base + sz" "4096 \<le> base + sz - 57344" "1048576 \<le> base + sz - 57344 - 4096"
    using b s by (simp_all add: word_le_nat_alt unat_sub)
  have u: "unat (base + sz - 57344) = unat base + unat sz - 57344"
      "unat (base + sz - 57344 - 4096) = unat base + unat sz - 61440"
      "unat (base + sz - 57344 - 4096 - 1048576) = unat base + unat sz - 1110016"
    using le b by (simp_all only: unat_sub) simp_all
  then have u': "unat (base + sz - 61440) = unat base + unat sz - 61440"
      "unat (base + sz - 1110016) = unat base + unat sz - 1110016"
    by (simp_all add: diff_diff_eq)
  have t: "tail_of base sz = Some \<lparr>tl_heap = (base + sz - 57344 - 4096 - 1048576, 1048576),
      tl_guard = base + sz - 57344 - 4096, tl_stack = (base + sz - 57344, 57344)\<rparr>"
    using s by (simp add: tail_of_def k PAGE_SIZE_def word_less_nat_alt region_end_def Let_def STACK_PAGES_def
        GUARD_PAGES_def HEAP_PAGES_def)
  have "unat base + unat (p_vaddr ph) + unat (p_memsz ph) \<le> unat base + unat sz - 1110016"
    if "ph \<in> set phs" "p_type ph = PT_LOAD" for ph
    using max_segment_end_le [OF e] that c s by fastforce
  moreover have "unat sz \<le> SLOT_ALIGN" using s c3 by (simp add: SLOT_ALIGN_def)
  ultimately show ?thesis using s unfolding t by (simp add: u u' PAGE_SIZE_def)
qed

definition sample_ehdr :: "u8 list" where
  "sample_ehdr = [127, 69, 76, 70, 2, 1, 1, 0, 0, 0, 0, 0, 0, 0, 0, 0, 3, 0, 183, 0, 1, 0, 0, 0, 0, 0, 0, 0, 0, 0, 0, 0, 64, 0, 0, 0, 0, 0, 0, 0, 0, 0, 0, 0, 0, 0, 0, 0, 0, 0, 0, 0, 64, 0, 56, 0, 1, 0, 0, 0, 0, 0, 0, 0]"

definition sample_phdr :: "u8 list" where
  "sample_phdr = [1, 0, 0, 0, 5, 0, 0, 0, 0, 0, 0, 0, 0, 0, 0, 0, 0, 0, 0, 0, 0, 0, 0, 0, 0, 0, 0, 0, 0, 0, 0, 0, 120, 0, 0, 0, 0, 0, 0, 0, 0, 32, 0, 0, 0, 0, 0, 0, 0, 0, 0, 0, 0, 0, 0, 0]"

lemma sample_elf_size:
  "elf_region_size (sample_ehdr @ sample_phdr) =
     Inr (elf_header_of sample_ehdr, [program_header_of sample_phdr], 0x111000)"
proof -
  have l: "length sample_ehdr = 64" "length sample_phdr = 56" by (simp_all add: sample_ehdr_def sample_phdr_def)
  have h: "e_ident (elf_header_of sample_ehdr) = take 16 sample_ehdr" "e_type (elf_header_of sample_ehdr) = 3"
      "e_machine (elf_header_of sample_ehdr) = 183" "e_phoff (elf_header_of sample_ehdr) = 64"
      "e_phentsize (elf_header_of sample_ehdr) = 56" "e_phnum (elf_header_of sample_ehdr) = 1"
    by (simp_all add: elf_header_of_def field_def slice_def sample_ehdr_def le_num_def)
  have p: "p_type (program_header_of sample_phdr) = 1" "p_vaddr (program_header_of sample_phdr) = 0"
      "p_memsz (program_header_of sample_phdr) = 0x2000"
    by (simp_all add: program_header_of_def field_def slice_def sample_phdr_def le_num_def)
  have "parse_elf_header (sample_ehdr @ sample_phdr) = Inr (elf_header_of sample_ehdr)"
    by (simp add: parse_elf_header_def read_at_def checked_add_def l Let_def h ELF_MAGIC_def ELFCLASS64_def
        ELFDATA2LSB_def ET_DYN_def EM_AARCH64_def) (simp add: sample_ehdr_def)
  moreover have "parse_program_headers (sample_ehdr @ sample_phdr) (elf_header_of sample_ehdr) =
      Inr [program_header_of sample_phdr]"
    by (simp add: parse_program_headers_def Let_def h MAX_PROGRAM_HEADERS_def read_at_def checked_add_def l)
  ultimately show ?thesis
    by (simp add: elf_region_size_def p PT_LOAD_def checked_add_def div_ceil_def PAGE_SIZE_def TAIL_PAGES_def
        HEAP_PAGES_def GUARD_PAGES_def STACK_PAGES_def SLOT_PAGES_def SLOT_ALIGN_def Let_def)
qed

theorem region_layout_witness:
  "\<exists>t. tail_of 0x40000000 0x111000 = Some t \<and> unat (fst (tl_stack t)) + unat (snd (tl_stack t)) = 0x40111000"
proof -
  obtain h phs where "elf_region_size (sample_ehdr @ sample_phdr) = Inr (h, phs, 0x111000)"
    using sample_elf_size by blast
  from region_layout [OF this, of "0x40000000"] show ?thesis by auto
qed

end
