(* ===== verification/Kernel_Life.thy ===== *)
theory Kernel_Life
  imports Kernel_Input Kernel_Sched Loader
begin

text \<open>
  The life of a task (\<open>src/kernel/src/tasks.rs\<close>): the region allocator, the per-task byte stores, how a
  task is installed or spawned into a slot, what its end undoes, and how it is killed, on this core or on
  another. The release of the spawn staging is \<open>src/kernel/src/syscall.rs\<close>'s.
\<close>

section \<open>The region allocator\<close>

definition next_multiple_of :: "u64 \<Rightarrow> u64 \<Rightarrow> u64" where
  "next_multiple_of n a = (let r = n mod a in if r = 0 then n else n + (a - r))"

definition init_runtime_allocator :: "u64 \<Rightarrow> kernel \<Rightarrow> kernel" where
  "init_runtime_allocator max_addr k =
     k\<lparr>k_region_top := max_addr AND NOT (of_nat SLOT_ALIGN - 1)\<rparr>"

definition allocate_runtime_region :: "u64 \<Rightarrow> kernel \<Rightarrow> u64 \<times> kernel" where
  "allocate_runtime_region sz k =
     (let aligned = next_multiple_of sz (of_nat SLOT_ALIGN) in
      (k_region_top k - aligned, k\<lparr>k_region_top := k_region_top k - aligned\<rparr>))"

definition free_runtime_region :: "u64 \<Rightarrow> u64 \<Rightarrow> kernel \<Rightarrow> kernel" where
  "free_runtime_region base sz k =
     (let aligned = next_multiple_of sz (of_nat SLOT_ALIGN) in
      if k_region_top k = base then k\<lparr>k_region_top := base + aligned\<rparr> else k)"

section \<open>The per-task stores\<close>

definition ARGV_CAP :: nat where "ARGV_CAP = ARGV_MAX"
definition ENV_CAP :: nat where "ENV_CAP = ENV_MAX"
definition CWD_CAP :: nat where "CWD_CAP = CWD_MAX"
definition NS_CAP :: nat where "NS_CAP = NS_MAX"

definition set_argv :: "nat \<Rightarrow> u8 list \<Rightarrow> kernel \<Rightarrow> kernel" where
  "set_argv task blob k = k\<lparr>k_argv := (k_argv k)(task := take (min (length blob) ARGV_CAP) blob)\<rparr>"

definition clear_argv :: "nat \<Rightarrow> kernel \<Rightarrow> kernel" where
  "clear_argv task k = k\<lparr>k_argv := (k_argv k)(task := [])\<rparr>"

definition le_bytes4 :: "u32 \<Rightarrow> u8 list" where
  "le_bytes4 v = map (\<lambda>i. ucast (drop_bit (8 * i) v)) [0..<4]"

definition server_name :: "nat \<Rightarrow> u8 list option" where
  "server_name slot =
     (if slot = FSD_TASK then Some [0x66, 0x73, 0x64]
      else if slot = CON_TASK then Some [0x63, 0x6f, 0x6e, 0x64]
      else if slot = NET_TASK then Some [0x6e, 0x65, 0x74, 0x64]
      else if slot = ACCT_TASK then Some [0x61, 0x63, 0x63, 0x6f, 0x75, 0x6e, 0x74, 0x64]
      else None)"

definition set_name :: "nat \<Rightarrow> u8 list \<Rightarrow> kernel \<Rightarrow> kernel" where
  "set_name task name k =
     (let n = min (length name) (ARGV_CAP - 8) in
      k\<lparr>k_argv := (k_argv k)(task := le_bytes4 1 @ le_bytes4 (of_nat n) @ take n name)\<rparr>)"

definition set_env :: "nat \<Rightarrow> u8 list \<Rightarrow> kernel \<Rightarrow> kernel" where
  "set_env task blob k = k\<lparr>k_env := (k_env k)(task := take (min (length blob) ENV_CAP) blob)\<rparr>"

definition clear_env :: "nat \<Rightarrow> kernel \<Rightarrow> kernel" where
  "clear_env task k = k\<lparr>k_env := (k_env k)(task := [])\<rparr>"

definition set_cwd :: "nat \<Rightarrow> u8 list \<Rightarrow> kernel \<Rightarrow> kernel" where
  "set_cwd task path k = k\<lparr>k_cwd := (k_cwd k)(task := take (min (length path) CWD_CAP) path)\<rparr>"

definition clear_cwd :: "nat \<Rightarrow> kernel \<Rightarrow> kernel" where
  "clear_cwd task k = k\<lparr>k_cwd := (k_cwd k)(task := [])\<rparr>"

definition set_namespace :: "nat \<Rightarrow> u8 list \<Rightarrow> kernel \<Rightarrow> kernel" where
  "set_namespace task blob k = k\<lparr>k_ns := (k_ns k)(task := take (min (length blob) NS_CAP) blob)\<rparr>"

definition clear_namespace :: "nat \<Rightarrow> kernel \<Rightarrow> kernel" where
  "clear_namespace task k = k\<lparr>k_ns := (k_ns k)(task := [])\<rparr>"

definition set_stdout_target :: "nat \<Rightarrow> u64 \<Rightarrow> kernel \<Rightarrow> kernel" where
  "set_stdout_target task target k = k\<lparr>k_stdout := (k_stdout k)(task := target)\<rparr>"

definition reset_stdout_target :: "nat \<Rightarrow> kernel \<Rightarrow> kernel" where
  "reset_stdout_target task k = k\<lparr>k_stdout := (k_stdout k)(task := of_nat CON_TASK)\<rparr>"

definition release_staging :: "kernel \<Rightarrow> kernel" where
  "release_staging k =
     k\<lparr>k_staging := (k_staging k)\<lparr>sg_stager := 0, sg_env_len := 0, sg_image_end := 0, sg_argv_len := 0,
        sg_cwd_len := 0\<rparr>\<rparr>"

definition release_staging_of :: "nat \<Rightarrow> kernel \<Rightarrow> kernel" where
  "release_staging_of slot k =
     (let held = sg_stager (k_staging k) in
      if held \<noteq> 0 \<and> task_id_slot held = slot then release_staging k else k)"

section \<open>The end of a task\<close>

text \<open>Every task blocked in a call to \<open>dead\<close> is woken with an error.\<close>

definition fails_call :: "kernel \<Rightarrow> nat \<Rightarrow> nat \<Rightarrow> bool" where
  "fails_call k dead i = waits_for_reply (k_states k i) dead"

definition fail_call :: "nat \<Rightarrow> nat \<Rightarrow> kernel \<Rightarrow> kernel" where
  "fail_call dead i k =
     (if fails_call k dead i
      then set_state i Runnable (set_x0 i TASK_ERR_NO_SUCH_TASK (end_call i k))
      else k)"

definition fail_calls_to :: "nat \<Rightarrow> kernel \<Rightarrow> kernel" where
  "fail_calls_to dead k = fold (fail_call dead) [0..<NUM_TASKS] k"

definition end_task :: "nat \<Rightarrow> task_state \<Rightarrow> kernel \<Rightarrow> kernel" where
  "end_task i final_state k0 =
     (let k1 = k0\<lparr>k_doomed := (k_doomed k0)(i := 0)\<rparr>;
          (base, sz) = task_region k1 i;
          k2 = free_runtime_region base sz k1;
          k3 = revert_input_owner_if i k2;
          k4 = fail_calls_to i k3;
          k5 = release_staging_of i k4;
          k6 = end_call i k5;
          k7 = set_state i final_state k6;
          k8 = k7\<lparr>k_regions := (k_regions k7)(i := (0, 0))\<rparr>
      in reset_id i (reset_stdout_target i (clear_namespace i (set_kbd_raw i False (clear_env i
           (clear_cwd i (clear_argv i (clear_delegations_of i (clear_grant i (clear_sender_cred i
             (clear_mailbox i k8)))))))))))"

datatype ended = Ended_Now | Ended_OnCore nat

text \<open>\<open>None\<close>: the kernel halts, for a kill of the running task or of a running slot without an identity.\<close>

definition kill_task :: "nat \<Rightarrow> nat \<Rightarrow> kernel \<Rightarrow> (ended \<times> kernel) option" where
  "kill_task core i k =
     (if i = k_current k core then None
      else case running_core k i of
        Some c \<Rightarrow>
          (case task_id_of k i of
             None \<Rightarrow> None
           | Some ident \<Rightarrow> Some (Ended_OnCore c, k\<lparr>k_doomed := (k_doomed k)(i := ident)\<rparr>))
      | None \<Rightarrow> Some (Ended_Now, end_task i Unused k))"

definition switch_away_from_dead :: "nat \<Rightarrow> nat \<Rightarrow> kernel \<Rightarrow> (cpu_context \<times> kernel) option" where
  "switch_away_from_dead core dead k =
     (case next_or_halt k core dead of None \<Rightarrow> None | Some t \<Rightarrow> Some (switch_to core t k))"

definition kill_current_and_switch :: "nat \<Rightarrow> kernel \<Rightarrow> (cpu_context \<times> kernel) option" where
  "kill_current_and_switch core k =
     (let current = k_current k core in switch_away_from_dead core current (end_task current Unused k))"

definition exit_current_and_switch :: "nat \<Rightarrow> u64 \<Rightarrow> kernel \<Rightarrow> outcome" where
  "exit_current_and_switch core status k =
     (let current = k_current k core in
      case switch_away_from_dead core current (end_task current (Zombie (status AND 0xff)) k) of
        None \<Rightarrow> None | Some (fr, k1) \<Rightarrow> Some (cx_gpr fr 0, fr, k1))"

definition end_if_doomed :: "nat \<Rightarrow> cpu_context \<Rightarrow> kernel \<Rightarrow> (bool \<times> cpu_context \<times> kernel) option" where
  "end_if_doomed core frame k =
     (let current = k_current k core; marked = k_doomed k current in
      if marked = 0 then Some (False, frame, k)
      else if current = IDLE \<or> task_id_of k current \<noteq> Some marked then
        Some (False, frame, k\<lparr>k_doomed := (k_doomed k)(current := 0)\<rparr>)
      else case kill_current_and_switch core k of
        None \<Rightarrow> None | Some (fr, k1) \<Rightarrow> Some (True, fr, k1))"

section \<open>New tasks\<close>

definition install_task :: "nat \<Rightarrow> cpu_context \<Rightarrow> u64 \<times> u64 \<Rightarrow> kernel \<Rightarrow> kernel" where
  "install_task slot ctx region k =
     (let k1 = k\<lparr>k_tasks := (k_tasks k)(slot := ctx), k_regions := (k_regions k)(slot := region)\<rparr>
      in set_state slot Runnable (issue_generation slot (clear_previous_owner slot (clear_parent slot
           (clear_delegations_of slot k1)))))"

definition spawn_in :: "nat \<Rightarrow> nat \<Rightarrow> cpu_context \<Rightarrow> u64 \<times> u64 \<Rightarrow> kernel \<Rightarrow> kernel" where
  "spawn_in i spawner ctx region k =
     (let k1 = k\<lparr>k_tasks := (k_tasks k)(i := ctx), k_regions := (k_regions k)(i := region)\<rparr>;
          k2 = issue_generation i (clear_delegations_at i (clear_delegations_of i k1))
      in set_state i Runnable (set_delegate spawner i (set_delegate i spawner (clear_previous_owner i
           (set_parent i spawner k2)))))"

definition spawn :: "nat \<Rightarrow> cpu_context \<Rightarrow> u64 \<times> u64 \<Rightarrow> kernel \<Rightarrow> nat option \<times> kernel" where
  "spawn core ctx region k =
     (case List.find (\<lambda>i. k_states k i = Unused) [FIRST_SPAWNABLE..<NUM_TASKS] of
        None \<Rightarrow> (None, k)
      | Some i \<Rightarrow> (Some i, spawn_in i (k_current k core) ctx region k))"

text \<open>The boot: the shell, the idle task and the servers that were loaded.\<close>

definition boot_task :: "nat \<Rightarrow> loaded_program option \<Rightarrow> kernel \<Rightarrow> kernel" where
  "boot_task slot prog k =
     (case prog of
        None \<Rightarrow> k
      | Some p \<Rightarrow>
          (let k1 = set_state slot Runnable
             (k\<lparr>k_tasks := (k_tasks k)(slot := initial_context p), k_regions := (k_regions k)(slot := lp_region p)\<rparr>)
           in case server_name slot of Some n \<Rightarrow> set_name slot n k1 | None \<Rightarrow> k1))"

definition issue_if_used :: "nat \<Rightarrow> kernel \<Rightarrow> kernel" where
  "issue_if_used slot k = (if k_states k slot \<noteq> Unused then issue_generation slot k else k)"

definition kernel_init :: "loaded_program \<Rightarrow> loaded_program option \<Rightarrow> loaded_program option \<Rightarrow>
    loaded_program option \<Rightarrow> loaded_program option \<Rightarrow> kernel \<Rightarrow> kernel" where
  "kernel_init program fsd cond netd accountd k =
     (let k0 = set_name 0 [0x73, 0x68, 0x65, 0x6c, 0x6c]
            (k\<lparr>k_tasks := (k_tasks k)(FIRST := initial_context program),
               k_regions := (k_regions k)(0 := lp_region program)\<rparr>);
          k1 = set_name 1 [0x69, 0x64, 0x6c, 0x65]
            (k0\<lparr>k_tasks := (k_tasks k0)(1 := idle_context k0),
                k_regions := (k_regions k0)(1 := (k_idle_base k0, IDLE_REGION_SIZE))\<rparr>)
      in fold issue_if_used [0..<NUM_TASKS]
           (boot_task 5 accountd (boot_task 4 netd (boot_task 3 cond (boot_task 2 fsd k1)))))"

section \<open>What an end changes\<close>

lemma fold_fail_frame:
  assumes "\<And>i k. g (fail_call d i k) = g k"
  shows "g (fold (fail_call d) xs k) = g k"
  using assms by (induction xs arbitrary: k) auto

lemma fail_calls_frame [simp]:
  "k_regions (fail_calls_to d k) = k_regions k"
  "k_current (fail_calls_to d k) = k_current k"
  "k_round (fail_calls_to d k) = k_round k"
  "k_boot_core (fail_calls_to d k) = k_boot_core k"
  "k_secondaries (fail_calls_to d k) = k_secondaries k"
  "k_idle_base (fail_calls_to d k) = k_idle_base k"
  "k_region_top (fail_calls_to d k) = k_region_top k"
  "k_input_owner (fail_calls_to d k) = k_input_owner k"
  "k_prev_owners (fail_calls_to d k) = k_prev_owners k"
  "k_fg_command (fail_calls_to d k) = k_fg_command k"
  "k_pending_kill (fail_calls_to d k) = k_pending_kill k"
  "k_kbd_raw (fail_calls_to d k) = k_kbd_raw k"
  "k_kbd (fail_calls_to d k) = k_kbd k"
  "k_next_call (fail_calls_to d k) = k_next_call k"
  "k_gens (fail_calls_to d k) = k_gens k"
  "k_next_gen (fail_calls_to d k) = k_next_gen k"
  "k_mail (fail_calls_to d k) = k_mail k"
  "k_argv (fail_calls_to d k) = k_argv k"
  "k_env (fail_calls_to d k) = k_env k"
  "k_cwd (fail_calls_to d k) = k_cwd k"
  "k_ns (fail_calls_to d k) = k_ns k"
  "k_stdout (fail_calls_to d k) = k_stdout k"
  "k_ids (fail_calls_to d k) = k_ids k"
  "k_saved_ids (fail_calls_to d k) = k_saved_ids k"
  "k_groups (fail_calls_to d k) = k_groups k"
  "k_group_counts (fail_calls_to d k) = k_group_counts k"
  "k_creds (fail_calls_to d k) = k_creds k"
  "k_delegated (fail_calls_to d k) = k_delegated k"
  "k_parents (fail_calls_to d k) = k_parents k"
  "k_grants (fail_calls_to d k) = k_grants k"
  "k_doomed (fail_calls_to d k) = k_doomed k"
  "k_staging (fail_calls_to d k) = k_staging k"
  "k_mem (fail_calls_to d k) = k_mem k"
  "k_ticks (fail_calls_to d k) = k_ticks k"
  "k_now_us (fail_calls_to d k) = k_now_us k"
  "k_serial (fail_calls_to d k) = k_serial k"
  "k_usb (fail_calls_to d k) = k_usb k"
  "k_net_frame (fail_calls_to d k) = k_net_frame k"
  unfolding fail_calls_to_def by (rule fold_fail_frame; simp add: fail_call_def kset_defs)+

lemma fail_calls_fold:
  "k_states (fold (fail_call d) xs k) i =
     (if i \<in> set xs \<and> waits_for_reply (k_states k i) d then Runnable else k_states k i) \<and>
   k_calls (fold (fail_call d) xs k) i =
     (if i \<in> set xs \<and> waits_for_reply (k_states k i) d then 0 else k_calls k i)"
proof (induction xs arbitrary: k)
  case (Cons x xs)
  have "k_states (fail_call d x k) i = (if i = x \<and> waits_for_reply (k_states k i) d then Runnable else k_states k i)"
      "k_calls (fail_call d x k) i = (if i = x \<and> waits_for_reply (k_states k i) d then 0 else k_calls k i)"
    by (auto simp: fail_call_def fails_call_def kset_defs)
  then show ?case using Cons.IH [of "fail_call d x k"] by (auto simp: waits_for_reply_def)
qed simp

lemma fail_calls_states:
  "k_states (fail_calls_to d k) i =
     (if i < NUM_TASKS \<and> waits_for_reply (k_states k i) d then Runnable else k_states k i)"
  "k_calls (fail_calls_to d k) i =
     (if i < NUM_TASKS \<and> waits_for_reply (k_states k i) d then 0 else k_calls k i)"
  using fail_calls_fold [of d "[0..<NUM_TASKS]" k i] by (auto simp: fail_calls_to_def)

lemma revert_frame [simp]:
  "k_states (revert_input_owner_if d k) = k_states k"
  "k_tasks (revert_input_owner_if d k) = k_tasks k"
  "k_regions (revert_input_owner_if d k) = k_regions k"
  "k_current (revert_input_owner_if d k) = k_current k"
  "k_round (revert_input_owner_if d k) = k_round k"
  "k_boot_core (revert_input_owner_if d k) = k_boot_core k"
  "k_secondaries (revert_input_owner_if d k) = k_secondaries k"
  "k_idle_base (revert_input_owner_if d k) = k_idle_base k"
  "k_region_top (revert_input_owner_if d k) = k_region_top k"
  "k_fg_command (revert_input_owner_if d k) = k_fg_command k"
  "k_pending_kill (revert_input_owner_if d k) = k_pending_kill k"
  "k_kbd_raw (revert_input_owner_if d k) = k_kbd_raw k"
  "k_calls (revert_input_owner_if d k) = k_calls k"
  "k_next_call (revert_input_owner_if d k) = k_next_call k"
  "k_gens (revert_input_owner_if d k) = k_gens k"
  "k_next_gen (revert_input_owner_if d k) = k_next_gen k"
  "k_mail (revert_input_owner_if d k) = k_mail k"
  "k_argv (revert_input_owner_if d k) = k_argv k"
  "k_env (revert_input_owner_if d k) = k_env k"
  "k_cwd (revert_input_owner_if d k) = k_cwd k"
  "k_ns (revert_input_owner_if d k) = k_ns k"
  "k_stdout (revert_input_owner_if d k) = k_stdout k"
  "k_ids (revert_input_owner_if d k) = k_ids k"
  "k_saved_ids (revert_input_owner_if d k) = k_saved_ids k"
  "k_groups (revert_input_owner_if d k) = k_groups k"
  "k_group_counts (revert_input_owner_if d k) = k_group_counts k"
  "k_creds (revert_input_owner_if d k) = k_creds k"
  "k_delegated (revert_input_owner_if d k) = k_delegated k"
  "k_parents (revert_input_owner_if d k) = k_parents k"
  "k_grants (revert_input_owner_if d k) = k_grants k"
  "k_doomed (revert_input_owner_if d k) = k_doomed k"
  "k_staging (revert_input_owner_if d k) = k_staging k"
  "k_mem (revert_input_owner_if d k) = k_mem k"
  "k_ticks (revert_input_owner_if d k) = k_ticks k"
  "k_now_us (revert_input_owner_if d k) = k_now_us k"
  "k_serial (revert_input_owner_if d k) = k_serial k"
  "k_usb (revert_input_owner_if d k) = k_usb k"
  "k_net_frame (revert_input_owner_if d k) = k_net_frame k"
  by (auto simp: revert_input_owner_if_def Let_def keyboard_owner_changed_def split: option.split)

lemma revert_cong:
  assumes "k_states k = k_states k'" "k_gens k = k_gens k'" "k_prev_owners k = k_prev_owners k'"
    "k_input_owner k = k_input_owner k'"
  shows "k_prev_owners (revert_input_owner_if d k) = k_prev_owners (revert_input_owner_if d k')"
    "k_input_owner (revert_input_owner_if d k) = k_input_owner (revert_input_owner_if d k')"
proof -
  have t: "task_id_of (x\<lparr>k_prev_owners := p\<rparr>) = task_id_of x" for p and x :: kernel
    by (simp add: fun_eq_iff task_id_of_def)
  have l: "live_occupant (x\<lparr>k_prev_owners := p\<rparr>) = live_occupant x" for p and x :: kernel
    by (rule live_occupant_cong) simp_all
  have s: "task_id_of k = task_id_of k'" "live_occupant k = live_occupant k'"
    using assms live_occupant_cong [OF assms(1,2)] by (simp_all add: fun_eq_iff task_id_of_def)
  show "k_prev_owners (revert_input_owner_if d k) = k_prev_owners (revert_input_owner_if d k')"
    "k_input_owner (revert_input_owner_if d k) = k_input_owner (revert_input_owner_if d k')"
    by (auto simp: revert_input_owner_if_def Let_def keyboard_owner_changed_def owner_below_def t l s assms
        split: option.split)
qed

lemma release_staging_frame [simp]:
  "k_states (release_staging_of d k) = k_states k"
  "k_tasks (release_staging_of d k) = k_tasks k"
  "k_regions (release_staging_of d k) = k_regions k"
  "k_current (release_staging_of d k) = k_current k"
  "k_round (release_staging_of d k) = k_round k"
  "k_boot_core (release_staging_of d k) = k_boot_core k"
  "k_secondaries (release_staging_of d k) = k_secondaries k"
  "k_idle_base (release_staging_of d k) = k_idle_base k"
  "k_region_top (release_staging_of d k) = k_region_top k"
  "k_input_owner (release_staging_of d k) = k_input_owner k"
  "k_prev_owners (release_staging_of d k) = k_prev_owners k"
  "k_fg_command (release_staging_of d k) = k_fg_command k"
  "k_pending_kill (release_staging_of d k) = k_pending_kill k"
  "k_kbd_raw (release_staging_of d k) = k_kbd_raw k"
  "k_kbd (release_staging_of d k) = k_kbd k"
  "k_calls (release_staging_of d k) = k_calls k"
  "k_next_call (release_staging_of d k) = k_next_call k"
  "k_gens (release_staging_of d k) = k_gens k"
  "k_next_gen (release_staging_of d k) = k_next_gen k"
  "k_mail (release_staging_of d k) = k_mail k"
  "k_argv (release_staging_of d k) = k_argv k"
  "k_env (release_staging_of d k) = k_env k"
  "k_cwd (release_staging_of d k) = k_cwd k"
  "k_ns (release_staging_of d k) = k_ns k"
  "k_stdout (release_staging_of d k) = k_stdout k"
  "k_ids (release_staging_of d k) = k_ids k"
  "k_saved_ids (release_staging_of d k) = k_saved_ids k"
  "k_groups (release_staging_of d k) = k_groups k"
  "k_group_counts (release_staging_of d k) = k_group_counts k"
  "k_creds (release_staging_of d k) = k_creds k"
  "k_delegated (release_staging_of d k) = k_delegated k"
  "k_parents (release_staging_of d k) = k_parents k"
  "k_grants (release_staging_of d k) = k_grants k"
  "k_doomed (release_staging_of d k) = k_doomed k"
  "k_mem (release_staging_of d k) = k_mem k"
  "k_ticks (release_staging_of d k) = k_ticks k"
  "k_now_us (release_staging_of d k) = k_now_us k"
  "k_serial (release_staging_of d k) = k_serial k"
  "k_usb (release_staging_of d k) = k_usb k"
  "k_net_frame (release_staging_of d k) = k_net_frame k"
  by (simp_all add: release_staging_of_def release_staging_def Let_def)

lemma free_region_frame [simp]:
  "k_states (free_runtime_region b s k) = k_states k"
  "k_tasks (free_runtime_region b s k) = k_tasks k"
  "k_regions (free_runtime_region b s k) = k_regions k"
  "k_current (free_runtime_region b s k) = k_current k"
  "k_round (free_runtime_region b s k) = k_round k"
  "k_boot_core (free_runtime_region b s k) = k_boot_core k"
  "k_secondaries (free_runtime_region b s k) = k_secondaries k"
  "k_idle_base (free_runtime_region b s k) = k_idle_base k"
  "k_input_owner (free_runtime_region b s k) = k_input_owner k"
  "k_prev_owners (free_runtime_region b s k) = k_prev_owners k"
  "k_fg_command (free_runtime_region b s k) = k_fg_command k"
  "k_pending_kill (free_runtime_region b s k) = k_pending_kill k"
  "k_kbd_raw (free_runtime_region b s k) = k_kbd_raw k"
  "k_kbd (free_runtime_region b s k) = k_kbd k"
  "k_calls (free_runtime_region b s k) = k_calls k"
  "k_next_call (free_runtime_region b s k) = k_next_call k"
  "k_gens (free_runtime_region b s k) = k_gens k"
  "k_next_gen (free_runtime_region b s k) = k_next_gen k"
  "k_mail (free_runtime_region b s k) = k_mail k"
  "k_argv (free_runtime_region b s k) = k_argv k"
  "k_env (free_runtime_region b s k) = k_env k"
  "k_cwd (free_runtime_region b s k) = k_cwd k"
  "k_ns (free_runtime_region b s k) = k_ns k"
  "k_stdout (free_runtime_region b s k) = k_stdout k"
  "k_ids (free_runtime_region b s k) = k_ids k"
  "k_saved_ids (free_runtime_region b s k) = k_saved_ids k"
  "k_groups (free_runtime_region b s k) = k_groups k"
  "k_group_counts (free_runtime_region b s k) = k_group_counts k"
  "k_creds (free_runtime_region b s k) = k_creds k"
  "k_delegated (free_runtime_region b s k) = k_delegated k"
  "k_parents (free_runtime_region b s k) = k_parents k"
  "k_grants (free_runtime_region b s k) = k_grants k"
  "k_doomed (free_runtime_region b s k) = k_doomed k"
  "k_staging (free_runtime_region b s k) = k_staging k"
  "k_mem (free_runtime_region b s k) = k_mem k"
  "k_ticks (free_runtime_region b s k) = k_ticks k"
  "k_now_us (free_runtime_region b s k) = k_now_us k"
  "k_serial (free_runtime_region b s k) = k_serial k"
  "k_usb (free_runtime_region b s k) = k_usb k"
  "k_net_frame (free_runtime_region b s k) = k_net_frame k"
  by (simp_all add: free_runtime_region_def Let_def)

lemmas clear_defs = reset_id_def reset_stdout_target_def clear_namespace_def set_kbd_raw_def clear_env_def
  clear_cwd_def clear_argv_def clear_delegations_of_def clear_grant_def clear_sender_cred_def clear_mailbox_def

lemma end_task_fields:
  "k_states (end_task d st k) = (\<lambda>i. if i = d then st
     else if i < NUM_TASKS \<and> waits_for_reply (k_states k i) d then Runnable else k_states k i)"
  "k_calls (end_task d st k) = (\<lambda>i. if i = d \<or> i < NUM_TASKS \<and> waits_for_reply (k_states k i) d then 0 else k_calls k i)"
  "k_gens (end_task d st k) = k_gens k" "k_next_gen (end_task d st k) = k_next_gen k"
  "k_next_call (end_task d st k) = k_next_call k" "k_current (end_task d st k) = k_current k"
  "k_prev_owners (end_task d st k) = k_prev_owners (revert_input_owner_if d k)"
  "k_input_owner (end_task d st k) = k_input_owner (revert_input_owner_if d k)"
  "k_mail (end_task d st k) = (k_mail k)(d := (k_mail k d)\<lparr>mb_head := 0, mb_count := 0\<rparr>)"
  "k_creds (end_task d st k) = (k_creds k)(d := cred_none)"
  "k_grants (end_task d st k) = (k_grants k)(d := (k_grants k d)\<lparr>gr_active := False\<rparr>)"
  "k_delegated (end_task d st k) = (k_delegated k)(d := 0)"
  "k_argv (end_task d st k) = (k_argv k)(d := [])" "k_env (end_task d st k) = (k_env k)(d := [])"
  "k_cwd (end_task d st k) = (k_cwd k)(d := [])" "k_ns (end_task d st k) = (k_ns k)(d := [])"
  "k_stdout (end_task d st k) = (k_stdout k)(d := of_nat CON_TASK)"
  "k_ids (end_task d st k) = (k_ids k)(d := 0)" "k_saved_ids (end_task d st k) = (k_saved_ids k)(d := 0)"
  "k_group_counts (end_task d st k) = (k_group_counts k)(d := 0)"
  "k_regions (end_task d st k) = (k_regions k)(d := (0, 0))" "k_doomed (end_task d st k) = (k_doomed k)(d := 0)"
  "k_kbd_raw (end_task d st k) = (k_kbd_raw k)(d := False)"
  "k_kbd (end_task d st k) = (if k_input_owner k = d then trim_cut_key (k_kbd k) (k_ticks k) else k_kbd k)"
  "k_staging (end_task d st k) = k_staging (release_staging_of d k)"
  "k_parents (end_task d st k) = k_parents k" "k_mem (end_task d st k) = k_mem k"
  "k_pending_kill (end_task d st k) = k_pending_kill k" "k_ticks (end_task d st k) = k_ticks k"
proof -
  obtain b s where r: "task_region (k\<lparr>k_doomed := (k_doomed k)(d := 0)\<rparr>) d = (b, s)" by force
  define k2 where "k2 = free_runtime_region b s (k\<lparr>k_doomed := (k_doomed k)(d := 0)\<rparr>)"
  have e: "end_task d st k = reset_id d (reset_stdout_target d (clear_namespace d (set_kbd_raw d False (clear_env d
     (clear_cwd d (clear_argv d (clear_delegations_of d (clear_grant d (clear_sender_cred d (clear_mailbox d
       ((set_state d st (end_call d (release_staging_of d (fail_calls_to d (revert_input_owner_if d k2)))))
         \<lparr>k_regions := (k_regions (set_state d st (end_call d (release_staging_of d (fail_calls_to d (revert_input_owner_if d k2))))))
           (d := (0, 0))\<rparr>)))))))))))"
    by (simp add: end_task_def Let_def r k2_def)
  have k2: "k_states k2 = k_states k" "k_gens k2 = k_gens k" "k_prev_owners k2 = k_prev_owners k"
      "k_input_owner k2 = k_input_owner k" "k_staging k2 = k_staging k" "k_kbd k2 = k_kbd k"
    by (simp_all add: k2_def)
  note rc = revert_cong [OF k2(1-4), of d]
  have kb: "k_kbd (revert_input_owner_if d k2) = (if k_input_owner k = d then trim_cut_key (k_kbd k) (k_ticks k) else k_kbd k)"
    by (auto simp: revert_input_owner_if_def Let_def keyboard_owner_changed_def k2_def split: option.split)
  show "k_prev_owners (end_task d st k) = k_prev_owners (revert_input_owner_if d k)"
    "k_input_owner (end_task d st k) = k_input_owner (revert_input_owner_if d k)"
    unfolding e by (simp_all add: clear_defs kset_defs rc)
  show "k_kbd (end_task d st k) = (if k_input_owner k = d then trim_cut_key (k_kbd k) (k_ticks k) else k_kbd k)"
    unfolding e by (simp add: clear_defs kset_defs kb)
  show "k_staging (end_task d st k) = k_staging (release_staging_of d k)"
    unfolding e by (simp add: clear_defs kset_defs release_staging_of_def release_staging_def k2 Let_def)
  show "k_states (end_task d st k) = (\<lambda>i. if i = d then st
     else if i < NUM_TASKS \<and> waits_for_reply (k_states k i) d then Runnable else k_states k i)"
  "k_calls (end_task d st k) = (\<lambda>i. if i = d \<or> i < NUM_TASKS \<and> waits_for_reply (k_states k i) d then 0 else k_calls k i)"
    unfolding e by (auto simp: fun_eq_iff clear_defs kset_defs fail_calls_states k2_def)
  show "k_gens (end_task d st k) = k_gens k"
    "k_next_gen (end_task d st k) = k_next_gen k"
    "k_next_call (end_task d st k) = k_next_call k"
    "k_current (end_task d st k) = k_current k"
    "k_mail (end_task d st k) = (k_mail k)(d := (k_mail k d)\<lparr>mb_head := 0, mb_count := 0\<rparr>)"
    "k_creds (end_task d st k) = (k_creds k)(d := cred_none)"
    "k_grants (end_task d st k) = (k_grants k)(d := (k_grants k d)\<lparr>gr_active := False\<rparr>)"
    "k_delegated (end_task d st k) = (k_delegated k)(d := 0)"
    "k_argv (end_task d st k) = (k_argv k)(d := [])"
    "k_env (end_task d st k) = (k_env k)(d := [])"
    "k_cwd (end_task d st k) = (k_cwd k)(d := [])"
    "k_ns (end_task d st k) = (k_ns k)(d := [])"
    "k_stdout (end_task d st k) = (k_stdout k)(d := of_nat CON_TASK)"
    "k_ids (end_task d st k) = (k_ids k)(d := 0)"
    "k_saved_ids (end_task d st k) = (k_saved_ids k)(d := 0)"
    "k_group_counts (end_task d st k) = (k_group_counts k)(d := 0)"
    "k_regions (end_task d st k) = (k_regions k)(d := (0, 0))"
    "k_doomed (end_task d st k) = (k_doomed k)(d := 0)"
    "k_kbd_raw (end_task d st k) = (k_kbd_raw k)(d := False)"
    "k_parents (end_task d st k) = k_parents k"
    "k_mem (end_task d st k) = k_mem k"
    "k_pending_kill (end_task d st k) = k_pending_kill k"
    "k_ticks (end_task d st k) = k_ticks k"
    unfolding e by (simp_all add: clear_defs kset_defs k2_def)
qed

section \<open>Ends keep the kernel sound\<close>

lemma input_ok_end_task:
  assumes "input_ok k" "d < NUM_TASKS" "d \<noteq> 0" "is_occupied k d" "st = Unused \<or> (\<exists>s. st = Zombie s)"
  shows "input_ok (end_task d st k)"
proof -
  define k1 where "k1 = fail_calls_to d k"
  have st1: "k_states k1 = (\<lambda>i. if i < NUM_TASKS \<and> waits_for_reply (k_states k i) d then Runnable else k_states k i)"
    by (auto simp: k1_def fail_calls_states)
  have w: "waits_for_reply s d \<Longrightarrow> \<exists>r. s = Blocked r" for s
    by (auto simp: waits_for_reply_def split: task_state.splits)
  have occ: "is_occupied k1 t = is_occupied k t" for t
    using w by (auto simp: is_occupied_def st1 split: if_splits task_state.splits)
  have g: "k_gens k1 = k_gens k" "k_next_gen k1 = k_next_gen k" "k_prev_owners k1 = k_prev_owners k"
      "k_input_owner k1 = k_input_owner k"
    by (simp_all add: k1_def)
  have live: "live_occupant k1 e = live_occupant k e" for e
  proof -
    have "live_occupant k1 e = Some j \<longleftrightarrow> live_occupant k e = Some j" for j
      by (simp add: live_occupant_iff occ g(1))
    then show ?thesis by (cases "live_occupant k e"; cases "live_occupant k1 e") auto
  qed
  have u: "k_states k1 t = Unused \<longleftrightarrow> k_states k t = Unused" for t by (auto simp: st1 waits_for_reply_def)
  have ok1: "input_ok k1"
    using assms(1) by (simp add: input_ok_def gens_ok_def owner_edges_def live occ g u)
  have r: "k_prev_owners (revert_input_owner_if d k) = k_prev_owners (revert_input_owner_if d k1)"
      "k_input_owner (revert_input_owner_if d k) = k_input_owner (revert_input_owner_if d k1)"
  proof -
    have t: "task_id_of (x\<lparr>k_prev_owners := p\<rparr>) = task_id_of x" for p and x :: kernel
      by (simp add: fun_eq_iff task_id_of_def)
    have l: "live_occupant (x\<lparr>k_prev_owners := p\<rparr>) = live_occupant x" for p and x :: kernel
      by (rule live_occupant_cong) simp_all
    have s: "task_id_of k1 = task_id_of k" using u by (simp add: fun_eq_iff task_id_of_def g)
    have l1: "live_occupant k1 = live_occupant k" using live by (simp add: fun_eq_iff)
    show "k_prev_owners (revert_input_owner_if d k) = k_prev_owners (revert_input_owner_if d k1)"
      "k_input_owner (revert_input_owner_if d k) = k_input_owner (revert_input_owner_if d k1)"
      by (auto simp: revert_input_owner_if_def Let_def keyboard_owner_changed_def owner_below_def t l s l1 g
          split: option.split)
  qed
  show ?thesis
    by (rule input_ok_death [OF ok1 assms(2,3), of "end_task d st k" st])
       (use assms(4,5) in \<open>auto simp: end_task_fields occ st1 g r fun_eq_iff\<close>)
qed

lemma kbd_ok_end_task:
  assumes "kbd_ok k" "d < NUM_TASKS" "d \<noteq> 0" "is_occupied k d" "st = Unused \<or> (\<exists>s. st = Zombie s)"
  shows "kbd_ok (end_task d st k)"
  using assms input_ok_end_task [of k d st] by (auto simp: kbd_ok_def end_task_fields kq_inv_trim)

lemma waits_not_runnable: "waits_for_reply s d \<Longrightarrow> s \<noteq> Runnable"
  by (auto simp: waits_for_reply_def)

lemma cores_ok_end_idle:
  assumes "cores_ok k" "d \<noteq> IDLE" "\<And>c. c < MAX_CORES \<Longrightarrow> k_current k c \<noteq> d"
  shows "cores_ok (end_task d st k)"
  using assms waits_not_runnable by (auto simp: cores_ok_def end_task_fields)

lemma cores_ok_end_current:
  assumes "cores_ok k" "core < MAX_CORES" "k_current k core \<noteq> IDLE"
  shows "cores_ok_but core (end_task (k_current k core) st k)"
  using assms waits_not_runnable by (auto simp: cores_ok_but_def cores_ok_def end_task_fields)

lemma switch_away_ok:
  assumes "cores_ok_but core k" "core < MAX_CORES"
  shows "\<exists>fr t. switch_away_from_dead core dead k = Some (fr, set_current core t k) \<and> cores_ok (set_current core t k)"
proof -
  have i: "k_states k IDLE = Runnable" using assms(1) by (simp add: cores_ok_but_def)
  obtain t where t: "next_or_halt k core dead = Some t" "t < NUM_TASKS" "may_run_on k core t"
    using next_or_halt_ok [OF i] by blast
  then show ?thesis
    using cores_ok_switch [OF assms t(3,2)] by (auto simp: switch_away_from_dead_def switch_to_def)
qed

definition calls_ok :: "kernel \<Rightarrow> bool" where
  "calls_ok k \<longleftrightarrow> 0 < unat (k_next_call k) \<and> unat (k_next_call k) < 2 ^ 56 \<and>
     (\<forall>t<NUM_TASKS. unat (k_calls k t) < unat (k_next_call k))"

definition mail_ok :: "kernel \<Rightarrow> bool" where
  "mail_ok k \<longleftrightarrow> (\<forall>t<NUM_TASKS. mb_ok (k_mail k t))"

lemma calls_ok_end_task: "calls_ok k \<Longrightarrow> calls_ok (end_task d st k)"
  by (auto simp: calls_ok_def end_task_fields)

lemma mail_ok_end_task: "mail_ok k \<Longrightarrow> mail_ok (end_task d st k)"
  by (auto simp: mail_ok_def end_task_fields mb_ok_def)

text \<open>The kernel's invariant.\<close>

definition kernel_ok :: "kernel \<Rightarrow> bool" where
  "kernel_ok k \<longleftrightarrow> kbd_ok k \<and> cores_ok k \<and> calls_ok k \<and> mail_ok k"

definition left_behind :: "kernel \<Rightarrow> nat \<Rightarrow> u64 \<Rightarrow> bool" where
  "left_behind k d ident \<longleftrightarrow>
     mb_items (k_mail k d) \<noteq> [] \<or> k_creds k d \<noteq> cred_none \<or> gr_active (k_grants k d) \<or> k_delegated k d \<noteq> 0 \<or>
     k_argv k d \<noteq> [] \<or> k_env k d \<noteq> [] \<or> k_cwd k d \<noteq> [] \<or> k_ns k d \<noteq> [] \<or>
     k_stdout k d \<noteq> of_nat CON_TASK \<or> k_ids k d \<noteq> 0 \<or> k_saved_ids k d \<noteq> 0 \<or> k_group_counts k d \<noteq> 0 \<or>
     k_regions k d \<noteq> (0, 0) \<or> k_calls k d \<noteq> 0 \<or> k_doomed k d \<noteq> 0 \<or> k_kbd_raw k d \<or>
     k_input_owner k = d \<or> task_id_slot (sg_stager (k_staging k)) = d \<and> sg_stager (k_staging k) \<noteq> 0 \<or>
     list_ex (\<lambda>i. waits_for_reply (k_states k i) d \<or> k_prev_owners k i = ident) [0..<NUM_TASKS]"


lemma sample_owner_kernel: "kernel_ok sample_owner"
proof -
  have "k_kbd sample_owner = keyqueue_new 2 50" by (simp add: sample_owner_def kernel_new_def)
  then have "kbd_ok sample_owner" using sample_owner_ok by (simp add: kbd_ok_def kq_inv_new)
  moreover have "cores_ok sample_owner"
    by (simp add: cores_ok_def sample_owner_def kernel_new_def FIRST_def IDLE_def NUM_TASKS_def)
  moreover have "calls_ok sample_owner" by (simp add: calls_ok_def sample_owner_def kernel_new_def)
  moreover have "mail_ok sample_owner"
  proof -
    have "k_mail sample_owner = (\<lambda>_. mailbox_new)" by (simp add: sample_owner_def kernel_new_def)
    then show ?thesis by (simp add: mail_ok_def)
  qed
  ultimately show ?thesis by (simp add: kernel_ok_def)
qed

lemma sample_owner_6:
  "is_occupied sample_owner 6" "task_id_of sample_owner 6 = Some 0x306"
  by (simp_all add: is_occupied_def task_id_of_def sample_owner_def kernel_new_def NUM_TASKS_def pack_slot_def
      push_bit_eq_mult)


section \<open>Births\<close>

lemma spawn_in_fields:
  "k_states (spawn_in i s ctx r k) = (k_states k)(i := Runnable)"
  "k_gens (spawn_in i s ctx r k) = (k_gens k)(i := k_next_gen k)"
  "k_next_gen (spawn_in i s ctx r k) = k_next_gen k + 1"
  "k_prev_owners (spawn_in i s ctx r k) = (k_prev_owners k)(i := 0)"
  "k_input_owner (spawn_in i s ctx r k) = k_input_owner k" "k_current (spawn_in i s ctx r k) = k_current k"
  "k_kbd (spawn_in i s ctx r k) = k_kbd k" "k_calls (spawn_in i s ctx r k) = k_calls k"
  "k_next_call (spawn_in i s ctx r k) = k_next_call k" "k_mail (spawn_in i s ctx r k) = k_mail k"
  "k_regions (spawn_in i s ctx r k) = (k_regions k)(i := r)" "k_tasks (spawn_in i s ctx r k) = (k_tasks k)(i := ctx)"
  "k_ids (spawn_in i s ctx r k) = k_ids k" "k_ns (spawn_in i s ctx r k) = k_ns k" "k_mem (spawn_in i s ctx r k) = k_mem k"
  "k_parents (spawn_in i s ctx r k) = (k_parents k)(i := (case task_id_of (issue_generation i k) s of Some x \<Rightarrow> x | None \<Rightarrow> 0))"
  by (simp_all add: spawn_in_def Let_def set_state_def set_delegate_def clear_previous_owner_def set_parent_def
      issue_generation_def clear_delegations_at_def clear_delegations_of_def task_id_of_def)

lemma spawn_in_delegated:
  assumes "i \<noteq> s" "i < NUM_TASKS" "s < NUM_TASKS" "t < NUM_TASKS" "d < NUM_TASKS"
  shows "bit (k_delegated (spawn_in i s ctx r k) t) d \<longleftrightarrow>
    (if t = i then d = s else if d = i then t = s else bit (k_delegated k t) d)"
proof -
  have b: "bit (push_bit n 1 :: u64) m \<longleftrightarrow> n = m" if "m < NUM_TASKS" for n m
    unfolding bit_push_bit_iff bit_1_iff using that by (auto simp: NUM_TASKS_def)
  have "k_delegated (spawn_in i s ctx r k) t =
      (if t = i then push_bit s 1 else if t = s then k_delegated k t AND NOT (push_bit i 1) OR push_bit i 1
       else k_delegated k t AND NOT (push_bit i 1))"
    using assms
    by (auto simp: spawn_in_def Let_def set_state_def set_delegate_def clear_previous_owner_def set_parent_def
        issue_generation_def clear_delegations_at_def clear_delegations_of_def)
  then show ?thesis using assms b [OF assms(5)] by (auto simp: bit_or_iff bit_and_iff bit_not_iff NUM_TASKS_def)
qed

lemma holds_send_right_bits:
  "d < NUM_TASKS \<Longrightarrow> holds_send_right k s d \<longleftrightarrow> bit (caps_for_slot s) d \<or> bit (k_delegated k s) d"
  unfolding holds_send_right_def and_push_bit_1 by simp

text \<open>(C31) The send rights after a spawn are exactly: the static ones; the new task and its spawner
  to each other; and what the other tasks held before, except rights to the reused slot. Nothing a
  previous occupant of the slot was delegated, and nothing delegated towards it, survives.\<close>

theorem spawn_fresh_rights:
  assumes "i \<noteq> s" "i < NUM_TASKS" "s < NUM_TASKS" "t < NUM_TASKS" "d < NUM_TASKS"
  shows "holds_send_right (spawn_in i s ctx r k) t d \<longleftrightarrow>
    bit (caps_for_slot t) d \<or> t = i \<and> d = s \<or> t = s \<and> d = i \<or> t \<noteq> i \<and> d \<noteq> i \<and> holds_send_right k t d"
  using spawn_in_delegated [OF assms, of ctx r k] assms
  by (auto simp: holds_send_right_bits split: if_splits)

theorem spawn_fresh_rights_witness:
  "\<not> holds_send_right (spawn_in 6 0 context_zeroed (0, 0) (sample_owner\<lparr>k_delegated := (\<lambda>_. 0xffff)\<rparr>)) 7 6"
proof -
  have "\<not> bit (caps_for_slot 7) 6"
    by (simp add: caps_for_slot_def FSD_TASK_def CON_TASK_def NET_TASK_def ACCT_TASK_def TO_SHELL_def TO_FSD_def
        TO_CON_def TO_ACCT_def bit_or_iff bit_push_bit_iff bit_1_iff)
  then show ?thesis
    using spawn_fresh_rights [of 6 0 7 6 context_zeroed "(0, 0)" "sample_owner\<lparr>k_delegated := (\<lambda>_. 0xffff)\<rparr>"]
    by (simp add: NUM_TASKS_def)
qed

lemma kernel_ok_birth:
  assumes "kernel_ok k" "i < NUM_TASKS" "k_states k i = Unused" "unat (k_next_gen k) + 1 < 2 ^ 55"
    and "k_states k' = (k_states k)(i := Runnable)" "k_gens k' = (k_gens k)(i := k_next_gen k)"
      "k_next_gen k' = k_next_gen k + 1" "k_prev_owners k' = (k_prev_owners k)(i := 0)"
      "k_input_owner k' = k_input_owner k" "k_current k' = k_current k" "k_kbd k' = k_kbd k"
      "k_calls k' = k_calls k" "k_next_call k' = k_next_call k" "k_mail k' = k_mail k"
  shows "kernel_ok k'"
proof -
  have "input_ok k'"
    using assms(1) by (intro input_ok_birth [OF _ assms(2-9)]) (simp add: kernel_ok_def kbd_ok_def)
  moreover have "cores_ok k'"
    using assms(1) by (simp add: kernel_ok_def cores_ok_def assms(5,10))
  ultimately show ?thesis
    using assms(1) by (simp add: kernel_ok_def kbd_ok_def calls_ok_def mail_ok_def assms(11-14))
qed

end
