(* ===== verification/Kernel_Spawn.thy ===== *)
theory Kernel_Spawn
  imports Kernel_Life
begin

text \<open>
  Starting programs (\<open>src/kernel/src/syscall.rs\<close>): the checks on a caller's buffers, the staging a
  spawn is fed through and its owner, the argument blobs, \<open>spawn_staged\<close> and the five staging system
  calls. A call runs for the task that is current on the entering core; an answer is the value for the
  caller's first register. In a result of type \<open>u64 option\<close> of a check, \<open>Some\<close> is the error code.
\<close>

section \<open>The caller's memory\<close>

definition MAX_USER_LEN :: u64 where "MAX_USER_LEN = 512"

definition in_caller_region :: "nat \<Rightarrow> u64 \<Rightarrow> u64 \<Rightarrow> kernel \<Rightarrow> bool" where
  "in_caller_region core ptr n k =
     (let (base, sz) = task_region k (k_current k core) in
      if sz = 0 then False else ptr \<ge> base \<and> saturating_add ptr (max n 1) \<le> base + sz)"

definition valid_user_range :: "nat \<Rightarrow> u64 \<Rightarrow> u64 \<Rightarrow> kernel \<Rightarrow> bool" where
  "valid_user_range core ptr n k \<longleftrightarrow> ptr \<noteq> 0 \<and> n \<noteq> 0 \<and> n \<le> MAX_USER_LEN \<and> in_caller_region core ptr n k"

definition valid_msg_range :: "nat \<Rightarrow> u64 \<Rightarrow> u64 \<Rightarrow> kernel \<Rightarrow> bool" where
  "valid_msg_range core ptr n k \<longleftrightarrow> ptr \<noteq> 0 \<and> n \<noteq> 0 \<and> n \<le> of_nat MSG_MAX \<and> in_caller_region core ptr n k"

definition valid_stage_range :: "nat \<Rightarrow> u64 \<Rightarrow> u64 \<Rightarrow> nat \<Rightarrow> kernel \<Rightarrow> bool" where
  "valid_stage_range core ptr n mx k \<longleftrightarrow> ptr \<noteq> 0 \<and> n \<noteq> 0 \<and> n \<le> of_nat mx \<and> in_caller_region core ptr n k"

definition copy_out :: "nat \<Rightarrow> u64 \<Rightarrow> u64 \<Rightarrow> u8 list \<Rightarrow> kernel \<Rightarrow> u64 option \<times> kernel" where
  "copy_out core ptr cap entry k =
     (let n = min (of_nat (length entry)) cap in
      if ptr = 0 \<or> cap = 0 \<or> \<not> in_caller_region core ptr n k then (None, k)
      else (Some (of_nat (length entry)), store_bytes ptr (take (unat n) entry) k))"

definition user_bytes :: "u64 \<Rightarrow> u64 \<Rightarrow> kernel \<Rightarrow> u8 list" where
  "user_bytes ptr n k = mem_read (k_mem k) ptr (unat n)"

section \<open>The owner of the staging\<close>

datatype staging_view = Stage_Mine | Stage_Held | Stage_Free

definition staging_state :: "nat \<Rightarrow> kernel \<Rightarrow> staging_view \<times> kernel" where
  "staging_state core k =
     (let held = sg_stager (k_staging k) in
      if held \<noteq> 0 \<and> task_id_of k (k_current k core) = Some held then (Stage_Mine, k)
      else if held \<noteq> 0 \<and> live_occupant k held \<noteq> None then (Stage_Held, k)
      else (Stage_Free, release_staging k))"

definition claim_from :: "nat \<Rightarrow> staging_view \<Rightarrow> kernel \<Rightarrow> u64 option \<times> kernel" where
  "claim_from core st k =
     (case st of
        Stage_Mine \<Rightarrow> (None, k)
      | Stage_Held \<Rightarrow> (Some SPAWN_ERR_STAGING_BUSY, k)
      | Stage_Free \<Rightarrow>
          (case task_id_of k (k_current k core) of
             None \<Rightarrow> (Some SPAWN_ERROR, k)
           | Some me \<Rightarrow> (None, k\<lparr>k_staging := (k_staging k)\<lparr>sg_stager := me\<rparr>\<rparr>)))"

definition claim_staging :: "nat \<Rightarrow> kernel \<Rightarrow> u64 option \<times> kernel" where
  "claim_staging core k = (case staging_state core k of (st, k1) \<Rightarrow> claim_from core st k1)"

definition spawn_owner_check :: "nat \<Rightarrow> kernel \<Rightarrow> u64 option \<times> kernel" where
  "spawn_owner_check core k =
     (case staging_state core k of
        (Stage_Mine, k1) \<Rightarrow> (None, k1)
      | (Stage_Held, k1) \<Rightarrow> (Some SPAWN_ERR_STAGING_BUSY, k1)
      | (Stage_Free, k1) \<Rightarrow> (Some SPAWN_ERROR, k1))"

section \<open>Argument blobs\<close>

definition argv_count :: "u8 list \<Rightarrow> u64" where
  "argv_count blob = (if length blob < 4 then 0 else le_num (slice 0 4 blob))"

text \<open>The arguments from offset \<open>off\<close> on: the one \<open>n\<close> places ahead.\<close>

fun argv_walk :: "u8 list \<Rightarrow> nat \<Rightarrow> nat \<Rightarrow> u8 list option" where
  "argv_walk blob n off =
     (if off + 4 > length blob then None
      else let len = unat (le_num (slice off (off + 4) blob)); off1 = off + 4 in
        if off1 + len > length blob then None
        else case n of 0 \<Rightarrow> Some (slice off1 (off1 + len) blob) | Suc m \<Rightarrow> argv_walk blob m (off1 + len))"

declare argv_walk.simps [simp del]

definition argv_get :: "u8 list \<Rightarrow> u64 \<Rightarrow> u8 list option" where
  "argv_get blob index = (if index \<ge> argv_count blob then None else argv_walk blob (unat index) 4)"

section \<open>Spawning what is staged\<close>

definition pending_env_len :: "kernel \<Rightarrow> nat \<times> kernel" where
  "pending_env_len k = (sg_env_len (k_staging k), k\<lparr>k_staging := (k_staging k)\<lparr>sg_env_len := 0\<rparr>\<rparr>)"

text \<open>The stdout target, checked before anything is allocated: an error, or the task to be granted.\<close>

definition stdout_check :: "nat \<Rightarrow> kernel \<Rightarrow> u64 \<Rightarrow> u64 + nat option" where
  "stdout_check spawner k target =
     (if target = of_nat CON_TASK then Inr None
      else case live_index k (unat target) of
        None \<Rightarrow> Inl TASK_ERR_NO_SUCH_TASK
      | Some t \<Rightarrow> if t \<noteq> spawner \<and> \<not> may_grant k spawner t then Inl MSG_ERR_DENIED else Inr (Some t))"

text \<open>What the new task is given: its output target and the right to it, the staged bytes up to what
  was staged, the spawner's namespace and identity.\<close>

definition grant_stdout :: "nat \<Rightarrow> nat option \<Rightarrow> kernel \<Rightarrow> kernel" where
  "grant_stdout slot stdout_task k =
     (case stdout_task of
        None \<Rightarrow> k | Some t \<Rightarrow> if \<not> may_send k slot t then set_delegate slot t k else k)"

definition attach_argv :: "nat \<Rightarrow> nat \<Rightarrow> kernel \<Rightarrow> kernel" where
  "attach_argv slot n k = (if n > 0 then set_argv slot (take n (sg_args (k_staging k))) k else k)"

definition attach_cwd :: "nat \<Rightarrow> nat \<Rightarrow> kernel \<Rightarrow> kernel" where
  "attach_cwd slot n k = (if n > 0 then set_cwd slot (take n (sg_cwd (k_staging k))) k else k)"

definition attach_env :: "nat \<Rightarrow> nat \<Rightarrow> kernel \<Rightarrow> kernel" where
  "attach_env slot n k = (if n > 0 then set_env slot (take n (sg_env (k_staging k))) k else k)"

definition attach_staged ::
  "nat \<Rightarrow> nat \<Rightarrow> u64 \<Rightarrow> nat option \<Rightarrow> nat \<Rightarrow> nat \<Rightarrow> nat \<Rightarrow> kernel \<Rightarrow> kernel" where
  "attach_staged slot spawner stdout_target stdout_task argv_len cwd_len env_len k0 =
     (let k1 = attach_env slot env_len (attach_cwd slot cwd_len (attach_argv slot argv_len
            (grant_stdout slot stdout_task (set_stdout_target slot stdout_target k0))))
      in inherit_id slot spawner (set_namespace slot (k_ns k1 spawner) k1))"

definition load_staged ::
  "nat \<Rightarrow> u8 list \<Rightarrow> u64 \<Rightarrow> nat option \<Rightarrow> nat \<Rightarrow> nat \<Rightarrow> nat \<Rightarrow> kernel \<Rightarrow> u64 \<times> kernel" where
  "load_staged core program stdout_target stdout_task argv_len cwd_len env_len k =
     (case elf_region_size program of
        Inl (RegionTooLarge _) \<Rightarrow> (SPAWN_ERR_IMAGE_TOO_LARGE, k)
      | Inl _ \<Rightarrow> (SPAWN_ERR_BAD_ELF, k)
      | Inr (header, phdrs, region_size) \<Rightarrow>
          (case allocate_runtime_region region_size k of (region_base, k1) \<Rightarrow>
             (case populate_region program header phdrs region_base region_size (k_mem k1) of
                (Inl _, m) \<Rightarrow> (SPAWN_ERR_BAD_ELF, free_runtime_region region_base region_size (k1\<lparr>k_mem := m\<rparr>))
              | (Inr loaded, m) \<Rightarrow>
                  (case spawn core (initial_context loaded) (lp_region loaded) (k1\<lparr>k_mem := m\<rparr>) of
                     (None, k2) \<Rightarrow> (SPAWN_ERR_NO_FREE_SLOT, free_runtime_region region_base region_size k2)
                   | (Some slot, k2) \<Rightarrow>
                       (of_nat slot,
                        attach_staged slot (k_current k core) stdout_target stdout_task argv_len cwd_len env_len k2)))))"

definition spawn_staged :: "nat \<Rightarrow> u64 \<Rightarrow> u64 \<Rightarrow> u64 \<Rightarrow> u64 \<Rightarrow> kernel \<Rightarrow> u64 \<times> kernel" where
  "spawn_staged core total_len stdout_target argv_len cwd_len k0 =
     (case pending_env_len k0 of (staged_env_len, k) \<Rightarrow>
      let sg = k_staging k; sz = unat total_len in
      if sz = 0 \<or> sz > length (sg_image sg) then (SPAWN_ERR_TOO_LARGE, k)
      else if sz > sg_image_end sg then (SPAWN_ERROR, k)
      else case stdout_check (k_current k core) k stdout_target of
        Inl code \<Rightarrow> (code, k)
      | Inr stdout_task \<Rightarrow>
          load_staged core (take sz (sg_image sg)) stdout_target stdout_task
            (min (unat argv_len) (sg_argv_len sg)) (min (unat cwd_len) (sg_cwd_len sg))
            (min staged_env_len ENV_MAX) k)"

section \<open>The staging system calls\<close>

definition sys_spawn :: "nat \<Rightarrow> u64 \<Rightarrow> u64 \<Rightarrow> u64 \<Rightarrow> u64 \<Rightarrow> kernel \<Rightarrow> u64 \<times> kernel" where
  "sys_spawn core a0 a1 a2 a3 k =
     (case spawn_owner_check core k of
        (Some code, k1) \<Rightarrow> (code, k1)
      | (None, k1) \<Rightarrow>
          (case spawn_staged core a0 a1 a2 a3 k1 of (result, k2) \<Rightarrow> (result, release_staging k2)))"

definition put_front :: "u8 list \<Rightarrow> u8 list \<Rightarrow> u8 list" where
  "put_front bs buf = bs @ drop (length bs) buf"

definition sys_cwd_stage :: "nat \<Rightarrow> u64 \<Rightarrow> u64 \<Rightarrow> kernel \<Rightarrow> u64 \<times> kernel" where
  "sys_cwd_stage core a0 a1 k =
     (if \<not> valid_stage_range core a0 a1 CWD_MAX k then (SPAWN_ERROR, k)
      else case claim_staging core k of
        (Some code, k1) \<Rightarrow> (code, k1)
      | (None, k1) \<Rightarrow>
          (0, k1\<lparr>k_staging := (k_staging k1)\<lparr>
                sg_cwd := put_front (user_bytes a0 a1 k1) (sg_cwd (k_staging k1)), sg_cwd_len := unat a1\<rparr>\<rparr>))"

definition sys_args_stage :: "nat \<Rightarrow> u64 \<Rightarrow> u64 \<Rightarrow> kernel \<Rightarrow> u64 \<times> kernel" where
  "sys_args_stage core a0 a1 k =
     (if \<not> valid_stage_range core a0 a1 ARGV_MAX k then (SPAWN_ERROR, k)
      else case claim_staging core k of
        (Some code, k1) \<Rightarrow> (code, k1)
      | (None, k1) \<Rightarrow>
          (0, k1\<lparr>k_staging := (k_staging k1)\<lparr>
                sg_args := put_front (user_bytes a0 a1 k1) (sg_args (k_staging k1)), sg_argv_len := unat a1\<rparr>\<rparr>))"

definition sys_env_stage :: "nat \<Rightarrow> u64 \<Rightarrow> u64 \<Rightarrow> kernel \<Rightarrow> u64 \<times> kernel" where
  "sys_env_stage core a0 a1 k =
     (if \<not> valid_stage_range core a0 a1 ENV_MAX k then (SPAWN_ERROR, k)
      else case claim_staging core k of
        (Some code, k1) \<Rightarrow> (code, k1)
      | (None, k1) \<Rightarrow>
          (0, k1\<lparr>k_staging := (k_staging k1)\<lparr>
                sg_env := put_front (user_bytes a0 a1 k1) (sg_env (k_staging k1)), sg_env_len := unat a1\<rparr>\<rparr>))"

text \<open>A chunk of the image: at offset 0 it starts over and clears the other latches.\<close>

definition put_chunk :: "nat \<Rightarrow> u8 list \<Rightarrow> staging \<Rightarrow> staging" where
  "put_chunk offset chunk sg =
     (let sg1 = (if offset = 0 then sg\<lparr>sg_env_len := 0, sg_argv_len := 0, sg_cwd_len := 0\<rparr> else sg);
          e = offset + length chunk
      in sg1\<lparr>sg_image := take offset (sg_image sg) @ chunk @ drop e (sg_image sg), sg_image_end := e\<rparr>)"

definition sys_spawn_stage :: "nat \<Rightarrow> u64 \<Rightarrow> u64 \<Rightarrow> u64 \<Rightarrow> kernel \<Rightarrow> u64 \<times> kernel" where
  "sys_spawn_stage core a0 a1 a2 k =
     (if \<not> valid_user_range core a1 a2 k then (SPAWN_ERROR, k)
      else case checked_add a0 a2 of
        None \<Rightarrow> (SPAWN_ERROR, k)
      | Some e \<Rightarrow>
          if unat e > length (sg_image (k_staging k)) then (SPAWN_ERROR, k)
          else case staging_state core k of
            (Stage_Held, k1) \<Rightarrow> (SPAWN_ERR_STAGING_BUSY, k1)
          | (st, k1) \<Rightarrow>
              (let expected = (if st = Stage_Mine then sg_image_end (k_staging k1) else 0);
                   offset = unat a0
               in if offset \<noteq> 0 \<and> offset \<noteq> expected then (SPAWN_ERROR, k1)
                  else case claim_from core st k1 of
                    (Some code, k2) \<Rightarrow> (code, k2)
                  | (None, k2) \<Rightarrow>
                      (0, k2\<lparr>k_staging := put_chunk offset (user_bytes a1 a2 k2) (k_staging k2)\<rparr>)))"

section \<open>The staging as the bytes its owner staged\<close>

text \<open>What the staging holds, whatever is left in the buffers from earlier owners.\<close>

record staged =
  st_owner :: u64
  st_image :: "u8 list"
  st_argv :: "u8 list"
  st_cwd :: "u8 list"
  st_env :: "u8 list"

definition staged_empty :: staged where
  "staged_empty = \<lparr>st_owner = 0, st_image = [], st_argv = [], st_cwd = [], st_env = []\<rparr>"

definition abs_staging :: "staging \<Rightarrow> staged" where
  "abs_staging sg =
     \<lparr>st_owner = sg_stager sg, st_image = take (sg_image_end sg) (sg_image sg),
      st_argv = take (sg_argv_len sg) (sg_args sg), st_cwd = take (sg_cwd_len sg) (sg_cwd sg),
      st_env = take (sg_env_len sg) (sg_env sg)\<rparr>"

definition staging_ok :: "staging \<Rightarrow> bool" where
  "staging_ok sg \<longleftrightarrow>
     length (sg_image sg) = SPAWN_STAGING_SIZE \<and> length (sg_args sg) = ARGV_MAX \<and>
     length (sg_cwd sg) = CWD_MAX \<and> length (sg_env sg) = ENV_MAX \<and>
     sg_image_end sg \<le> SPAWN_STAGING_SIZE \<and> sg_argv_len sg \<le> ARGV_MAX \<and> sg_cwd_len sg \<le> CWD_MAX \<and>
     sg_env_len sg \<le> ENV_MAX"

text \<open>The four staging calls, and what each asks for in terms of the bytes it brings.\<close>

datatype stage_call = Stage_Image u64 u64 u64 | Stage_Args u64 u64 | Stage_Cwd u64 u64 | Stage_Env u64 u64

fun stage_sys :: "nat \<Rightarrow> stage_call \<Rightarrow> kernel \<Rightarrow> u64 \<times> kernel" where
  "stage_sys core (Stage_Image off ptr n) k = sys_spawn_stage core off ptr n k"
| "stage_sys core (Stage_Args ptr n) k = sys_args_stage core ptr n k"
| "stage_sys core (Stage_Cwd ptr n) k = sys_cwd_stage core ptr n k"
| "stage_sys core (Stage_Env ptr n) k = sys_env_stage core ptr n k"

datatype stage_req = Put_Image nat "u8 list" | Put_Args "u8 list" | Put_Cwd "u8 list" | Put_Env "u8 list"

text \<open>The request behind a call, when the call's buffer is the caller's and within the bound.\<close>

fun stage_req_of :: "nat \<Rightarrow> stage_call \<Rightarrow> kernel \<Rightarrow> stage_req option" where
  "stage_req_of core (Stage_Image off ptr n) k =
     (if valid_user_range core ptr n k \<and> unat off + unat n \<le> SPAWN_STAGING_SIZE
      then Some (Put_Image (unat off) (user_bytes ptr n k)) else None)"
| "stage_req_of core (Stage_Args ptr n) k =
     (if valid_stage_range core ptr n ARGV_MAX k then Some (Put_Args (user_bytes ptr n k)) else None)"
| "stage_req_of core (Stage_Cwd ptr n) k =
     (if valid_stage_range core ptr n CWD_MAX k then Some (Put_Cwd (user_bytes ptr n k)) else None)"
| "stage_req_of core (Stage_Env ptr n) k =
     (if valid_stage_range core ptr n ENV_MAX k then Some (Put_Env (user_bytes ptr n k)) else None)"

text \<open>The specification: one owner; another live owner's staging is left alone; a dead owner's is gone;
  an image grows only at its end, or starts over.\<close>

fun put_req :: "u64 \<Rightarrow> stage_req \<Rightarrow> staged \<Rightarrow> u64 \<times> staged" where
  "put_req me (Put_Image off chunk) a =
     (if off = 0 then (0, staged_empty\<lparr>st_owner := me, st_image := chunk\<rparr>)
      else if off = length (st_image a) then (0, a\<lparr>st_owner := me, st_image := st_image a @ chunk\<rparr>)
      else (SPAWN_ERROR, a))"
| "put_req me (Put_Args bs) a = (0, a\<lparr>st_owner := me, st_argv := bs\<rparr>)"
| "put_req me (Put_Cwd bs) a = (0, a\<lparr>st_owner := me, st_cwd := bs\<rparr>)"
| "put_req me (Put_Env bs) a = (0, a\<lparr>st_owner := me, st_env := bs\<rparr>)"

definition stage_spec :: "u64 \<Rightarrow> bool \<Rightarrow> stage_req option \<Rightarrow> staged \<Rightarrow> u64 \<times> staged" where
  "stage_spec me held req a =
     (case req of
        None \<Rightarrow> (SPAWN_ERROR, a)
      | Some r \<Rightarrow>
          if st_owner a = me then put_req me r a
          else if held then (SPAWN_ERR_STAGING_BUSY, a)
          else put_req me r staged_empty)"

lemma length_user_bytes [simp]: "length (user_bytes p n k) = unat n"
  by (simp add: user_bytes_def mem_read_def)

lemma user_bytes_staging [simp]: "user_bytes p n (k\<lparr>k_staging := s\<rparr>) = user_bytes p n k"
  by (simp add: user_bytes_def)

lemma unat_le_of_nat: "(n :: u64) \<le> of_nat m \<Longrightarrow> unat n \<le> m"
  by (simp add: word_le_nat_alt unat_of_nat)

lemma release_staging_ok:
  "staging_ok (k_staging k) \<Longrightarrow> staging_ok (k_staging (release_staging k))"
  "abs_staging (k_staging (release_staging k)) = staged_empty"
  by (simp_all add: staging_ok_def release_staging_def abs_staging_def staged_empty_def)

text \<open>The claim: whose the staging was, and what the caller finds in it.\<close>

lemma claim_staging_cases:
  assumes "task_id_of k (k_current k core) = Some me" "me \<noteq> 0"
  defines "held \<equiv> sg_stager (k_staging k) \<noteq> 0 \<and> live_occupant k (sg_stager (k_staging k)) \<noteq> None"
  shows "claim_staging core k =
    (if sg_stager (k_staging k) = me then (None, k)
     else if held then (Some SPAWN_ERR_STAGING_BUSY, k)
     else (None, (release_staging k)\<lparr>k_staging := (k_staging (release_staging k))\<lparr>sg_stager := me\<rparr>\<rparr>))"
  and "staging_state core k =
    (if sg_stager (k_staging k) = me then (Stage_Mine, k)
     else if held then (Stage_Held, k) else (Stage_Free, release_staging k))"
proof -
  have t: "task_id_of (release_staging k) = task_id_of k" "k_current (release_staging k) = k_current k"
    by (simp_all add: fun_eq_iff task_id_of_def release_staging_def)
  show s: "staging_state core k =
    (if sg_stager (k_staging k) = me then (Stage_Mine, k)
     else if held then (Stage_Held, k) else (Stage_Free, release_staging k))"
    using assms by (auto simp: staging_state_def Let_def)
  show "claim_staging core k =
    (if sg_stager (k_staging k) = me then (None, k)
     else if held then (Some SPAWN_ERR_STAGING_BUSY, k)
     else (None, (release_staging k)\<lparr>k_staging := (k_staging (release_staging k))\<lparr>sg_stager := me\<rparr>\<rparr>))"
    using assms(1) by (simp add: claim_staging_def s claim_from_def t)
qed

lemma release_stager_frame [simp]:
  "k_mem (release_staging k) = k_mem k" "k_current (release_staging k) = k_current k"
  "k_regions (release_staging k) = k_regions k" "task_id_of (release_staging k) t = task_id_of k t"
  "user_bytes p n (release_staging k) = user_bytes p n k"
  by (simp_all add: release_staging_def task_id_of_def user_bytes_def)

lemma put_front_user:
  "take (unat n) (put_front (user_bytes p n k) buf) = user_bytes p n k"
  "unat n \<le> length buf \<Longrightarrow> length (put_front (user_bytes p n k) buf) = length buf"
  by (simp_all add: put_front_def)

lemma put_chunk_abs:
  assumes "staging_ok sg" "off + length chunk \<le> SPAWN_STAGING_SIZE" "off = 0 \<or> off = sg_image_end sg"
  shows "abs_staging (put_chunk off chunk sg) =
    (if off = 0 then staged_empty\<lparr>st_owner := sg_stager sg, st_image := chunk\<rparr>
     else (abs_staging sg)\<lparr>st_image := st_image (abs_staging sg) @ chunk\<rparr>)"
  and "staging_ok (put_chunk off chunk sg)"
  using assms by (auto simp: put_chunk_def abs_staging_def staging_ok_def staged_empty_def Let_def)

lemma checked_add_bound:
  assumes "(unat (a :: u64) + unat b \<le> SPAWN_STAGING_SIZE)"
  shows "checked_add a b = Some (a + b)" "unat (a + b) = unat a + unat b"
proof -
  have l: "unat a + unat b < 2 ^ 64" using assms by (simp add: SPAWN_STAGING_SIZE_def)
  then show u: "unat (a + b) = unat a + unat b" by (simp add: unat_word_ariths)
  show "checked_add a b = Some (a + b)" using u by (simp add: checked_add_def word_less_nat_alt)
qed

lemma checked_add_beyond:
  assumes "SPAWN_STAGING_SIZE < unat (a :: u64) + unat b" "checked_add a b = Some e"
  shows "SPAWN_STAGING_SIZE < unat e"
  using assms unat_word_ariths(1) [of a b] by (auto simp: unat_checked_add)

lemma staging_stager_abs:
  "abs_staging (sg\<lparr>sg_stager := me\<rparr>) = (abs_staging sg)\<lparr>st_owner := me\<rparr>"
  "staging_ok (sg\<lparr>sg_stager := me\<rparr>) = staging_ok sg"
  by (simp_all add: abs_staging_def staging_ok_def)

lemma stage_image_refines:
  assumes "staging_ok (k_staging k)" "task_id_of k (k_current k core) = Some me" "me \<noteq> 0"
    and "sys_spawn_stage core off p n k = (v, k')"
  shows "(v, abs_staging (k_staging k')) =
      stage_spec me (sg_stager (k_staging k) \<noteq> 0 \<and> live_occupant k (sg_stager (k_staging k)) \<noteq> None)
        (stage_req_of core (Stage_Image off p n) k) (abs_staging (k_staging k)) \<and>
    staging_ok (k_staging k')"
proof (cases "valid_user_range core p n k \<and> unat off + unat n \<le> SPAWN_STAGING_SIZE")
  case False
  have l: "length (sg_image (k_staging k)) = SPAWN_STAGING_SIZE" using assms(1) by (simp add: staging_ok_def)
  have "v = SPAWN_ERROR" "k' = k"
    using assms(4) False checked_add_beyond [of off n]
    by (auto simp: sys_spawn_stage_def l split: if_splits option.splits)
  then show ?thesis using False assms(1) by (auto simp: stage_spec_def)
next
  case True
  let ?held = "sg_stager (k_staging k) \<noteq> 0 \<and> live_occupant k (sg_stager (k_staging k)) \<noteq> None"
  let ?b = "user_bytes p n k"
  have l: "length (sg_image (k_staging k)) = SPAWN_STAGING_SIZE" using assms(1) by (simp add: staging_ok_def)
  note c = claim_staging_cases [OF assms(2,3)]
  note run = sys_spawn_stage_def l checked_add_bound [OF conjunct2 [OF True]] True
  have nl: "\<not> SPAWN_STAGING_SIZE < unat off + unat n" using True by simp
  have o: "st_owner (abs_staging (k_staging k)) = sg_stager (k_staging k)"
    and im: "length (st_image (abs_staging (k_staging k))) = sg_image_end (k_staging k)"
    using assms(1) by (simp_all add: abs_staging_def staging_ok_def)
  have req: "stage_req_of core (Stage_Image off p n) k = Some (Put_Image (unat off) ?b)" using True by simp
  have r: "staging_ok (k_staging (release_staging k))" "abs_staging (k_staging (release_staging k)) = staged_empty"
    using release_staging_ok [of k] assms(1) by auto
  consider (mine) "sg_stager (k_staging k) = me" | (held) "sg_stager (k_staging k) \<noteq> me" "?held"
    | (free) "sg_stager (k_staging k) \<noteq> me" "\<not> ?held" by blast
  then show ?thesis
  proof cases
    case mine
    then show ?thesis
      using assms(1,4) True put_chunk_abs [OF assms(1), of "unat off" ?b] im
      by (auto simp: run nl c(2) claim_from_def req stage_spec_def o Let_def split: if_splits)
  next
    case held
    then have "v = SPAWN_ERR_STAGING_BUSY" "k' = k" using assms(4) by (auto simp: run nl c(2))
    then show ?thesis using held assms(1) by (simp add: req stage_spec_def o del: stage_req_of.simps)
  next
    case free
    have "staging_ok ((k_staging (release_staging k))\<lparr>sg_stager := me\<rparr>)" using r(1) by (simp add: staging_stager_abs)
    from put_chunk_abs [OF this, of 0 ?b] show ?thesis
      using free assms(2,4) True r
      by (auto simp: run nl c(2) claim_from_def req stage_spec_def o Let_def staged_empty_def split: if_splits)
  qed
qed

text \<open>(C35) The staging is a container with one owner that holds exactly what its owner put there: each of the four
  staging calls answers and acts as the specification says on the bytes staged since the owner's claim,
  so a live owner's bytes are not touched by others, a dead owner's are never seen again, and an image
  is only ever a run of chunks from offset 0 by one task.\<close>

theorem staging_refines:
  assumes "staging_ok (k_staging k)" "task_id_of k (k_current k core) = Some me" "me \<noteq> 0"
    and "stage_sys core call k = (v, k')"
  shows "(v, abs_staging (k_staging k')) =
      stage_spec me (sg_stager (k_staging k) \<noteq> 0 \<and> live_occupant k (sg_stager (k_staging k)) \<noteq> None)
        (stage_req_of core call k) (abs_staging (k_staging k)) \<and>
    staging_ok (k_staging k')"
proof -
  note c = claim_staging_cases [OF assms(2,3)]
  note d = abs_staging_def staging_ok_def release_staging_def staged_empty_def stage_spec_def put_front_user
  have n: "unat n \<le> m" if "valid_stage_range core p n m k" for p n m
    using that by (auto simp: valid_stage_range_def intro: unat_le_of_nat)
  show ?thesis
  proof (cases call)
    case (Stage_Image off p n)
    then show ?thesis using stage_image_refines [OF assms(1-3), of off p n] assms(4) by simp
  next
    case (Stage_Args p n)
    then show ?thesis using assms(1,4) n [of p n ARGV_MAX]
      by (auto simp: sys_args_stage_def c d split: if_splits)
  next
    case (Stage_Cwd p n)
    then show ?thesis using assms(1,4) n [of p n CWD_MAX]
      by (auto simp: sys_cwd_stage_def c d split: if_splits)
  next
    case (Stage_Env p n)
    then show ?thesis using assms(1,4) n [of p n ENV_MAX]
      by (auto simp: sys_env_stage_def c d split: if_splits)
  qed
qed

section \<open>The per-task stores of an empty slot\<close>

text \<open>The stores fit their buffers, and those of a slot without a live task are empty.\<close>

definition stores_ok :: "kernel \<Rightarrow> bool" where
  "stores_ok k \<longleftrightarrow> (\<forall>t<NUM_TASKS.
     length (k_argv k t) \<le> ARGV_MAX \<and> length (k_env k t) \<le> ENV_MAX \<and> length (k_cwd k t) \<le> CWD_MAX \<and>
     length (k_ns k t) \<le> NS_MAX \<and>
     (\<not> is_occupied k t \<longrightarrow> k_argv k t = [] \<and> k_env k t = [] \<and> k_cwd k t = [] \<and> k_ns k t = []))"

lemma grant_stdout_frame [simp]:
  "k_states (grant_stdout c t k) = k_states k" "k_tasks (grant_stdout c t k) = k_tasks k"
  "k_regions (grant_stdout c t k) = k_regions k" "k_current (grant_stdout c t k) = k_current k"
  "k_round (grant_stdout c t k) = k_round k" "k_boot_core (grant_stdout c t k) = k_boot_core k"
  "k_secondaries (grant_stdout c t k) = k_secondaries k" "k_idle_base (grant_stdout c t k) = k_idle_base k"
  "k_region_top (grant_stdout c t k) = k_region_top k" "k_input_owner (grant_stdout c t k) = k_input_owner k"
  "k_prev_owners (grant_stdout c t k) = k_prev_owners k" "k_fg_command (grant_stdout c t k) = k_fg_command k"
  "k_pending_kill (grant_stdout c t k) = k_pending_kill k" "k_kbd_raw (grant_stdout c t k) = k_kbd_raw k"
  "k_kbd (grant_stdout c t k) = k_kbd k" "k_calls (grant_stdout c t k) = k_calls k"
  "k_next_call (grant_stdout c t k) = k_next_call k" "k_gens (grant_stdout c t k) = k_gens k"
  "k_next_gen (grant_stdout c t k) = k_next_gen k" "k_mail (grant_stdout c t k) = k_mail k"
  "k_argv (grant_stdout c t k) = k_argv k" "k_env (grant_stdout c t k) = k_env k"
  "k_cwd (grant_stdout c t k) = k_cwd k" "k_ns (grant_stdout c t k) = k_ns k"
  "k_stdout (grant_stdout c t k) = k_stdout k" "k_ids (grant_stdout c t k) = k_ids k"
  "k_saved_ids (grant_stdout c t k) = k_saved_ids k" "k_groups (grant_stdout c t k) = k_groups k"
  "k_group_counts (grant_stdout c t k) = k_group_counts k" "k_creds (grant_stdout c t k) = k_creds k"
  "k_parents (grant_stdout c t k) = k_parents k" "k_grants (grant_stdout c t k) = k_grants k"
  "k_doomed (grant_stdout c t k) = k_doomed k" "k_staging (grant_stdout c t k) = k_staging k"
  "k_mem (grant_stdout c t k) = k_mem k" "k_ticks (grant_stdout c t k) = k_ticks k"
  "k_now_us (grant_stdout c t k) = k_now_us k" "k_serial (grant_stdout c t k) = k_serial k"
  "k_usb (grant_stdout c t k) = k_usb k" "k_net_frame (grant_stdout c t k) = k_net_frame k"
  by (simp_all add: grant_stdout_def set_delegate_def split: option.split)

lemma attach_argv_frame [simp]:
  "k_states (attach_argv c n k) = k_states k" "k_tasks (attach_argv c n k) = k_tasks k"
  "k_regions (attach_argv c n k) = k_regions k" "k_current (attach_argv c n k) = k_current k"
  "k_round (attach_argv c n k) = k_round k" "k_boot_core (attach_argv c n k) = k_boot_core k"
  "k_secondaries (attach_argv c n k) = k_secondaries k" "k_idle_base (attach_argv c n k) = k_idle_base k"
  "k_region_top (attach_argv c n k) = k_region_top k" "k_input_owner (attach_argv c n k) = k_input_owner k"
  "k_prev_owners (attach_argv c n k) = k_prev_owners k" "k_fg_command (attach_argv c n k) = k_fg_command k"
  "k_pending_kill (attach_argv c n k) = k_pending_kill k" "k_kbd_raw (attach_argv c n k) = k_kbd_raw k"
  "k_kbd (attach_argv c n k) = k_kbd k" "k_calls (attach_argv c n k) = k_calls k"
  "k_next_call (attach_argv c n k) = k_next_call k" "k_gens (attach_argv c n k) = k_gens k"
  "k_next_gen (attach_argv c n k) = k_next_gen k" "k_mail (attach_argv c n k) = k_mail k"
  "k_env (attach_argv c n k) = k_env k" "k_cwd (attach_argv c n k) = k_cwd k" "k_ns (attach_argv c n k) = k_ns k"
  "k_stdout (attach_argv c n k) = k_stdout k" "k_ids (attach_argv c n k) = k_ids k"
  "k_saved_ids (attach_argv c n k) = k_saved_ids k" "k_groups (attach_argv c n k) = k_groups k"
  "k_group_counts (attach_argv c n k) = k_group_counts k" "k_creds (attach_argv c n k) = k_creds k"
  "k_delegated (attach_argv c n k) = k_delegated k" "k_parents (attach_argv c n k) = k_parents k"
  "k_grants (attach_argv c n k) = k_grants k" "k_doomed (attach_argv c n k) = k_doomed k"
  "k_staging (attach_argv c n k) = k_staging k" "k_mem (attach_argv c n k) = k_mem k"
  "k_ticks (attach_argv c n k) = k_ticks k" "k_now_us (attach_argv c n k) = k_now_us k"
  "k_serial (attach_argv c n k) = k_serial k" "k_usb (attach_argv c n k) = k_usb k"
  "k_net_frame (attach_argv c n k) = k_net_frame k"
  by (simp_all add: attach_argv_def set_argv_def)

lemma attach_cwd_frame [simp]:
  "k_states (attach_cwd c n k) = k_states k" "k_tasks (attach_cwd c n k) = k_tasks k"
  "k_regions (attach_cwd c n k) = k_regions k" "k_current (attach_cwd c n k) = k_current k"
  "k_round (attach_cwd c n k) = k_round k" "k_boot_core (attach_cwd c n k) = k_boot_core k"
  "k_secondaries (attach_cwd c n k) = k_secondaries k" "k_idle_base (attach_cwd c n k) = k_idle_base k"
  "k_region_top (attach_cwd c n k) = k_region_top k" "k_input_owner (attach_cwd c n k) = k_input_owner k"
  "k_prev_owners (attach_cwd c n k) = k_prev_owners k" "k_fg_command (attach_cwd c n k) = k_fg_command k"
  "k_pending_kill (attach_cwd c n k) = k_pending_kill k" "k_kbd_raw (attach_cwd c n k) = k_kbd_raw k"
  "k_kbd (attach_cwd c n k) = k_kbd k" "k_calls (attach_cwd c n k) = k_calls k"
  "k_next_call (attach_cwd c n k) = k_next_call k" "k_gens (attach_cwd c n k) = k_gens k"
  "k_next_gen (attach_cwd c n k) = k_next_gen k" "k_mail (attach_cwd c n k) = k_mail k"
  "k_argv (attach_cwd c n k) = k_argv k" "k_env (attach_cwd c n k) = k_env k" "k_ns (attach_cwd c n k) = k_ns k"
  "k_stdout (attach_cwd c n k) = k_stdout k" "k_ids (attach_cwd c n k) = k_ids k"
  "k_saved_ids (attach_cwd c n k) = k_saved_ids k" "k_groups (attach_cwd c n k) = k_groups k"
  "k_group_counts (attach_cwd c n k) = k_group_counts k" "k_creds (attach_cwd c n k) = k_creds k"
  "k_delegated (attach_cwd c n k) = k_delegated k" "k_parents (attach_cwd c n k) = k_parents k"
  "k_grants (attach_cwd c n k) = k_grants k" "k_doomed (attach_cwd c n k) = k_doomed k"
  "k_staging (attach_cwd c n k) = k_staging k" "k_mem (attach_cwd c n k) = k_mem k"
  "k_ticks (attach_cwd c n k) = k_ticks k" "k_now_us (attach_cwd c n k) = k_now_us k"
  "k_serial (attach_cwd c n k) = k_serial k" "k_usb (attach_cwd c n k) = k_usb k"
  "k_net_frame (attach_cwd c n k) = k_net_frame k"
  by (simp_all add: attach_cwd_def set_cwd_def)

lemma attach_env_frame [simp]:
  "k_states (attach_env c n k) = k_states k" "k_tasks (attach_env c n k) = k_tasks k"
  "k_regions (attach_env c n k) = k_regions k" "k_current (attach_env c n k) = k_current k"
  "k_round (attach_env c n k) = k_round k" "k_boot_core (attach_env c n k) = k_boot_core k"
  "k_secondaries (attach_env c n k) = k_secondaries k" "k_idle_base (attach_env c n k) = k_idle_base k"
  "k_region_top (attach_env c n k) = k_region_top k" "k_input_owner (attach_env c n k) = k_input_owner k"
  "k_prev_owners (attach_env c n k) = k_prev_owners k" "k_fg_command (attach_env c n k) = k_fg_command k"
  "k_pending_kill (attach_env c n k) = k_pending_kill k" "k_kbd_raw (attach_env c n k) = k_kbd_raw k"
  "k_kbd (attach_env c n k) = k_kbd k" "k_calls (attach_env c n k) = k_calls k"
  "k_next_call (attach_env c n k) = k_next_call k" "k_gens (attach_env c n k) = k_gens k"
  "k_next_gen (attach_env c n k) = k_next_gen k" "k_mail (attach_env c n k) = k_mail k"
  "k_argv (attach_env c n k) = k_argv k" "k_cwd (attach_env c n k) = k_cwd k" "k_ns (attach_env c n k) = k_ns k"
  "k_stdout (attach_env c n k) = k_stdout k" "k_ids (attach_env c n k) = k_ids k"
  "k_saved_ids (attach_env c n k) = k_saved_ids k" "k_groups (attach_env c n k) = k_groups k"
  "k_group_counts (attach_env c n k) = k_group_counts k" "k_creds (attach_env c n k) = k_creds k"
  "k_delegated (attach_env c n k) = k_delegated k" "k_parents (attach_env c n k) = k_parents k"
  "k_grants (attach_env c n k) = k_grants k" "k_doomed (attach_env c n k) = k_doomed k"
  "k_staging (attach_env c n k) = k_staging k" "k_mem (attach_env c n k) = k_mem k"
  "k_ticks (attach_env c n k) = k_ticks k" "k_now_us (attach_env c n k) = k_now_us k"
  "k_serial (attach_env c n k) = k_serial k" "k_usb (attach_env c n k) = k_usb k"
  "k_net_frame (attach_env c n k) = k_net_frame k"
  by (simp_all add: attach_env_def set_env_def)

lemma attach_staged_frame [simp]:
  "k_states (attach_staged c s tgt st al cl el k) = k_states k"
  "k_tasks (attach_staged c s tgt st al cl el k) = k_tasks k"
  "k_regions (attach_staged c s tgt st al cl el k) = k_regions k"
  "k_current (attach_staged c s tgt st al cl el k) = k_current k"
  "k_round (attach_staged c s tgt st al cl el k) = k_round k"
  "k_boot_core (attach_staged c s tgt st al cl el k) = k_boot_core k"
  "k_secondaries (attach_staged c s tgt st al cl el k) = k_secondaries k"
  "k_idle_base (attach_staged c s tgt st al cl el k) = k_idle_base k"
  "k_region_top (attach_staged c s tgt st al cl el k) = k_region_top k"
  "k_input_owner (attach_staged c s tgt st al cl el k) = k_input_owner k"
  "k_prev_owners (attach_staged c s tgt st al cl el k) = k_prev_owners k"
  "k_fg_command (attach_staged c s tgt st al cl el k) = k_fg_command k"
  "k_pending_kill (attach_staged c s tgt st al cl el k) = k_pending_kill k"
  "k_kbd_raw (attach_staged c s tgt st al cl el k) = k_kbd_raw k"
  "k_kbd (attach_staged c s tgt st al cl el k) = k_kbd k"
  "k_calls (attach_staged c s tgt st al cl el k) = k_calls k"
  "k_next_call (attach_staged c s tgt st al cl el k) = k_next_call k"
  "k_gens (attach_staged c s tgt st al cl el k) = k_gens k"
  "k_next_gen (attach_staged c s tgt st al cl el k) = k_next_gen k"
  "k_mail (attach_staged c s tgt st al cl el k) = k_mail k"
  "k_creds (attach_staged c s tgt st al cl el k) = k_creds k"
  "k_parents (attach_staged c s tgt st al cl el k) = k_parents k"
  "k_grants (attach_staged c s tgt st al cl el k) = k_grants k"
  "k_doomed (attach_staged c s tgt st al cl el k) = k_doomed k"
  "k_staging (attach_staged c s tgt st al cl el k) = k_staging k"
  "k_mem (attach_staged c s tgt st al cl el k) = k_mem k"
  "k_ticks (attach_staged c s tgt st al cl el k) = k_ticks k"
  "k_now_us (attach_staged c s tgt st al cl el k) = k_now_us k"
  "k_serial (attach_staged c s tgt st al cl el k) = k_serial k"
  "k_usb (attach_staged c s tgt st al cl el k) = k_usb k"
  "k_net_frame (attach_staged c s tgt st al cl el k) = k_net_frame k"
  by (simp_all add: attach_staged_def Let_def inherit_id_def set_namespace_def set_stdout_target_def)

lemma take_min_length: "take (min (length xs) n) xs = take n xs"
  by (simp add: min_def)

lemma attach_store:
  "k_argv (attach_argv c n k) =
     (if n > 0 then (k_argv k)(c := take ARGV_MAX (take n (sg_args (k_staging k)))) else k_argv k)"
  "k_cwd (attach_cwd c n k) =
     (if n > 0 then (k_cwd k)(c := take CWD_MAX (take n (sg_cwd (k_staging k)))) else k_cwd k)"
  "k_env (attach_env c n k) =
     (if n > 0 then (k_env k)(c := take ENV_MAX (take n (sg_env (k_staging k)))) else k_env k)"
  by (simp_all only: attach_argv_def attach_cwd_def attach_env_def set_argv_def set_cwd_def set_env_def
      ARGV_CAP_def ENV_CAP_def CWD_CAP_def take_min_length split: if_split) simp_all

lemma attach_staged_fields:
  "k_argv (attach_staged c s tgt st al cl el k) =
     (if al > 0 then (k_argv k)(c := take ARGV_MAX (take al (sg_args (k_staging k)))) else k_argv k)"
  "k_cwd (attach_staged c s tgt st al cl el k) =
     (if cl > 0 then (k_cwd k)(c := take CWD_MAX (take cl (sg_cwd (k_staging k)))) else k_cwd k)"
  "k_env (attach_staged c s tgt st al cl el k) =
     (if el > 0 then (k_env k)(c := take ENV_MAX (take el (sg_env (k_staging k)))) else k_env k)"
  "k_ns (attach_staged c s tgt st al cl el k) = (k_ns k)(c := take NS_MAX (k_ns k s))"
  "k_stdout (attach_staged c s tgt st al cl el k) = (k_stdout k)(c := tgt)"
  "k_ids (attach_staged c s tgt st al cl el k) = (k_ids k)(c := k_ids k s)"
  "k_saved_ids (attach_staged c s tgt st al cl el k) = (k_saved_ids k)(c := k_ids k s)"
  "k_group_counts (attach_staged c s tgt st al cl el k) = (k_group_counts k)(c := k_group_counts k s)"
  unfolding attach_staged_def Let_def inherit_id_def set_namespace_def set_stdout_target_def NS_CAP_def take_min_length
  by (simp_all add: attach_store)

lemma spawn_in_frame [simp]:
  "k_round (spawn_in i s ctx r k) = k_round k" "k_boot_core (spawn_in i s ctx r k) = k_boot_core k"
  "k_secondaries (spawn_in i s ctx r k) = k_secondaries k" "k_idle_base (spawn_in i s ctx r k) = k_idle_base k"
  "k_region_top (spawn_in i s ctx r k) = k_region_top k" "k_fg_command (spawn_in i s ctx r k) = k_fg_command k"
  "k_pending_kill (spawn_in i s ctx r k) = k_pending_kill k" "k_kbd_raw (spawn_in i s ctx r k) = k_kbd_raw k"
  "k_argv (spawn_in i s ctx r k) = k_argv k" "k_env (spawn_in i s ctx r k) = k_env k"
  "k_cwd (spawn_in i s ctx r k) = k_cwd k" "k_stdout (spawn_in i s ctx r k) = k_stdout k"
  "k_saved_ids (spawn_in i s ctx r k) = k_saved_ids k" "k_groups (spawn_in i s ctx r k) = k_groups k"
  "k_group_counts (spawn_in i s ctx r k) = k_group_counts k" "k_creds (spawn_in i s ctx r k) = k_creds k"
  "k_grants (spawn_in i s ctx r k) = k_grants k" "k_doomed (spawn_in i s ctx r k) = k_doomed k"
  "k_staging (spawn_in i s ctx r k) = k_staging k" "k_ticks (spawn_in i s ctx r k) = k_ticks k"
  "k_now_us (spawn_in i s ctx r k) = k_now_us k" "k_serial (spawn_in i s ctx r k) = k_serial k"
  "k_usb (spawn_in i s ctx r k) = k_usb k" "k_net_frame (spawn_in i s ctx r k) = k_net_frame k"
  by (simp_all add: spawn_in_def Let_def set_state_def set_delegate_def clear_previous_owner_def set_parent_def
      issue_generation_def clear_delegations_at_def clear_delegations_of_def)

text \<open>A spawn that answers a slot: the program was well formed and loaded, and the slot was empty.\<close>

lemma load_staged_ok:
  assumes "load_staged core prog tgt st al cl el k = (v, k')" "unat v < NUM_TASKS"
  obtains h phs sz base p m c where "elf_region_size prog = Inr (h, phs, sz)"
    "base = k_region_top k - next_multiple_of sz (of_nat SLOT_ALIGN)"
    "populate_region prog h phs base sz (k_mem k) = (Inr p, m)"
    "v = of_nat c" "unat v = c" "FIRST_SPAWNABLE \<le> c" "c < NUM_TASKS" "k_states k c = Unused"
    "k' = attach_staged c (k_current k core) tgt st al cl el
       (spawn_in c (k_current k core) (initial_context p) (lp_region p) (k\<lparr>k_region_top := base, k_mem := m\<rparr>))"
proof -
  have err: "\<not> unat SPAWN_ERR_IMAGE_TOO_LARGE < NUM_TASKS" "\<not> unat SPAWN_ERR_BAD_ELF < NUM_TASKS"
      "\<not> unat SPAWN_ERR_NO_FREE_SLOT < NUM_TASKS"
    by (simp_all add: SPAWN_ERR_IMAGE_TOO_LARGE_def SPAWN_ERR_BAD_ELF_def SPAWN_ERR_NO_FREE_SLOT_def NUM_TASKS_def)
  obtain h phs sz where e: "elf_region_size prog = Inr (h, phs, sz)"
    using assms err by (auto simp: load_staged_def split: sum.splits loader_error.splits prod.splits)
  define base where "base = k_region_top k - next_multiple_of sz (of_nat SLOT_ALIGN)"
  have al: "allocate_runtime_region sz k = (base, k\<lparr>k_region_top := base\<rparr>)"
    by (simp add: allocate_runtime_region_def base_def Let_def)
  obtain p m where p: "populate_region prog h phs base sz (k_mem k) = (Inr p, m)"
    using assms err by (auto simp: load_staged_def e al split: prod.splits sum.splits)
  let ?k = "k\<lparr>k_region_top := base, k_mem := m\<rparr>"
  let ?find = "List.find (\<lambda>i. k_states k i = Unused) [FIRST_SPAWNABLE..<NUM_TASKS]"
  obtain c where c: "?find = Some c"
    using assms err by (cases ?find) (simp_all add: load_staged_def e al p spawn_def)
  have u: "FIRST_SPAWNABLE \<le> c" "c < NUM_TASKS" "k_states k c = Unused"
  proof -
    obtain j where "j < length [FIRST_SPAWNABLE..<NUM_TASKS]" "c = [FIRST_SPAWNABLE..<NUM_TASKS] ! j" "k_states k c = Unused"
      using c unfolding find_Some_iff by blast
    then show "FIRST_SPAWNABLE \<le> c" "c < NUM_TASKS" "k_states k c = Unused" by auto
  qed
  have "v = of_nat c" "k' = attach_staged c (k_current k core) tgt st al cl el
       (spawn_in c (k_current k core) (initial_context p) (lp_region p) ?k)"
    using assms by (simp_all add: load_staged_def e al p spawn_def c)
  moreover have "unat (of_nat c :: u64) = c" using u(2) by (simp add: unat_of_nat NUM_TASKS_def)
  ultimately show ?thesis using that [OF e base_def p _ _ u] by simp
qed

lemma attach_staged_delegated:
  "k_delegated (attach_staged c s tgt st al cl el k) = k_delegated (grant_stdout c st k)"
  unfolding attach_staged_def Let_def inherit_id_def set_namespace_def
  by (simp add: grant_stdout_def may_send_def holds_send_right_def set_delegate_def set_stdout_target_def split: option.split)

lemma may_send_cong: "k_delegated k = k_delegated k' \<Longrightarrow> may_send k = may_send k'"
  by (simp add: fun_eq_iff may_send_def holds_send_right_def)

lemma may_send_bits: "may_send k s d \<longleftrightarrow> d < NUM_TASKS \<and> (bit (caps_for_slot s) d \<or> bit (k_delegated k s) d)"
  using holds_send_right_bits [of d k s] by (auto simp: may_send_def)

lemma grant_stdout_may_send:
  assumes "t < NUM_TASKS"
  shows "may_send (grant_stdout c (Some t) k) c t"
proof -
  have "bit (push_bit t 1 :: u64) t" unfolding bit_push_bit_iff bit_1_iff using assms by (simp add: NUM_TASKS_def)
  then show ?thesis using assms by (simp add: grant_stdout_def may_send_bits set_delegate_def bit_or_iff)
qed

lemma spawnable_reaches_console: "FIRST_SPAWNABLE \<le> c \<Longrightarrow> may_send k c CON_TASK"
  by (simp add: may_send_bits caps_for_slot_def FIRST_SPAWNABLE_def FSD_TASK_def CON_TASK_def NET_TASK_def
      ACCT_TASK_def NUM_TASKS_def TO_SHELL_def TO_FSD_def TO_CON_def TO_ACCT_def bit_or_iff bit_push_bit_iff bit_1_iff)

text \<open>A spawn call that answers a slot was made by the owner of the staging.\<close>

lemma sys_spawn_ok:
  assumes "sys_spawn core a0 a1 a2 a3 k = (v, k')" "unat v < NUM_TASKS"
  obtains st k1 where "task_id_of k (k_current k core) = Some (sg_stager (k_staging k))"
    "sg_stager (k_staging k) \<noteq> 0"
    "unat a0 \<noteq> 0" "unat a0 \<le> length (sg_image (k_staging k))" "unat a0 \<le> sg_image_end (k_staging k)"
    "stdout_check (k_current k core) (snd (pending_env_len k)) a1 = Inr st"
    "load_staged core (take (unat a0) (sg_image (k_staging k))) a1 st
       (min (unat a2) (sg_argv_len (k_staging k))) (min (unat a3) (sg_cwd_len (k_staging k)))
       (min (sg_env_len (k_staging k)) ENV_MAX) (snd (pending_env_len k)) = (v, k1)"
    "k' = release_staging k1"
proof -
  have err: "\<not> unat SPAWN_ERR_TOO_LARGE < NUM_TASKS" "\<not> unat SPAWN_ERROR < NUM_TASKS"
      "\<not> unat SPAWN_ERR_STAGING_BUSY < NUM_TASKS" "\<not> unat TASK_ERR_NO_SUCH_TASK < NUM_TASKS"
      "\<not> unat MSG_ERR_DENIED < NUM_TASKS"
    by (simp_all add: SPAWN_ERR_TOO_LARGE_def SPAWN_ERROR_def SPAWN_ERR_STAGING_BUSY_def TASK_ERR_NO_SUCH_TASK_def
        MSG_ERR_DENIED_def NUM_TASKS_def unsigned_minus_1_eq_mask mask_eq_exp_minus_1)
  have m: "task_id_of k (k_current k core) = Some (sg_stager (k_staging k)) \<and> sg_stager (k_staging k) \<noteq> 0"
      "spawn_owner_check core k = (None, k)"
    using assms err by (auto simp: sys_spawn_def spawn_owner_check_def staging_state_def Let_def split: if_splits)
  obtain k1 where k1: "spawn_staged core a0 a1 a2 a3 k = (v, k1)" "k' = release_staging k1"
    using assms m(2) by (auto simp: sys_spawn_def split: prod.splits)
  let ?sg = "k_staging k" and ?k = "snd (pending_env_len k)"
  have f: "k_staging ?k = ?sg\<lparr>sg_env_len := 0\<rparr>" "k_current ?k = k_current k"
    by (simp_all add: pending_env_len_def)
  have nz: "unat a0 \<noteq> 0 \<and> unat a0 \<le> length (sg_image ?sg) \<and> unat a0 \<le> sg_image_end ?sg"
    using k1(1) assms(2) err by (auto simp: spawn_staged_def pending_env_len_def Let_def split: if_splits)
  then have g: "spawn_staged core a0 a1 a2 a3 k =
      (case stdout_check (k_current k core) ?k a1 of
        Inl code \<Rightarrow> (code, ?k)
      | Inr st \<Rightarrow> load_staged core (take (unat a0) (sg_image ?sg)) a1 st
       (min (unat a2) (sg_argv_len ?sg)) (min (unat a3) (sg_cwd_len ?sg)) (min (sg_env_len ?sg) ENV_MAX) ?k)"
    by (simp add: spawn_staged_def pending_env_len_def Let_def split: sum.split)
  have "\<not> (\<exists>code. stdout_check (k_current k core) ?k a1 = Inl code \<and> unat code < NUM_TASKS)"
    using err by (auto simp: stdout_check_def split: if_splits option.splits)
  then obtain st where st: "stdout_check (k_current k core) ?k a1 = Inr st"
    using g k1(1) assms(2) by (cases "stdout_check (k_current k core) ?k a1") auto
  show ?thesis by (rule that [of st k1]) (use m(1) nz g k1 st in simp_all)
qed

text \<open>What a spawn that answers a slot did, as one state.\<close>

lemma sys_spawn_made:
  assumes "sys_spawn core a0 a1 a2 a3 k = (v, k')" "unat v < NUM_TASKS"
  obtains st h phs sz p m where
    "task_id_of k (k_current k core) = Some (sg_stager (k_staging k))"
    "unat a0 \<noteq> 0" "unat a0 \<le> length (sg_image (k_staging k))" "unat a0 \<le> sg_image_end (k_staging k)"
    "stdout_check (k_current k core) (snd (pending_env_len k)) a1 = Inr st"
    "elf_region_size (take (unat a0) (sg_image (k_staging k))) = Inr (h, phs, sz)"
    "populate_region (take (unat a0) (sg_image (k_staging k))) h phs
       (k_region_top k - next_multiple_of sz (of_nat SLOT_ALIGN)) sz (k_mem k) = (Inr p, m)"
    "FIRST_SPAWNABLE \<le> unat v" "k_states k (unat v) = Unused"
    "k' = release_staging (attach_staged (unat v) (k_current k core) a1 st
       (min (unat a2) (sg_argv_len (k_staging k))) (min (unat a3) (sg_cwd_len (k_staging k)))
       (min (sg_env_len (k_staging k)) ENV_MAX)
       (spawn_in (unat v) (k_current k core) (initial_context p) (lp_region p) ((snd (pending_env_len k))
          \<lparr>k_region_top := k_region_top k - next_multiple_of sz (of_nat SLOT_ALIGN), k_mem := m\<rparr>)))"
proof -
  let ?k = "snd (pending_env_len k)" and ?img = "take (unat a0) (sg_image (k_staging k))"
  have fk: "k_states ?k = k_states k" "k_current ?k = k_current k" "k_region_top ?k = k_region_top k" "k_mem ?k = k_mem k"
    by (simp_all add: pending_env_len_def)
  obtain st k1 where o: "task_id_of k (k_current k core) = Some (sg_stager (k_staging k))"
      "unat a0 \<noteq> 0" "unat a0 \<le> length (sg_image (k_staging k))" "unat a0 \<le> sg_image_end (k_staging k)"
      "stdout_check (k_current k core) ?k a1 = Inr st"
      "load_staged core ?img a1 st (min (unat a2) (sg_argv_len (k_staging k))) (min (unat a3) (sg_cwd_len (k_staging k)))
       (min (sg_env_len (k_staging k)) ENV_MAX) ?k = (v, k1)"
      "k' = release_staging k1"
    by (rule sys_spawn_ok [OF assms]) blast
  obtain h phs sz base p m where l: "elf_region_size ?img = Inr (h, phs, sz)"
      "base = k_region_top ?k - next_multiple_of sz (of_nat SLOT_ALIGN)"
      "populate_region ?img h phs base sz (k_mem ?k) = (Inr p, m)"
      "FIRST_SPAWNABLE \<le> unat v" "k_states ?k (unat v) = Unused"
      "k1 = attach_staged (unat v) (k_current ?k core) a1 st (min (unat a2) (sg_argv_len (k_staging k)))
         (min (unat a3) (sg_cwd_len (k_staging k))) (min (sg_env_len (k_staging k)) ENV_MAX)
       (spawn_in (unat v) (k_current ?k core) (initial_context p) (lp_region p) (?k\<lparr>k_region_top := base, k_mem := m\<rparr>))"
    using load_staged_ok [OF o(6) assms(2)] by metis
  show ?thesis by (rule that [OF o(1-5) l(1) _ l(4)]) (use o(7) l in \<open>simp_all add: fk\<close>)
qed

text \<open>Whatever its output target is, the program may send to it.\<close>

lemma attached_may_send:
  assumes "stdout_check s k0 a1 = Inr st" "FIRST_SPAWNABLE \<le> c"
    and "k' = release_staging (attach_staged c s a1 st al cl el k)"
  shows "may_send k' c (unat a1)"
proof (cases "a1 = of_nat CON_TASK")
  case True
  then show ?thesis using spawnable_reaches_console [OF assms(2)] by (simp add: CON_TASK_def)
next
  case False
  then obtain t where t: "st = Some t" "t = unat a1" "t < NUM_TASKS"
    using assms(1) by (auto simp: stdout_check_def split: option.splits if_splits)
  have "k_delegated k' = k_delegated (grant_stdout c (Some t) k)"
    by (simp add: assms(3) release_staging_def attach_staged_delegated t(1))
  from may_send_cong [OF this] show ?thesis using grant_stdout_may_send [OF t(3)] t(2) by simp
qed

text \<open>(C36) A program starts with what its own spawner staged and nothing else: a spawn that answers a slot
  was made by the owner of the staging; the image loaded is a prefix of the image staged by it; the
  arguments, directory and environment are the staged bytes; the namespace and the identity are the
  spawner's, with no other saved identity to return to; the program may send to its output target; the
  slot was empty; and the staging is empty and free afterwards.\<close>

theorem spawn_from_own_staging:
  assumes "staging_ok (k_staging k)" "stores_ok k" "k_current k core < NUM_TASKS"
    and "sys_spawn core a0 a1 a2 a3 k = (v, k')" "unat v < NUM_TASKS"
    and "a = abs_staging (k_staging k)" "c = unat v" "s = k_current k core"
  shows "task_id_of k s = Some (st_owner a) \<and> k_states k c = Unused \<and> FIRST_SPAWNABLE \<le> c \<and>
    0 < unat a0 \<and> unat a0 \<le> length (st_image a) \<and>
    (\<exists>h phs sz p. elf_region_size (take (unat a0) (st_image a)) = Inr (h, phs, sz) \<and>
       populate_region (take (unat a0) (st_image a)) h phs
         (k_region_top k - next_multiple_of sz (of_nat SLOT_ALIGN)) sz (k_mem k) = (Inr p, k_mem k') \<and>
       k_tasks k' c = initial_context p \<and> k_regions k' c = lp_region p) \<and>
    k_argv k' c = take (unat a2) (st_argv a) \<and> k_cwd k' c = take (unat a3) (st_cwd a) \<and>
    k_env k' c = st_env a \<and> k_ns k' c = k_ns k s \<and> k_ids k' c = k_ids k s \<and> k_saved_ids k' c = k_ids k s \<and>
    k_stdout k' c = a1 \<and> may_send k' c (unat a1) \<and> abs_staging (k_staging k') = staged_empty"
proof -
  let ?k = "snd (pending_env_len k)"
  obtain st h phs sz p m where o: "task_id_of k s = Some (sg_stager (k_staging k))"
      "unat a0 \<noteq> 0" "unat a0 \<le> length (sg_image (k_staging k))" "unat a0 \<le> sg_image_end (k_staging k)"
      "stdout_check s ?k a1 = Inr st"
      "elf_region_size (take (unat a0) (sg_image (k_staging k))) = Inr (h, phs, sz)"
      "populate_region (take (unat a0) (sg_image (k_staging k))) h phs
         (k_region_top k - next_multiple_of sz (of_nat SLOT_ALIGN)) sz (k_mem k) = (Inr p, m)"
      "FIRST_SPAWNABLE \<le> c" "k_states k c = Unused"
      "k' = release_staging (attach_staged c s a1 st (min (unat a2) (sg_argv_len (k_staging k)))
         (min (unat a3) (sg_cwd_len (k_staging k))) (min (sg_env_len (k_staging k)) ENV_MAX)
       (spawn_in c s (initial_context p) (lp_region p)
         (?k\<lparr>k_region_top := k_region_top k - next_multiple_of sz (of_nat SLOT_ALIGN), k_mem := m\<rparr>)))"
    by (rule sys_spawn_made [OF assms(4,5)]) (use assms(7,8) in blast)
  have img: "take (unat a0) (st_image a) = take (unat a0) (sg_image (k_staging k))"
    using o(4) by (simp add: assms(6) abs_staging_def min_def)
  have ok: "sg_argv_len (k_staging k) \<le> ARGV_MAX" "sg_cwd_len (k_staging k) \<le> CWD_MAX" "sg_env_len (k_staging k) \<le> ENV_MAX"
      "sg_image_end (k_staging k) \<le> length (sg_image (k_staging k))"
    using assms(1) by (auto simp: staging_ok_def)
  have empty: "k_argv k c = []" "k_cwd k c = []" "k_env k c = []" and ns: "length (k_ns k s) \<le> NS_MAX"
    using assms(2,3,5,7,8) o(9) by (auto simp: stores_ok_def is_occupied_def)
  have cs: "c \<noteq> s" using o(1,9) by (auto simp: task_id_of_def)
  note f = o(10) release_staging_def attach_staged_fields spawn_in_fields pending_env_len_def assms(6)
  have "k_argv k' c = take (unat a2) (st_argv a)" using ok(1) empty(1) by (simp add: f abs_staging_def min_def)
  moreover have "k_cwd k' c = take (unat a3) (st_cwd a)" using ok(2) empty(2) by (simp add: f abs_staging_def min_def)
  moreover have "k_env k' c = st_env a" using ok(3) empty(3) by (simp add: f abs_staging_def min_def)
  moreover have "k_ns k' c = k_ns k s \<and> k_ids k' c = k_ids k s \<and> k_saved_ids k' c = k_ids k s \<and> k_stdout k' c = a1"
    "k_tasks k' c = initial_context p \<and> k_regions k' c = lp_region p \<and> k_mem k' = m"
    using ns cs by (simp_all add: f)
  moreover have "may_send k' c (unat a1)" by (rule attached_may_send [OF o(5,8,10)])
  moreover have "abs_staging (k_staging k') = staged_empty" by (simp add: o(10) release_staging_ok)
  ultimately show ?thesis
    using o(1-4,6-9) img ok(4) by (simp add: assms(6) abs_staging_def)
qed

lemma sample_elf_loads:
  "\<exists>p m'. populate_region (sample_ehdr @ sample_phdr) (elf_header_of sample_ehdr) [program_header_of sample_phdr]
     base 0x111000 m = (Inr p, m')"
proof -
  have l: "length sample_ehdr = 64" "length sample_phdr = 56" by (simp_all add: sample_ehdr_def sample_phdr_def)
  have h: "e_shoff (elf_header_of sample_ehdr) = 0"
    by (simp add: elf_header_of_def field_def slice_def sample_ehdr_def le_num_def)
  have p: "p_type (program_header_of sample_phdr) = 1" "p_vaddr (program_header_of sample_phdr) = 0"
      "p_memsz (program_header_of sample_phdr) = 0x2000" "p_offset (program_header_of sample_phdr) = 0"
      "p_filesz (program_header_of sample_phdr) = 0x78"
    by (simp_all add: program_header_of_def field_def slice_def sample_phdr_def le_num_def)
  show ?thesis
    by (simp add: populate_region_def find_section_by_name_def h p l PT_LOAD_def checked_add_def checked_sub_def Let_def)
qed

definition sample_stager :: kernel where
  "sample_stager = sample_owner\<lparr>
     k_current := (\<lambda>c. if c = 0 then 6 else IDLE), k_region_top := 0x40000000,
     k_regions := (k_regions sample_owner)(6 := (0x10000, 0x1000)), k_ids := (k_ids sample_owner)(6 := 0x3E8000003E8),
     k_staging := (k_staging sample_owner)\<lparr>sg_stager := 0x306, sg_image_end := 120,
       sg_image := sample_ehdr @ sample_phdr @ replicate (SPAWN_STAGING_SIZE - 120) 0\<rparr>\<rparr>"

lemma sample_stager_ok:
  "staging_ok (k_staging sample_stager)" "stores_ok sample_stager" "k_current sample_stager 0 = 6"
  "task_id_of sample_stager 6 = Some 0x306"
  "abs_staging (k_staging sample_stager) =
     \<lparr>st_owner = 0x306, st_image = sample_ehdr @ sample_phdr, st_argv = [], st_cwd = [], st_env = []\<rparr>"
proof -
  have l: "length sample_ehdr = 64" "length sample_phdr = 56" by (simp_all add: sample_ehdr_def sample_phdr_def)
  have f: "k_staging sample_stager = \<lparr>sg_stager = 0x306, sg_env_len = 0, sg_image_end = 120, sg_argv_len = 0, sg_cwd_len = 0,
        sg_image = sample_ehdr @ sample_phdr @ replicate (SPAWN_STAGING_SIZE - 120) 0, sg_args = replicate ARGV_MAX 0,
        sg_cwd = replicate CWD_MAX 0, sg_env = replicate ENV_MAX 0\<rparr>"
    by (simp add: sample_stager_def sample_owner_def kernel_new_def)
  show "staging_ok (k_staging sample_stager)"
    by (simp add: f staging_ok_def l) (simp add: SPAWN_STAGING_SIZE_def)
  show "stores_ok sample_stager" by (simp add: stores_ok_def sample_stager_def sample_owner_def kernel_new_def)
  show "k_current sample_stager 0 = 6" by (simp add: sample_stager_def)
  show "task_id_of sample_stager 6 = Some 0x306"
    using sample_owner_6(2) by (simp add: sample_stager_def task_id_of_def split: if_splits)
  show "abs_staging (k_staging sample_stager) =
     \<lparr>st_owner = 0x306, st_image = sample_ehdr @ sample_phdr, st_argv = [], st_cwd = [], st_env = []\<rparr>"
    by (simp add: f abs_staging_def l)
qed

lemma sample_spawn: "fst (sys_spawn 0 120 3 0 0 sample_stager) = 7"
proof -
  have l: "length sample_ehdr = 64" "length sample_phdr = 56" by (simp_all add: sample_ehdr_def sample_phdr_def)
  have o: "spawn_owner_check 0 sample_stager = (None, sample_stager)"
    using sample_stager_ok(3,4)
    by (simp add: spawn_owner_check_def staging_state_def Let_def) (simp add: sample_stager_def)
  define k where "k = snd (pending_env_len sample_stager)"
  have u: "k_states k = (\<lambda>i. if i < 2 \<or> i = 6 then Runnable else Unused)"
    by (auto simp: k_def pending_env_len_def sample_stager_def sample_owner_def kernel_new_def fun_eq_iff)
  have fnd: "List.find (\<lambda>i. k_states k i = Unused) [FIRST_SPAWNABLE..<NUM_TASKS] = Some 7"
    by (simp add: u FIRST_SPAWNABLE_def NUM_TASKS_def upt_rec)
  have img: "take 120 (sg_image (k_staging sample_stager)) = sample_ehdr @ sample_phdr"
      "length (sg_image (k_staging sample_stager)) = SPAWN_STAGING_SIZE" "sg_image_end (k_staging sample_stager) = 120"
    by (simp_all add: sample_stager_def l) (simp add: SPAWN_STAGING_SIZE_def)
  obtain p m where p: "populate_region (sample_ehdr @ sample_phdr) (elf_header_of sample_ehdr) [program_header_of sample_phdr]
     (fst (allocate_runtime_region 0x111000 k)) 0x111000 (k_mem k) = (Inr p, m)"
    using sample_elf_loads by blast
  have "fst (load_staged 0 (sample_ehdr @ sample_phdr) 3 None 0 0 0 k) = 7"
    using p by (simp add: load_staged_def sample_elf_size allocate_runtime_region_def Let_def spawn_def fnd)
  then have "fst (spawn_staged 0 120 3 0 0 sample_stager) = 7"
    by (simp add: spawn_staged_def pending_env_len_def Let_def img stdout_check_def CON_TASK_def k_def SPAWN_STAGING_SIZE_def)
       (simp add: sample_stager_def sample_owner_def kernel_new_def)
  then show ?thesis by (auto simp: sys_spawn_def o split: prod.split)
qed

theorem spawn_from_own_staging_witness:
  "k_states sample_stager 7 = Unused \<and> k_ids (snd (sys_spawn 0 120 3 0 0 sample_stager)) 7 = k_ids sample_stager 6 \<and>
   may_send (snd (sys_spawn 0 120 3 0 0 sample_stager)) 7 3"
proof -
  obtain k' where r: "sys_spawn 0 120 3 0 0 sample_stager = (7, k')"
    using sample_spawn by (cases "sys_spawn 0 120 3 0 0 sample_stager") auto
  from spawn_from_own_staging [OF sample_stager_ok(1,2) _ r _ refl refl refl] show ?thesis
    by (simp add: r sample_stager_ok(3) NUM_TASKS_def)
qed

theorem staging_refines_witness:
  "fst (stage_sys 0 (Stage_Args 0x10000 2) sample_stager) = 0 \<and>
   abs_staging (k_staging (snd (stage_sys 0 (Stage_Args 0x10000 2) sample_stager))) =
     (abs_staging (k_staging sample_stager))\<lparr>st_argv := [0, 0]\<rparr>"
proof -
  obtain v k' where r: "stage_sys 0 (Stage_Args 0x10000 2) sample_stager = (v, k')" by fastforce
  have g: "task_region sample_stager 6 = (0x10000, 0x1000)" "k_mem sample_stager = (\<lambda>_. 0)"
    by (simp_all add: task_region_def sample_stager_def sample_owner_def kernel_new_def)
  have q: "stage_req_of 0 (Stage_Args 0x10000 2) sample_stager = Some (Put_Args [0, 0])"
    by (simp add: valid_stage_range_def in_caller_region_def sample_stager_ok(3) saturating_add_def ARGV_MAX_def
        user_bytes_def mem_read_def max_def g) (simp add: numeral_2_eq_2)
  have "task_id_of sample_stager (k_current sample_stager 0) = Some 0x306" using sample_stager_ok(3,4) by simp
  from staging_refines [OF sample_stager_ok(1) this _ r] show ?thesis
    by (simp add: r q stage_spec_def sample_stager_ok(5) del: stage_sys.simps stage_req_of.simps)
qed

end
