(* ===== verification/Kernel_Regions.thy ===== *)
theory Kernel_Regions
  imports Kernel_Spawn
begin

text \<open>
  Where tasks live: the regions the runtime allocator hands out, one 2 MiB slot each, never overlap
  while their tasks live, as long as the allocator stays above the memory the boot used (\<open>fl\<close>); and
  what its last-in-first-out frees leave behind.
\<close>

section \<open>One slot at a time\<close>

lemma elf_region_size_bounds:
  assumes "elf_region_size img = Inr (h, phs, sz)"
  shows "0 < unat sz" "unat sz \<le> SLOT_ALIGN"
proof -
  obtain c where "c + 271 \<le> 512" "unat sz = (c + 271) * 4096" using elf_region_size_pages [OF assms] by blast
  then show "0 < unat sz" "unat sz \<le> SLOT_ALIGN" by (simp_all add: SLOT_ALIGN_def)
qed

lemma next_multiple_slot:
  assumes "0 < unat (sz :: u64)" "unat sz \<le> SLOT_ALIGN"
  shows "next_multiple_of sz (of_nat SLOT_ALIGN) = of_nat SLOT_ALIGN"
proof (cases "unat sz = SLOT_ALIGN")
  case True
  then have "sz = of_nat SLOT_ALIGN" by (simp add: word_unat_eq_iff unat_of_nat SLOT_ALIGN_def)
  then show ?thesis by (simp add: next_multiple_of_def)
next
  case False
  then have "sz < of_nat SLOT_ALIGN" using assms(2) by (simp add: word_less_nat_alt unat_of_nat SLOT_ALIGN_def)
  then have "sz mod of_nat SLOT_ALIGN = sz" by (simp add: mod_word_less)
  then show ?thesis using assms(1) by (auto simp: next_multiple_of_def Let_def)
qed

lemma unat_slot [simp]: "unat (of_nat SLOT_ALIGN :: u64) = SLOT_ALIGN"
  by (simp add: unat_of_nat SLOT_ALIGN_def)

section \<open>Regions do not overlap\<close>

text \<open>A region is the boot's, below \<open>fl\<close>, or the allocator's, above it and not below its top.\<close>

definition region_ok :: "u64 \<Rightarrow> u64 \<Rightarrow> u64 \<times> u64 \<Rightarrow> bool" where
  "region_ok fl tp r \<longleftrightarrow> snd r = 0 \<or>
     (if fl \<le> fst r then tp \<le> fst r \<and> unat (snd r) \<le> SLOT_ALIGN \<and> unat (fst r) + SLOT_ALIGN < 2 ^ 64
      else unat (fst r) + unat (snd r) \<le> unat fl)"

definition region_end_nat :: "u64 \<Rightarrow> u64 \<times> u64 \<Rightarrow> nat" where
  "region_end_nat fl r = (if fl \<le> fst r then unat (fst r) + SLOT_ALIGN else unat (fst r) + unat (snd r))"

definition apart :: "u64 \<Rightarrow> u64 \<times> u64 \<Rightarrow> u64 \<times> u64 \<Rightarrow> bool" where
  "apart fl r q \<longleftrightarrow> snd r = 0 \<or> snd q = 0 \<or>
     region_end_nat fl r \<le> unat (fst q) \<or> region_end_nat fl q \<le> unat (fst r)"

definition regions_ok :: "u64 \<Rightarrow> kernel \<Rightarrow> bool" where
  "regions_ok fl k \<longleftrightarrow> fl \<noteq> 0 \<and> fl \<le> k_region_top k \<and>
     (\<forall>t<NUM_TASKS. region_ok fl (k_region_top k) (k_regions k t)) \<and>
     (\<forall>t<NUM_TASKS. \<forall>u<NUM_TASKS. t \<noteq> u \<longrightarrow> apart fl (k_regions k t) (k_regions k u))"

lemma apart_sym: "apart fl r q = apart fl q r"
  by (auto simp: apart_def)

lemma apart_empty [simp]: "apart fl (b, 0) q" "apart fl q (b, 0)"
  by (simp_all add: apart_def)

lemma regions_ok_cong:
  "k_regions k = k_regions k' \<Longrightarrow> k_region_top k = k_region_top k' \<Longrightarrow> regions_ok fl k = regions_ok fl k'"
  by (simp add: regions_ok_def)

text \<open>Raising the tp to the end of a region that sat at it, and lowering it by a slot.\<close>

lemma region_ok_free:
  assumes "region_ok fl tp r" "apart fl (tp, sz) r" "fl \<le> tp" "sz \<noteq> 0" "unat tp + SLOT_ALIGN < 2 ^ 64"
  shows "region_ok fl (tp + of_nat SLOT_ALIGN) r"
proof -
  have "unat (tp + of_nat SLOT_ALIGN) = unat tp + SLOT_ALIGN"
    using assms(5) by (simp add: unat_word_ariths)
  moreover have "0 < SLOT_ALIGN" by (simp add: SLOT_ALIGN_def)
  ultimately show ?thesis
    using assms by (auto simp: region_ok_def apart_def region_end_nat_def word_le_nat_alt split: if_splits)
qed

lemma regions_ok_free:
  assumes "regions_ok fl k" "d < NUM_TASKS" "k_regions k d = (b, sz)"
    and "k_regions k' = (k_regions k)(d := (0, 0))" "k_region_top k' = k_region_top (free_runtime_region b sz k)"
  shows "regions_ok fl k'"
proof -
  have r: "region_ok fl (k_region_top k) (b, sz)" using assms(1-3) by (auto simp: regions_ok_def)
  have ap: "apart fl (k_regions k' t) (k_regions k' u)" if "t < NUM_TASKS" "u < NUM_TASKS" "t \<noteq> u" for t u
    using assms(1) that by (auto simp: regions_ok_def assms(4))
  show ?thesis
  proof (cases "k_region_top k = b \<and> sz \<noteq> 0")
    case True
    then have z: "unat sz \<le> SLOT_ALIGN" "unat b + SLOT_ALIGN < 2 ^ 64"
      using r assms(1) by (auto simp: region_ok_def regions_ok_def)
    have "0 < unat sz" using True by (simp add: unat_gt_0)
    then have tp: "k_region_top k' = b + of_nat SLOT_ALIGN"
      using True next_multiple_slot [OF _ z(1)] by (simp add: assms(5) free_runtime_region_def)
    have u: "unat (b + of_nat SLOT_ALIGN) = unat b + SLOT_ALIGN" using z(2) by (simp add: unat_word_ariths)
    have "region_ok fl (k_region_top k') (k_regions k' t)" if "t < NUM_TASKS" for t
    proof (cases "t = d")
      case False
      have "apart fl (b, sz) (k_regions k t)" using assms(1-3) that False by (auto simp: regions_ok_def)
      then show ?thesis
        using region_ok_free [of fl b "k_regions k t" sz] assms(1) that True z(2) False
        by (auto simp: regions_ok_def tp assms(4))
    qed (simp add: assms(4) region_ok_def)
    then show ?thesis using ap assms(1) True u by (auto simp: regions_ok_def tp word_le_nat_alt)
  next
    case False
    have "next_multiple_of 0 (of_nat SLOT_ALIGN) = 0" by (simp add: next_multiple_of_def)
    then have "k_region_top k' = k_region_top k"
      using False by (auto simp: assms(5) free_runtime_region_def Let_def)
    then show ?thesis
      using ap assms(1) by (auto simp: regions_ok_def assms(4) region_ok_def split: if_splits)
  qed
qed

lemma regions_ok_alloc:
  assumes "regions_ok fl k" "d < NUM_TASKS" "snd (k_regions k d) = 0" "unat fl + SLOT_ALIGN \<le> unat (k_region_top k)"
    and "unat sz \<le> SLOT_ALIGN" "base = k_region_top k - of_nat SLOT_ALIGN"
    and "k_regions k' = (k_regions k)(d := (base, sz))" "k_region_top k' = base"
  shows "regions_ok fl k'"
proof -
  have u: "unat base = unat (k_region_top k) - SLOT_ALIGN"
    using assms(4) by (simp add: assms(6) unat_sub word_le_nat_alt)
  have tp: "unat (k_region_top k) < 2 ^ 64" by (rule unat_u64_less)
  have f: "fl \<le> base" "base \<le> k_region_top k" using u assms(4) by (auto simp: word_le_nat_alt)
  have e: "unat base + SLOT_ALIGN = unat (k_region_top k)" using u assms(4) by simp
  have other: "region_ok fl base (k_regions k t) \<and> apart fl (base, sz) (k_regions k t)" if "t < NUM_TASKS" for t
  proof -
    have "region_ok fl (k_region_top k) (k_regions k t)" using assms(1) that by (simp add: regions_ok_def)
    then show ?thesis using f e u
      by (auto simp: region_ok_def apart_def region_end_nat_def word_le_nat_alt split: if_splits)
  qed
  have self: "region_ok fl base (base, sz)" using f(1) assms(5) e tp by (simp add: region_ok_def)
  show ?thesis
    using assms(1) other self f(1) apart_sym
    by (auto simp: regions_ok_def assms(7,8))
qed

section \<open>Leaks\<close>

text \<open>Two programs of one size that end in the order they were started.\<close>

definition leak_round :: "u64 \<Rightarrow> kernel \<Rightarrow> kernel" where
  "leak_round sz k =
     (case allocate_runtime_region sz k of (a, k1) \<Rightarrow>
        (case allocate_runtime_region sz k1 of (b, k2) \<Rightarrow>
           free_runtime_region b sz (free_runtime_region a sz k2)))"

lemma leak_round_top:
  assumes "0 < unat sz" "unat sz \<le> SLOT_ALIGN"
  shows "k_region_top (leak_round sz k) = k_region_top k - of_nat SLOT_ALIGN"
proof -
  have "(of_nat SLOT_ALIGN :: u64) \<noteq> 0" by (simp add: SLOT_ALIGN_def)
  then show ?thesis
    by (simp add: leak_round_def allocate_runtime_region_def free_runtime_region_def Let_def next_multiple_slot [OF assms])
qed

lemma leak_rounds_top:
  assumes "0 < unat sz" "unat sz \<le> SLOT_ALIGN"
  shows "k_region_top ((leak_round sz ^^ n) k) = k_region_top k - of_nat (n * SLOT_ALIGN)"
proof (induction n)
  case (Suc n)
  then show ?case by (simp add: leak_round_top [OF assms] diff_diff_eq add.commute)
qed simp

text \<open>(C37) The allocator runs down without bound: each pair of programs that end in the order they were
  started costs one slot for good, so after enough of them the next region handed out is any slot below
  the first, the boot's own memory included. Nothing checks a floor.\<close>

theorem leaks_reach_any_slot:
  assumes "0 < unat sz" "unat sz \<le> SLOT_ALIGN" "unat a + Suc n * SLOT_ALIGN = unat (k_region_top k)"
  shows "fst (allocate_runtime_region sz ((leak_round sz ^^ n) k)) = a"
proof -
  have "k_region_top k = of_nat (unat (k_region_top k))" by simp
  also have "\<dots> = of_nat (unat a + Suc n * SLOT_ALIGN)" by (simp only: assms(3))
  finally have "k_region_top k = a + of_nat (Suc n * SLOT_ALIGN)" by (simp del: mult_Suc)
  then show ?thesis
    by (simp add: allocate_runtime_region_def Let_def leak_rounds_top [OF assms(1,2)] next_multiple_slot [OF assms(1,2)])
qed

theorem leaks_reach_any_slot_witness:
  "fst (allocate_runtime_region 0x111000 ((leak_round 0x111000 ^^ 511) (kernel_new\<lparr>k_region_top := 0x80000000\<rparr>))) = 0x40000000"
  by (rule leaks_reach_any_slot) (simp_all add: SLOT_ALIGN_def)

end
