(* ===== verification/Supervisor.thy ===== *)
theory Supervisor
  imports Kernel_Life
begin

text \<open>
  The supervisor of the servers (\<open>src/kernel/src/supervisor.rs\<close>): the registry of kept images, restarts
  and their cap, the passive heartbeat and the active ping. The registry is a list of entries; every
  operation works on the first entry of the slot it names.
\<close>

section \<open>The registry\<close>

definition IMG_CAP :: nat where "IMG_CAP = 192 * 1024"
definition MAX_SUPERVISED :: nat where "MAX_SUPERVISED = 4"
definition MAX_RESTARTS :: u32 where "MAX_RESTARTS = 3"
definition WEDGE_TICKS :: u32 where "WEDGE_TICKS = 128"
definition PING_INTERVAL :: u32 where "PING_INTERVAL = 64"
definition PING_TIMEOUT :: u32 where "PING_TIMEOUT = 8"

datatype ping_action = Ping_None | Ping_Inject | Ping_Wedged

record entry =
  en_slot :: "nat option"
  en_image :: "u8 list"
  en_image_len :: nat
  en_restarts :: u32
  en_runnable_ticks :: u32
  en_ping_outstanding :: bool
  en_ping_wait :: u32
  en_idle_ticks :: u32

definition entry_empty :: entry where
  "entry_empty = \<lparr>en_slot = None, en_image = replicate IMG_CAP 0, en_image_len = 0, en_restarts = 0,
     en_runnable_ticks = 0, en_ping_outstanding = False, en_ping_wait = 0, en_idle_ticks = 0\<rparr>"

definition registry_new :: "entry list" where
  "registry_new = replicate MAX_SUPERVISED entry_empty"

definition reset_liveness :: "entry \<Rightarrow> entry" where
  "reset_liveness e = e\<lparr>en_runnable_ticks := 0, en_ping_outstanding := False, en_ping_wait := 0, en_idle_ticks := 0\<rparr>"

definition find_server :: "nat \<Rightarrow> entry list \<Rightarrow> entry option" where
  "find_server slot reg = List.find (\<lambda>e. en_slot e = Some slot) reg"

primrec update_first :: "('a \<Rightarrow> bool) \<Rightarrow> ('a \<Rightarrow> 'a) \<Rightarrow> 'a list \<Rightarrow> 'a list" where
  "update_first P f [] = []"
| "update_first P f (x # xs) = (if P x then f x # xs else x # update_first P f xs)"

definition update_entry :: "nat \<Rightarrow> (entry \<Rightarrow> entry) \<Rightarrow> entry list \<Rightarrow> entry list" where
  "update_entry slot f reg = update_first (\<lambda>e. en_slot e = Some slot) f reg"

datatype registered = Registered_Ok | Image_Too_Large | Registry_Full

definition registered_entry :: "nat \<Rightarrow> u8 list \<Rightarrow> entry \<Rightarrow> entry" where
  "registered_entry slot img e =
     reset_liveness (e\<lparr>en_slot := Some slot, en_image := img @ drop (length img) (en_image e),
       en_image_len := length img, en_restarts := 0\<rparr>)"

definition register_server :: "nat \<Rightarrow> u8 list \<Rightarrow> entry list \<Rightarrow> registered \<times> entry list" where
  "register_server slot img reg =
     (if img = [] \<or> length img > IMG_CAP then (Image_Too_Large, reg)
      else if list_ex (\<lambda>e. en_slot e = Some slot) reg then
        (Registered_Ok, update_entry slot (registered_entry slot img) reg)
      else if list_ex (\<lambda>e. en_slot e = None) reg then
        (Registered_Ok, update_first (\<lambda>e. en_slot e = None) (registered_entry slot img) reg)
      else (Registry_Full, reg))"

definition is_supervised :: "nat \<Rightarrow> entry list \<Rightarrow> bool" where
  "is_supervised slot reg = list_ex (\<lambda>e. en_slot e = Some slot) reg"

section \<open>Restarts\<close>

text \<open>The load of the kept image into the slot.\<close>

definition reload :: "nat \<Rightarrow> u8 list \<Rightarrow> kernel \<Rightarrow> kernel" where
  "reload slot img k =
     (case elf_region_size img of
        Inl _ \<Rightarrow> k
      | Inr (header, phdrs, region_size) \<Rightarrow>
          (case allocate_runtime_region region_size k of (region_base, k1) \<Rightarrow>
             (case populate_region img header phdrs region_base region_size (k_mem k1) of
                (Inl _, m) \<Rightarrow> free_runtime_region region_base region_size (k1\<lparr>k_mem := m\<rparr>)
              | (Inr loaded, m) \<Rightarrow>
                  (let k2 = install_task slot (initial_context loaded) (lp_region loaded) (k1\<lparr>k_mem := m\<rparr>) in
                   case server_name slot of Some name \<Rightarrow> set_name slot name k2 | None \<Rightarrow> k2))))"

definition restart :: "nat \<Rightarrow> kernel \<times> entry list \<Rightarrow> kernel \<times> entry list" where
  "restart slot kr =
     (case kr of (k, reg) \<Rightarrow>
      case find_server slot reg of
        None \<Rightarrow> (k, reg)
      | Some e \<Rightarrow>
          if en_image_len e = 0 then (k, reg)
          else let attempts = en_restarts e + 1;
                   e1 = e\<lparr>en_restarts := attempts\<rparr>
               in if attempts > MAX_RESTARTS then (k, update_entry slot (\<lambda>_. e1) reg)
                  else (reload slot (take (en_image_len e) (en_image e)) k,
                        update_entry slot (\<lambda>_. reset_liveness e1) reg))"

section \<open>Liveness\<close>

definition heartbeat :: "nat \<Rightarrow> bool \<Rightarrow> entry list \<Rightarrow> bool \<times> entry list" where
  "heartbeat slot blocked reg =
     (case find_server slot reg of
        None \<Rightarrow> (False, reg)
      | Some e \<Rightarrow>
          if blocked then (False, update_entry slot (\<lambda>_. e\<lparr>en_runnable_ticks := 0\<rparr>) reg)
          else let n = saturating_add (en_runnable_ticks e) 1 in
            (n = WEDGE_TICKS, update_entry slot (\<lambda>_. e\<lparr>en_runnable_ticks := n\<rparr>) reg))"

definition note_progress :: "nat \<Rightarrow> entry list \<Rightarrow> entry list" where
  "note_progress slot reg = update_entry slot (\<lambda>e. e\<lparr>en_runnable_ticks := 0\<rparr>) reg"

definition note_ack :: "nat \<Rightarrow> entry list \<Rightarrow> entry list" where
  "note_ack slot reg =
     note_progress slot
       (update_entry slot (\<lambda>e. e\<lparr>en_ping_outstanding := False, en_ping_wait := 0, en_idle_ticks := 0\<rparr>) reg)"

definition ping_entry :: "bool \<Rightarrow> entry \<Rightarrow> ping_action \<times> entry" where
  "ping_entry blocked e =
     (if \<not> blocked then (Ping_None, e\<lparr>en_ping_outstanding := False, en_ping_wait := 0, en_idle_ticks := 0\<rparr>)
      else if en_ping_outstanding e then
        (let w = saturating_add (en_ping_wait e) 1; e1 = e\<lparr>en_ping_wait := w\<rparr> in
         if w \<ge> PING_TIMEOUT then (Ping_Wedged, reset_liveness e1) else (Ping_None, e1))
      else
        (let i = saturating_add (en_idle_ticks e) 1; e1 = e\<lparr>en_idle_ticks := i\<rparr> in
         if i \<ge> PING_INTERVAL
         then (Ping_Inject, e1\<lparr>en_ping_outstanding := True, en_ping_wait := 0, en_idle_ticks := 0\<rparr>)
         else (Ping_None, e1)))"

definition poll_ping :: "nat \<Rightarrow> bool \<Rightarrow> entry list \<Rightarrow> ping_action \<times> entry list" where
  "poll_ping slot blocked reg =
     (case find_server slot reg of
        None \<Rightarrow> (Ping_None, reg)
      | Some e \<Rightarrow> (case ping_entry blocked e of (a, e1) \<Rightarrow> (a, update_entry slot (\<lambda>_. e1) reg)))"

section \<open>Entries\<close>

lemma find_update_entry:
  assumes "find_server slot reg = Some e" "en_slot (f e) = Some slot"
  shows "find_server slot (update_entry slot f reg) = Some (f e)"
  using assms by (induction reg) (auto simp: find_server_def update_entry_def split: if_splits)

lemma update_entry_absent: "find_server slot reg = None \<Longrightarrow> update_entry slot f reg = reg"
  by (induction reg) (auto simp: find_server_def update_entry_def split: if_splits)

lemma find_update_other:
  assumes "slot \<noteq> s" "\<And>e. en_slot e = Some slot \<Longrightarrow> en_slot (f e) = Some slot"
  shows "find_server s (update_entry slot f reg) = find_server s reg"
  using assms by (induction reg) (auto simp: find_server_def update_entry_def)

lemma find_server_slot: "find_server slot reg = Some e \<Longrightarrow> en_slot e = Some slot"
  by (auto simp: find_server_def find_Some_iff)

lemma saturating_Suc:
  "unat (saturating_add (n :: u32) 1) = min (unat n + 1) (2 ^ 32 - 1)"
proof (cases "n = - 1")
  case True
  then show ?thesis
    by (simp add: saturating_add_def unsigned_minus_1_eq_mask mask_eq_exp_minus_1 word_less_nat_alt)
next
  case False
  then have "unat (n + 1) = Suc (unat n)" by (metis add.commute add.inverse_unique unatSuc)
  moreover have "unat (n + 1) < 2 ^ 32" using unsigned_less [of "n + 1"] by simp
  ultimately show ?thesis by (simp add: saturating_add_def word_less_nat_alt)
qed

section \<open>When the heartbeat and the ping fire\<close>

text \<open>What happens to a server between two restarts: a tick at which it is blocked or not, and its own
  receives and acknowledgements.\<close>

datatype sup_event = Tick bool | Progress | Ack

definition sup_tick :: "nat \<Rightarrow> bool \<Rightarrow> entry list \<Rightarrow> bool \<times> ping_action \<times> entry list" where
  "sup_tick slot blocked reg =
     (case heartbeat slot blocked reg of (w, r1) \<Rightarrow> case poll_ping slot blocked r1 of (a, r2) \<Rightarrow> (w, a, r2))"

fun sup_apply :: "nat \<Rightarrow> sup_event \<Rightarrow> entry list \<Rightarrow> entry list" where
  "sup_apply slot (Tick b) reg = snd (snd (sup_tick slot b reg))"
| "sup_apply slot Progress reg = note_progress slot reg"
| "sup_apply slot Ack reg = note_ack slot reg"

text \<open>Two counts over a history, the most recent event first: the ticks at which the server was seen not
  blocked, with nothing else between them, and the ticks at which it was seen blocked since it last was
  not or last acknowledged.\<close>

fun streak :: "sup_event list \<Rightarrow> nat" where
  "streak (Tick False # es) = Suc (streak es)"
| "streak _ = 0"

fun quiet :: "sup_event list \<Rightarrow> nat" where
  "quiet (Tick True # es) = Suc (quiet es)"
| "quiet (Progress # es) = quiet es"
| "quiet _ = 0"

definition PING_CYCLE :: nat where "PING_CYCLE = unat PING_INTERVAL + unat PING_TIMEOUT"

lemma find_update_const:
  assumes "find_server slot reg = Some e" "en_slot x = Some slot"
  shows "find_server slot (update_entry slot (\<lambda>_. x) reg) = Some x"
  using find_update_entry [OF assms(1), of "\<lambda>_. x"] assms(2) by simp

lemma update_entry_twice:
  "en_slot x = Some slot \<Longrightarrow> update_entry slot (\<lambda>_. y) (update_entry slot (\<lambda>_. x) reg) = update_entry slot (\<lambda>_. y) reg"
  by (induction reg) (auto simp: update_entry_def)

lemma sup_tick_found:
  assumes "find_server slot reg = Some e"
  shows "sup_tick slot b reg =
    (let n = saturating_add (en_runnable_ticks e) 1;
         p = ping_entry b (e\<lparr>en_runnable_ticks := if b then 0 else n\<rparr>)
     in (\<not> b \<and> n = WEDGE_TICKS, fst p, update_entry slot (\<lambda>_. snd p) reg))"
  using find_server_slot [OF assms] assms
  by (cases b) (simp_all add: sup_tick_def heartbeat_def poll_ping_def update_entry_twice find_update_const Let_def case_prod_beta)

lemma ping_entry_keeps [simp]: "en_slot (snd (ping_entry b e)) = en_slot e"
  "en_restarts (snd (ping_entry b e)) = en_restarts e" "en_image (snd (ping_entry b e)) = en_image e"
  "en_image_len (snd (ping_entry b e)) = en_image_len e"
  by (simp_all add: ping_entry_def reset_liveness_def Let_def)

lemma found_after_tick:
  assumes "find_server slot reg = Some e"
  shows "find_server slot (sup_apply slot (Tick b) reg) =
    Some (snd (ping_entry b (e\<lparr>en_runnable_ticks := if b then 0 else saturating_add (en_runnable_ticks e) 1\<rparr>)))"
  using find_server_slot [OF assms]
  by (simp add: sup_tick_found [OF assms] Let_def find_update_const [OF assms])

text \<open>The counters of an entry whose liveness was reset, after a history.\<close>

definition counts :: "entry \<Rightarrow> sup_event list \<Rightarrow> bool" where
  "counts e evs \<longleftrightarrow> unat (en_runnable_ticks e) = min (streak evs) (2 ^ 32 - 1) \<and>
     (if quiet evs mod PING_CYCLE < 64 then \<not> en_ping_outstanding e \<and> unat (en_idle_ticks e) = quiet evs mod PING_CYCLE
      else en_ping_outstanding e \<and> unat (en_ping_wait e) + 64 = quiet evs mod PING_CYCLE \<and> en_idle_ticks e = 0)"

lemma PING_CYCLE_eq: "PING_CYCLE = 72"
  by (simp add: PING_CYCLE_def PING_INTERVAL_def PING_TIMEOUT_def)

lemma counts_ping:
  assumes "counts e evs"
  shows "fst (ping_entry True (e\<lparr>en_runnable_ticks := r\<rparr>)) =
      (if quiet evs mod PING_CYCLE = 63 then Ping_Inject else if quiet evs mod PING_CYCLE = 71 then Ping_Wedged else Ping_None)"
    and "counts (snd (ping_entry True (e\<lparr>en_runnable_ticks := 0\<rparr>))) (Tick True # evs)"
proof -
  define q where "q = quiet evs mod 72"
  have q: "q < 72" "Suc (quiet evs) mod 72 = (if q = 71 then 0 else Suc q)" by (simp_all add: mod_Suc q_def)
  have le: "PING_TIMEOUT \<le> n \<longleftrightarrow> 8 \<le> unat n" "PING_INTERVAL \<le> n \<longleftrightarrow> 64 \<le> unat n" for n
    by (simp_all add: PING_TIMEOUT_def PING_INTERVAL_def word_le_nat_alt)
  note d = ping_entry_def counts_def PING_CYCLE_eq reset_liveness_def le saturating_Suc Let_def
  show "fst (ping_entry True (e\<lparr>en_runnable_ticks := r\<rparr>)) =
      (if quiet evs mod PING_CYCLE = 63 then Ping_Inject else if quiet evs mod PING_CYCLE = 71 then Ping_Wedged else Ping_None)"
    using assms q(1) by (cases "q < 64") (auto simp add: d min_def simp flip: q_def)
  show "counts (snd (ping_entry True (e\<lparr>en_runnable_ticks := 0\<rparr>))) (Tick True # evs)"
    using assms q by (cases "q < 64") (auto simp add: d min_def simp flip: q_def)
qed

lemma counts_step:
  assumes "find_server slot reg = Some e" "counts e evs"
  shows "\<exists>e'. find_server slot (sup_apply slot ev reg) = Some e' \<and> counts e' (ev # evs)"
proof (cases ev)
  case (Tick b)
  show ?thesis
  proof (cases b)
    case True
    then show ?thesis using found_after_tick [OF assms(1), of True] counts_ping(2) [OF assms(2)] Tick by simp
  next
    case False
    then show ?thesis
      using found_after_tick [OF assms(1), of False] assms(2) Tick
      by (auto simp: ping_entry_def counts_def PING_CYCLE_eq saturating_Suc)
  qed
next
  case Progress
  then show ?thesis
    using find_update_entry [OF assms(1), of "\<lambda>e. e\<lparr>en_runnable_ticks := 0\<rparr>"] find_server_slot [OF assms(1)] assms(2)
    by (auto simp: note_progress_def counts_def)
next
  case Ack
  let ?f = "\<lambda>e. e\<lparr>en_ping_outstanding := False, en_ping_wait := 0, en_idle_ticks := 0\<rparr>"
  have "find_server slot (update_entry slot ?f reg) = Some (?f e)"
    using find_update_entry [OF assms(1), of ?f] find_server_slot [OF assms(1)] by simp
  from find_update_entry [OF this, of "\<lambda>e. e\<lparr>en_runnable_ticks := 0\<rparr>"] Ack show ?thesis
    using find_server_slot [OF assms(1)] assms(2) by (auto simp: note_ack_def note_progress_def counts_def)
qed

lemma counts_after:
  assumes "find_server slot reg = Some e" "counts e []"
  shows "\<exists>e'. find_server slot (foldr (sup_apply slot) evs reg) = Some e' \<and> counts e' evs"
proof (induction evs)
  case (Cons ev evs)
  then show ?case using counts_step by fastforce
qed (use assms in simp)

lemma reset_counts: "reset_liveness e = e \<Longrightarrow> counts e []"
proof -
  assume r: "reset_liveness e = e"
  have "en_runnable_ticks e = 0" "\<not> en_ping_outstanding e" "en_idle_ticks e = 0"
    by (subst r [symmetric], simp add: reset_liveness_def)+
  then show ?thesis by (simp add: counts_def PING_CYCLE_eq)
qed

text \<open>(C38) When a supervised server is judged dead, exactly: after any history of ticks, receives and
  acknowledgements since its liveness was reset, the next tick takes it for a runnable wedge just when
  it is the 128th in a row at which the server is seen not blocked with no receive and no
  acknowledgement between; it pings the server at the 64th tick of being seen blocked, and takes it for
  a blocked wedge 8 ticks later, just when it was seen blocked at all of those ticks and acknowledged at
  none.\<close>

theorem liveness_exact:
  assumes "find_server slot reg = Some e" "reset_liveness e = e"
    and "sup_tick slot b (foldr (sup_apply slot) evs reg) = (wedged, action, reg')"
  shows "wedged = (\<not> b \<and> streak evs = 127) \<and>
    action = (if b \<and> quiet evs mod PING_CYCLE = 63 then Ping_Inject
       else if b \<and> quiet evs mod PING_CYCLE = 71 then Ping_Wedged else Ping_None)"
proof -
  obtain e' where e: "find_server slot (foldr (sup_apply slot) evs reg) = Some e'" "counts e' evs"
    using counts_after [OF assms(1) reset_counts [OF assms(2)]] by blast
  have n: "saturating_add (en_runnable_ticks e') 1 = WEDGE_TICKS \<longleftrightarrow> streak evs = 127"
    using e(2) by (auto simp: word_unat_eq_iff saturating_Suc WEDGE_TICKS_def counts_def)
  show ?thesis
    using assms(3) n counts_ping(1) [OF e(2)] by (cases b) (auto simp: sup_tick_found [OF e(1)] Let_def ping_entry_def)
qed

lemma find_server_new:
  "find_server s (snd (register_server s [1, 2] registry_new)) = Some (registered_entry s [1, 2] entry_empty)"
proof -
  have r: "registry_new = entry_empty # replicate 3 entry_empty" by (simp add: registry_new_def MAX_SUPERVISED_def numeral_eq_Suc)
  have c: "\<not> IMG_CAP < Suc (Suc 0)" by (simp add: IMG_CAP_def)
  have n: "en_slot entry_empty = None" by (simp add: entry_empty_def)
  show ?thesis
    by (simp add: register_server_def r c n list_ex_iff find_server_def)
      (simp add: registered_entry_def reset_liveness_def)
qed

text \<open>A server registered at boot, seen not blocked at 127 ticks in a row, is taken for a wedge at the next
  one; a receive at any of them starts the count again.\<close>

theorem liveness_exact_witness:
  "find_server FSD_TASK (snd (register_server FSD_TASK [1, 2] registry_new)) = Some (registered_entry FSD_TASK [1, 2] entry_empty) \<and>
   reset_liveness (registered_entry FSD_TASK [1, 2] entry_empty) = registered_entry FSD_TASK [1, 2] entry_empty \<and>
   fst (sup_tick FSD_TASK False (foldr (sup_apply FSD_TASK) (replicate 127 (Tick False)) (snd (register_server FSD_TASK [1, 2] registry_new)))) \<and>
   \<not> fst (sup_tick FSD_TASK False (foldr (sup_apply FSD_TASK) (Progress # replicate 126 (Tick False))
       (snd (register_server FSD_TASK [1, 2] registry_new))))"
proof -
  let ?reg = "snd (register_server FSD_TASK [1, 2] registry_new)"
  have r: "reset_liveness (registered_entry FSD_TASK [1, 2] entry_empty) = registered_entry FSD_TASK [1, 2] entry_empty"
    by (simp add: registered_entry_def reset_liveness_def)
  have st: "streak (replicate n (Tick False)) = n" for n by (induction n) auto
  obtain w a r1 where t1: "sup_tick FSD_TASK False (foldr (sup_apply FSD_TASK) (replicate 127 (Tick False)) ?reg) = (w, a, r1)"
    by (metis prod_cases3)
  obtain w' a' r2 where t2: "sup_tick FSD_TASK False (foldr (sup_apply FSD_TASK) (Progress # replicate 126 (Tick False)) ?reg) = (w', a', r2)"
    by (metis prod_cases3)
  show ?thesis
    using liveness_exact [OF find_server_new r t1] liveness_exact [OF find_server_new r t2] st [of 127] t1 t2 find_server_new r
    by simp
qed

section \<open>Restarts are few\<close>

text \<open>The restarts of one server over a boot, each in some state of the kernel and after some events: whether
  it changed the kernel.\<close>

fun restart_log :: "nat \<Rightarrow> (kernel \<times> sup_event list) list \<Rightarrow> entry list \<Rightarrow> bool list" where
  "restart_log slot [] reg = []"
| "restart_log slot ((k, evs) # runs) reg =
     (case restart slot (k, foldr (sup_apply slot) evs reg) of (k', reg') \<Rightarrow> (k' \<noteq> k) # restart_log slot runs reg')"

lemma restart_found:
  assumes "find_server slot reg = Some e" "unat (en_restarts e) + 1 < 2 ^ 32" "restart slot (k, reg) = (k', reg')"
  shows "\<exists>e'. find_server slot reg' = Some e' \<and> (k' \<noteq> k \<longrightarrow> unat (en_restarts e) < 3 \<and> unat (en_restarts e') = unat (en_restarts e) + 1) \<and>
    unat (en_restarts e) \<le> unat (en_restarts e') \<and> unat (en_restarts e') \<le> unat (en_restarts e) + 1"
proof (cases "en_image_len e = 0")
  case True
  then show ?thesis using assms by (auto simp: restart_def)
next
  case False
  have u: "unat (en_restarts e + 1) = unat (en_restarts e) + 1"
    using assms(2) by (simp add: unat_word_ariths)
  have gt: "MAX_RESTARTS < en_restarts e + 1 \<longleftrightarrow> 3 < unat (en_restarts e) + 1"
    by (simp add: MAX_RESTARTS_def word_less_nat_alt u)
  show ?thesis
    using assms(1,3) False find_server_slot [OF assms(1)]
    by (auto simp: restart_def gt u Let_def reset_liveness_def find_update_const split: if_splits)
qed

lemma sup_apply_keeps:
  assumes "find_server slot reg = Some e"
  shows "\<exists>e'. find_server slot (sup_apply slot ev reg) = Some e' \<and> en_restarts e' = en_restarts e"
proof (cases ev)
  case (Tick b)
  then show ?thesis using found_after_tick [OF assms, of b] by simp
next
  case Progress
  then show ?thesis
    using find_update_entry [OF assms, of "\<lambda>e. e\<lparr>en_runnable_ticks := 0\<rparr>"] find_server_slot [OF assms]
    by (simp add: note_progress_def)
next
  case Ack
  let ?f = "\<lambda>e. e\<lparr>en_ping_outstanding := False, en_ping_wait := 0, en_idle_ticks := 0\<rparr>"
  have "find_server slot (update_entry slot ?f reg) = Some (?f e)"
    using find_update_entry [OF assms, of ?f] find_server_slot [OF assms] by simp
  from find_update_entry [OF this, of "\<lambda>e. e\<lparr>en_runnable_ticks := 0\<rparr>"] Ack show ?thesis
    using find_server_slot [OF assms] by (simp add: note_ack_def note_progress_def)
qed

lemma sup_events_keep:
  assumes "find_server slot reg = Some e"
  shows "\<exists>e'. find_server slot (foldr (sup_apply slot) evs reg) = Some e' \<and> en_restarts e' = en_restarts e"
proof (induction evs)
  case (Cons ev evs)
  then show ?case using sup_apply_keeps by fastforce
qed (use assms in simp)

lemma restart_log_count:
  assumes "find_server slot reg = Some e" "unat (en_restarts e) + length runs < 2 ^ 32"
  shows "length (filter (\<lambda>b. b) (restart_log slot runs reg)) \<le> 3 - min 3 (unat (en_restarts e))"
  using assms
proof (induction runs arbitrary: reg e)
  case (Cons r runs)
  obtain k evs where r: "r = (k, evs)" by (cases r)
  obtain e1 where e1: "find_server slot (foldr (sup_apply slot) evs reg) = Some e1" "en_restarts e1 = en_restarts e"
    using sup_events_keep [OF Cons.prems(1)] by blast
  obtain k' reg' where s: "restart slot (k, foldr (sup_apply slot) evs reg) = (k', reg')" by (cases "restart slot (k, foldr (sup_apply slot) evs reg)")
  have "unat (en_restarts e1) + 1 < 2 ^ 32" using Cons.prems(2) e1(2) by simp
  from restart_found [OF e1(1) this s] obtain e2 where e2: "find_server slot reg' = Some e2"
      "k' \<noteq> k \<longrightarrow> unat (en_restarts e) < 3 \<and> unat (en_restarts e2) = unat (en_restarts e) + 1"
      "unat (en_restarts e) \<le> unat (en_restarts e2)" "unat (en_restarts e2) \<le> unat (en_restarts e) + 1"
    by (auto simp: e1(2))
  have "length (filter (\<lambda>b. b) (restart_log slot runs reg')) \<le> 3 - min 3 (unat (en_restarts e2))"
    using Cons.IH [OF e2(1)] e2(4) Cons.prems(2) by simp
  then show ?case using e2(2,3) by (auto simp: r s min_def split: if_splits)
qed simp

text \<open>(C39) A server that keeps failing is reloaded at most three times in a boot: among any restarts of one
  server, whatever the kernel's state at each and whatever ticks, receives and acknowledgements lie
  between them, at most three change anything but the registry.\<close>

theorem restarts_capped:
  assumes "find_server slot reg = Some e" "en_restarts e = 0" "length runs < 2 ^ 32"
  shows "length (filter (\<lambda>b. b) (restart_log slot runs reg)) \<le> unat MAX_RESTARTS"
  using restart_log_count [OF assms(1), of runs] assms(2,3) by (simp add: MAX_RESTARTS_def)

theorem restarts_capped_witness:
  "find_server FSD_TASK (snd (register_server FSD_TASK [1, 2] registry_new)) = Some (registered_entry FSD_TASK [1, 2] entry_empty) \<and>
   length (filter (\<lambda>b. b) (restart_log FSD_TASK (replicate 5 (kernel_new, [Tick True])) (snd (register_server FSD_TASK [1, 2] registry_new))))
     \<le> unat MAX_RESTARTS"
  using restarts_capped [OF find_server_new, of FSD_TASK "replicate 5 (kernel_new, [Tick True])"] find_server_new
  by (simp add: registered_entry_def reset_liveness_def)

section \<open>Pings pile up\<close>

fun ping_run :: "nat \<Rightarrow> bool list \<Rightarrow> entry list \<Rightarrow> ping_action list" where
  "ping_run slot [] reg = []"
| "ping_run slot (b # bs) reg = (case sup_tick slot b reg of (_, a, reg') \<Rightarrow> a # ping_run slot bs reg')"

fun ping_spec :: "nat \<Rightarrow> bool list \<Rightarrow> ping_action list" where
  "ping_spec q [] = []"
| "ping_spec q (False # bs) = Ping_None # ping_spec 0 bs"
| "ping_spec q (True # bs) =
     (if q mod 72 = 63 then Ping_Inject else if q mod 72 = 71 then Ping_Wedged else Ping_None) # ping_spec (Suc q) bs"

lemma ping_run_spec:
  assumes "find_server slot reg = Some e" "counts e evs"
  shows "ping_run slot bs reg = ping_spec (quiet evs) bs"
  using assms
proof (induction bs arbitrary: reg e evs)
  case (Cons b bs)
  have t: "sup_apply slot (Tick b) reg = snd (snd (sup_tick slot b reg))" by simp
  have "fst (snd (sup_tick slot b reg)) = hd (ping_spec (quiet evs) (b # bs))"
    using counts_ping(1) [OF Cons.prems(2)]
    by (cases b) (simp_all add: sup_tick_found [OF Cons.prems(1)] Let_def PING_CYCLE_eq ping_entry_def)
  moreover obtain e' where "find_server slot (snd (snd (sup_tick slot b reg))) = Some e'" "counts e' (Tick b # evs)"
    using counts_step [OF Cons.prems, of "Tick b"] t by auto
  ultimately show ?case using Cons.IH by (cases b) (auto simp: case_prod_beta)
qed simp

lemma ping_spec_quiet: "q + n \<le> 63 \<Longrightarrow> ping_spec q (replicate n True @ bs) = replicate n Ping_None @ ping_spec (q + n) bs"
  by (induction n arbitrary: q) auto

lemma ping_spec_cycle:
  "ping_spec 0 (replicate 64 True @ False # bs) = replicate 63 Ping_None @ Ping_Inject # Ping_None # ping_spec 0 bs"
proof -
  have "replicate 64 True = replicate 63 True @ [True]" by (simp add: replicate_append_same numeral_eq_Suc)
  then show ?thesis by (simp add: ping_spec_quiet)
qed

text \<open>(C40) Unread pings pile up: one tick at which the server is seen not blocked forgets the ping it has not
  read, so a server that is blocked elsewhere for 64 ticks at a time is sent a ping each time and
  acknowledges none, as often as this happens.\<close>

theorem pings_pile_up:
  assumes "find_server slot reg = Some e" "reset_liveness e = e"
  shows "count_list (ping_run slot (concat (replicate n (replicate 64 True @ [False]))) reg) Ping_Inject = n \<and>
    Ping_Wedged \<notin> set (ping_run slot (concat (replicate n (replicate 64 True @ [False]))) reg)"
proof -
  have "counts e []" using reset_counts [OF assms(2)] .
  then have "ping_run slot (concat (replicate n (replicate 64 True @ [False]))) reg =
      ping_spec 0 (concat (replicate n (replicate 64 True @ [False])))"
    using ping_run_spec [OF assms(1)] by simp
  moreover have "count_list (ping_spec 0 (concat (replicate n (replicate 64 True @ [False])))) Ping_Inject = n \<and>
      Ping_Wedged \<notin> set (ping_spec 0 (concat (replicate n (replicate 64 True @ [False]))))"
    by (induction n) (simp_all add: ping_spec_cycle)
  ultimately show ?thesis by simp
qed

theorem pings_pile_up_witness:
  "find_server NET_TASK (snd (register_server NET_TASK [1, 2] registry_new)) = Some (registered_entry NET_TASK [1, 2] entry_empty) \<and>
   count_list (ping_run NET_TASK (concat (replicate 4 (replicate 64 True @ [False])))
     (snd (register_server NET_TASK [1, 2] registry_new))) Ping_Inject = 4"
  using pings_pile_up [OF find_server_new [of NET_TASK], of 4] find_server_new [of NET_TASK]
  by (simp add: registered_entry_def reset_liveness_def)

end
