(* ===== verification/Kernel_Syscall.thy ===== *)
theory Kernel_Syscall
  imports Kernel_Spawn Supervisor
begin

text \<open>
  The system calls (\<open>dispatch\<close> and \<open>dispatch_locked\<close> in \<open>src/kernel/src/syscall.rs\<close>): one definition per
  arm that works on the kernel's own state, and the table that picks one by its number. The arms
  that only drive a device (console, framebuffer, disk, network card, entropy, power) have no entry.
  A call is made by the task that is current on the entering core; \<open>frame\<close> is its trap frame. The answer
  is the value for the first register of whichever task the frame holds at the end; \<open>None\<close>: the kernel
  halts.
\<close>

unbundle bit_operations_syntax

section \<open>Answers\<close>

definition NO_CHAR :: u64 where "NO_CHAR = - 1"
definition FS_ERROR :: u64 where "FS_ERROR = - 1"
definition NO_ARG :: u64 where "NO_ARG = - 1"
definition EXIT_DENIED :: u64 where "EXIT_DENIED = - 1"
definition TASK_STATE_INVALID :: u64 where "TASK_STATE_INVALID = - 1"
definition TASK_NO_EXIT_CODE :: u64 where "TASK_NO_EXIT_CODE = - 1"
definition GET_ID_ERR :: u64 where "GET_ID_ERR = - 1"
definition NET_ERROR :: u64 where "NET_ERROR = - 2"
definition KBD_COOKED :: u64 where "KBD_COOKED = 0"
definition KBD_RAW :: u64 where "KBD_RAW = 1"
definition KBD_QUERY :: u64 where "KBD_QUERY = 2"
definition KBD_FLUSH :: u64 where "KBD_FLUSH = 0x100"
definition KBD_MODE_BAD :: u64 where "KBD_MODE_BAD = - 2"
definition GRANT_MAX :: u64 where "GRANT_MAX = 64 * 1024"
definition SAFECOPY_MAX :: u64 where "SAFECOPY_MAX = 2048"
definition TICK_INTERVAL_MS :: u64 where "TICK_INTERVAL_MS = 20"

text \<open>The outcome of a call: the answer, the frame and the machine, the kernel with the registry of the
  supervised servers.\<close>

type_synonym machine = "kernel \<times> entry list"
type_synonym sys_outcome = "(u64 \<times> cpu_context \<times> machine) option"

section \<open>Reading keys and waiting\<close>

definition sys_try_read_char :: "nat \<Rightarrow> kernel \<Rightarrow> u64 \<times> kernel" where
  "sys_try_read_char core k =
     (case poll_keyboard_byte (k_current k core) k of
        (Some byte, k1) \<Rightarrow> (ucast byte, k1) | (None, k1) \<Rightarrow> (NO_CHAR, k1))"

definition sys_read_char :: "nat \<Rightarrow> cpu_context \<Rightarrow> kernel \<Rightarrow> outcome" where
  "sys_read_char core frame k =
     (case poll_keyboard_byte (k_current k core) k of
        (Some byte, k1) \<Rightarrow> Some (ucast byte, frame, k1)
      | (None, k1) \<Rightarrow> block_current_and_switch core frame Wait_Keyboard k1)"

definition sys_sleep_until :: "nat \<Rightarrow> cpu_context \<Rightarrow> u64 \<Rightarrow> kernel \<Rightarrow> outcome" where
  "sys_sleep_until core frame a0 k =
     (if k_now_us k \<ge> a0 then Some (0, frame, k) else block_current_and_switch core frame (Wait_Sleep a0) k)"

definition sys_key_wait_until :: "nat \<Rightarrow> cpu_context \<Rightarrow> u64 \<Rightarrow> kernel \<Rightarrow> outcome" where
  "sys_key_wait_until core frame a0 k =
     (case key_wait_answer (k_current k core) a0 k of
        (Some answer, k1) \<Rightarrow> Some (answer, frame, k1)
      | (None, k1) \<Rightarrow> block_current_and_switch core frame (Wait_Key a0) k1)"

definition sys_kbd_mode :: "nat \<Rightarrow> u64 \<Rightarrow> kernel \<Rightarrow> u64 \<times> kernel" where
  "sys_kbd_mode core a0 k =
     (let me = k_current k core; mode = a0 AND NOT KBD_FLUSH in
      if mode \<noteq> KBD_COOKED \<and> mode \<noteq> KBD_RAW \<and> mode \<noteq> KBD_QUERY then (KBD_MODE_BAD, k)
      else
        let k1 = (if a0 AND KBD_FLUSH \<noteq> 0 then keyboard_flush_input me k else k);
            k2 = (if mode = KBD_QUERY then k1 else set_kbd_raw me (mode = KBD_RAW) k1)
        in (if k_kbd_raw k2 me then KBD_RAW else KBD_COOKED, k2))"

definition net_access_allowed :: "nat \<Rightarrow> kernel \<Rightarrow> bool" where
  "net_access_allowed core k = cap_has (k_current k core) CAP_NET"

definition sys_net_wait :: "nat \<Rightarrow> cpu_context \<Rightarrow> u64 \<Rightarrow> kernel \<Rightarrow> outcome" where
  "sys_net_wait core frame a0 k =
     (if \<not> net_access_allowed core k then Some (NET_ERROR, frame, k)
      else
        let deadline = (if a0 = 0 then 0
              else let ticks = a0 div TICK_INTERVAL_MS + (if a0 mod TICK_INTERVAL_MS = 0 then 0 else 1)
                   in k_ticks k + max ticks 1)
        in block_current_and_switch core frame (Wait_NetInput deadline) k)"

section \<open>A task's own data\<close>

definition sys_get_cwd :: "nat \<Rightarrow> u64 \<Rightarrow> u64 \<Rightarrow> kernel \<Rightarrow> u64 \<times> kernel" where
  "sys_get_cwd core a0 a1 k =
     (case copy_out core a0 a1 (k_cwd k (k_current k core)) k of
        (Some n, k1) \<Rightarrow> (n, k1) | (None, k1) \<Rightarrow> (0, k1))"

definition sys_ns_set :: "nat \<Rightarrow> u64 \<Rightarrow> u64 \<Rightarrow> kernel \<Rightarrow> u64 \<times> kernel" where
  "sys_ns_set core a0 a1 k =
     (let me = k_current k core in
      if a1 = 0 then (0, set_namespace me [] k)
      else if \<not> valid_stage_range core a0 a1 NS_MAX k then (SPAWN_ERROR, k)
      else (0, set_namespace me (user_bytes a0 a1 k) k))"

definition sys_get_ns :: "nat \<Rightarrow> u64 \<Rightarrow> u64 \<Rightarrow> kernel \<Rightarrow> u64 \<times> kernel" where
  "sys_get_ns core a0 a1 k =
     (case copy_out core a0 a1 (k_ns k (k_current k core)) k of
        (Some n, k1) \<Rightarrow> (n, k1) | (None, k1) \<Rightarrow> (0, k1))"

text \<open>An argument of a blob, copied out; the same for the arguments and the environment.\<close>

definition get_entry :: "nat \<Rightarrow> u8 list \<Rightarrow> u64 \<Rightarrow> u64 \<Rightarrow> u64 \<Rightarrow> kernel \<Rightarrow> u64 \<times> kernel" where
  "get_entry core blob a0 a1 a2 k =
     (case argv_get blob a0 of
        None \<Rightarrow> (NO_ARG, k)
      | Some bytes \<Rightarrow> (case copy_out core a1 a2 bytes k of (Some n, k1) \<Rightarrow> (n, k1) | (None, k1) \<Rightarrow> (NO_ARG, k1)))"

definition sys_get_arg :: "nat \<Rightarrow> u64 \<Rightarrow> u64 \<Rightarrow> u64 \<Rightarrow> kernel \<Rightarrow> u64 \<times> kernel" where
  "sys_get_arg core a0 a1 a2 k = get_entry core (k_argv k (k_current k core)) a0 a1 a2 k"

definition sys_get_env :: "nat \<Rightarrow> u64 \<Rightarrow> u64 \<Rightarrow> u64 \<Rightarrow> kernel \<Rightarrow> u64 \<times> kernel" where
  "sys_get_env core a0 a1 a2 k = get_entry core (k_env k (k_current k core)) a0 a1 a2 k"

definition sys_heap_info :: "nat \<Rightarrow> u64 \<Rightarrow> kernel \<Rightarrow> u64" where
  "sys_heap_info core a0 k =
     (case task_region k (k_current k core) of (base, sz) \<Rightarrow>
      case heap_area base sz of (heap_base, heap_size) \<Rightarrow>
      case stack_area base sz of (stack_base, stack_size) \<Rightarrow>
        if a0 = 0 then heap_base
        else if a0 = 1 then heap_size
        else if a0 = 2 then stack_base
        else if a0 = 3 then stack_size
        else if a0 = 4 then image_max
        else 0)"

section \<open>Identity\<close>

text \<open>The list of group ids in a caller's buffer, read a byte at a time.\<close>

definition read_gids :: "u64 \<Rightarrow> nat \<Rightarrow> kernel \<Rightarrow> u32 list" where
  "read_gids ptr n k =
     (let bytes = user_bytes ptr (of_nat (n * 4)) k
      in map (\<lambda>i. ucast (le_num (slice (i * 4) (i * 4 + 4) bytes))) [0..<n])"

definition write_gids :: "u64 \<Rightarrow> u32 list \<Rightarrow> kernel \<Rightarrow> kernel" where
  "write_gids ptr gids k = store_bytes ptr (concat (map le_bytes4 gids)) k"

definition sys_set_id :: "nat \<Rightarrow> u64 \<Rightarrow> u64 \<Rightarrow> u64 \<Rightarrow> u64 \<Rightarrow> kernel \<Rightarrow> u64 \<times> kernel" where
  "sys_set_id core a0 a1 a2 a3 k =
     (let cur = k_current k core;
          new = push_bit 32 (ucast (ucast a1 :: u32)) OR ucast (ucast a0 :: u32);
          is_root = (uid_of k cur = 0);
          n = min (unat a3) MAX_SUPP_GROUPS
      in if \<not> is_root \<and> new \<noteq> saved_id_of k cur then (SET_ID_DENIED, k)
         else if \<not> is_root \<and> n > 0 then (SET_ID_DENIED, k)
         else if n > 0 \<and> \<not> valid_user_range core a2 (of_nat (n * 4)) k then (SET_ID_DENIED, k)
         else (0, apply_id cur new (set_groups cur (read_gids a2 n k) k)))"

definition sys_get_groups :: "nat \<Rightarrow> u64 \<Rightarrow> u64 \<Rightarrow> u64 \<Rightarrow> kernel \<Rightarrow> u64 \<times> kernel" where
  "sys_get_groups core a0 a1 a2 k =
     (case live_index k (unat a0) of
        None \<Rightarrow> (GET_ID_ERR, k)
      | Some t \<Rightarrow>
          (let cap = min (unat a2) MAX_SUPP_GROUPS in
           if cap > 0 \<and> \<not> valid_user_range core a1 (of_nat (cap * 4)) k then (GET_ID_ERR, k)
           else case groups_of k t (replicate cap 0) of (count, gids) \<Rightarrow>
             (of_nat count, write_gids a1 (take (min cap count) gids) k)))"

definition sys_get_id :: "u64 \<Rightarrow> kernel \<Rightarrow> u64" where
  "sys_get_id a0 k = (case live_index k (unat a0) of Some t \<Rightarrow> id_of k t | None \<Rightarrow> GET_ID_ERR)"

text \<open>An option of a value that is the answer, the error otherwise.\<close>

definition or_else :: "u64 option \<Rightarrow> u64 \<Rightarrow> u64" where
  "or_else x d = (case x of Some v \<Rightarrow> v | None \<Rightarrow> d)"

definition sys_sender_id :: "nat \<Rightarrow> kernel \<Rightarrow> u64" where
  "sys_sender_id core k = or_else (sender_id_of k (k_current k core)) GET_ID_ERR"

definition sys_sender_task :: "nat \<Rightarrow> kernel \<Rightarrow> u64" where
  "sys_sender_task core k = or_else (sender_task_of k (k_current k core)) GET_ID_ERR"

definition sys_sender_call :: "nat \<Rightarrow> kernel \<Rightarrow> u64" where
  "sys_sender_call core k = or_else (sender_call_of k (k_current k core)) GET_ID_ERR"

definition sys_task_identity :: "u64 \<Rightarrow> kernel \<Rightarrow> u64" where
  "sys_task_identity a0 k = or_else (task_id_of k (unat a0)) GET_ID_ERR"

definition sys_sender_groups :: "nat \<Rightarrow> u64 \<Rightarrow> u64 \<Rightarrow> kernel \<Rightarrow> u64 \<times> kernel" where
  "sys_sender_groups core a0 a1 k =
     (let cap = min (unat a1) MAX_SUPP_GROUPS in
      if cap > 0 \<and> \<not> valid_user_range core a0 (of_nat (cap * 4)) k then (GET_ID_ERR, k)
      else case sender_groups_of k (k_current k core) (replicate cap 0) of
        None \<Rightarrow> (GET_ID_ERR, k)
      | Some (count, gids) \<Rightarrow> (of_nat count, write_gids a0 (take (min cap count) gids) k))"

section \<open>Tasks\<close>

definition sys_exit :: "nat \<Rightarrow> cpu_context \<Rightarrow> u64 \<Rightarrow> kernel \<Rightarrow> outcome" where
  "sys_exit core frame a0 k =
     (if \<not> is_spawnable (k_current k core) then Some (EXIT_DENIED, frame, k)
      else exit_current_and_switch core a0 k)"

definition sys_task_state :: "u64 \<Rightarrow> kernel \<Rightarrow> u64" where
  "sys_task_state a0 k =
     (case task_index (unat a0) of Some t \<Rightarrow> task_state_code k t | None \<Rightarrow> TASK_STATE_INVALID)"

definition sys_task_name :: "nat \<Rightarrow> u64 \<Rightarrow> u64 \<Rightarrow> u64 \<Rightarrow> kernel \<Rightarrow> u64 \<times> kernel" where
  "sys_task_name core a0 a1 a2 k =
     (case task_index (unat a0) of
        None \<Rightarrow> (0, k)
      | Some t \<Rightarrow>
          (case argv_get (k_argv k t) 0 of
             None \<Rightarrow> (0, k)
           | Some name \<Rightarrow> (case copy_out core a1 a2 name k of (Some n, k1) \<Rightarrow> (n, k1) | (None, k1) \<Rightarrow> (0, k1))))"

definition sys_task_exit_code :: "u64 \<Rightarrow> kernel \<Rightarrow> u64" where
  "sys_task_exit_code a0 k =
     (case task_index (unat a0) of
        None \<Rightarrow> TASK_NO_EXIT_CODE | Some t \<Rightarrow> or_else (zombie_status k t) TASK_NO_EXIT_CODE)"

definition sys_kill :: "nat \<Rightarrow> cpu_context \<Rightarrow> u64 \<Rightarrow> kernel \<Rightarrow> outcome" where
  "sys_kill core frame a0 k =
     (case task_index (unat a0) of
        None \<Rightarrow> Some (TASK_ERR_NO_SUCH_TASK, frame, k)
      | Some target \<Rightarrow>
          if \<not> is_spawnable target then Some (TASK_ERR_PROTECTED, frame, k)
          else if \<not> is_occupied k target then Some (TASK_ERR_NO_SUCH_TASK, frame, k)
          else if target = k_current k core then Some (TASK_ERR_SELF, frame, k)
          else case kill_task core target k of
            None \<Rightarrow> None
          | Some (_, k1) \<Rightarrow> Some (0, frame, k1))"

definition sys_wait :: "nat \<Rightarrow> cpu_context \<Rightarrow> u64 \<Rightarrow> kernel \<Rightarrow> outcome" where
  "sys_wait core frame a0 k =
     (case task_index (unat a0) of
        None \<Rightarrow> Some (TASK_ERR_NO_SUCH_TASK, frame, k)
      | Some target \<Rightarrow>
          if \<not> is_spawnable target then Some (TASK_ERR_PROTECTED, frame, k)
          else if target = k_current k core then Some (TASK_ERR_SELF, frame, k)
          else case try_reap target k of
            (Some status, k1) \<Rightarrow> Some (status, frame, k1)
          | (None, k1) \<Rightarrow>
              if \<not> is_occupied k1 target then Some (TASK_ERR_NO_SUCH_TASK, frame, k1)
              else block_current_and_switch core frame (Wait_TaskExit target) k1)"

definition sys_fg :: "nat \<Rightarrow> u64 \<Rightarrow> u64 \<Rightarrow> kernel \<Rightarrow> u64 \<times> kernel" where
  "sys_fg core a0 a1 k =
     (case task_index (unat a0) of
        None \<Rightarrow> (TASK_ERR_NO_SUCH_TASK, k)
      | Some target \<Rightarrow>
          if target \<noteq> FIRST \<and> \<not> is_spawnable target then (TASK_ERR_PROTECTED, k)
          else if \<not> is_occupied k target then (TASK_ERR_NO_SUCH_TASK, k)
          else if k_current k core \<noteq> k_input_owner k then (TASK_ERR_PROTECTED, k)
          else (0, set_input_owner target (a1 \<noteq> 0) k))"

section \<open>Messages\<close>

definition sys_msg_send :: "nat \<Rightarrow> u64 \<Rightarrow> u64 \<Rightarrow> u64 \<Rightarrow> kernel \<Rightarrow> u64 \<times> kernel" where
  "sys_msg_send core a0 a1 a2 k =
     (let me = k_current k core in
      if a1 = 0 \<or> a2 > of_nat MSG_MAX \<or> \<not> in_caller_region core a1 a2 k then (FS_ERROR, k)
      else case live_index k (unat a0) of
        None \<Rightarrow> (TASK_ERR_NO_SUCH_TASK, k)
      | Some dest \<Rightarrow>
          if \<not> may_send k me dest then (MSG_ERR_DENIED, k)
          else send_message me dest (user_bytes a1 a2 k) 0 k)"

definition sys_msg_recv :: "nat \<Rightarrow> cpu_context \<Rightarrow> u64 \<Rightarrow> u64 \<Rightarrow> machine \<Rightarrow> sys_outcome" where
  "sys_msg_recv core frame a0 a1 m =
     (case m of (k, reg) \<Rightarrow>
      if \<not> valid_msg_range core a0 a1 k then Some (FS_ERROR, frame, k, reg)
      else
        let me = k_current k core; reg1 = note_progress me reg in
        case try_recv_message me a0 a1 k of
          (Some packed, k1) \<Rightarrow> Some (packed, frame, k1, reg1)
        | (None, k1) \<Rightarrow>
            (case block_current_and_switch core frame (Wait_Message a0 a1 None) k1 of
               None \<Rightarrow> None | Some (v, fr, k2) \<Rightarrow> Some (v, fr, k2, reg1)))"

definition sys_msg_try_recv :: "nat \<Rightarrow> u64 \<Rightarrow> u64 \<Rightarrow> kernel \<Rightarrow> u64 \<times> kernel" where
  "sys_msg_try_recv core a0 a1 k =
     (if \<not> valid_msg_range core a0 a1 k then (FS_ERROR, k)
      else case try_recv_message (k_current k core) a0 a1 k of
        (Some packed, k1) \<Rightarrow> (packed, k1) | (None, k1) \<Rightarrow> (NO_MSG, k1))"

definition sys_msg_call :: "nat \<Rightarrow> cpu_context \<Rightarrow> u64 \<Rightarrow> u64 \<Rightarrow> u64 \<Rightarrow> u64 \<Rightarrow> kernel \<Rightarrow> outcome" where
  "sys_msg_call core frame a0 a1 a2 a3 k =
     (let me = k_current k core in
      if \<not> valid_msg_range core a1 a2 k \<or> \<not> valid_msg_range core a3 (of_nat MSG_MAX) k then Some (FS_ERROR, frame, k)
      else case live_index k (unat a0) of
        None \<Rightarrow> Some (TASK_ERR_NO_SUCH_TASK, frame, k)
      | Some dest \<Rightarrow>
          if dest = me then Some (TASK_ERR_SELF, frame, k)
          else if \<not> may_send k me dest then Some (MSG_ERR_DENIED, frame, k)
          else case begin_call me k of (call, k1) \<Rightarrow>
            case send_message me dest (user_bytes a1 a2 k) call k1 of (sent, k2) \<Rightarrow>
              if sent \<noteq> 0 then Some (sent, frame, end_call me k2)
              else block_current_and_switch_to core frame (Wait_Message a3 (of_nat MSG_MAX) (Some dest)) (Some dest) k2)"

definition sys_msg_reply :: "nat \<Rightarrow> u64 \<Rightarrow> u64 \<Rightarrow> u64 \<Rightarrow> machine \<Rightarrow> u64 \<times> machine" where
  "sys_msg_reply core a0 a1 a2 m =
     (case m of (k, reg) \<Rightarrow>
      let me = k_current k core in
      if a0 = of_nat KERNEL_SENDER then (0, k, note_ack me reg)
      else if a1 = 0 \<or> a2 > of_nat MSG_MAX \<or> \<not> in_caller_region core a1 a2 k then (FS_ERROR, k, reg)
      else case reply_target k me a0 of
        None \<Rightarrow> (REPLY_STALE, k, reg)
      | Some dest \<Rightarrow> (0, deliver_reply me dest (user_bytes a1 a2 k) k, reg))"

section \<open>Grants and rights\<close>

definition sys_grant :: "nat \<Rightarrow> u64 \<Rightarrow> u64 \<Rightarrow> u64 \<Rightarrow> u64 \<Rightarrow> kernel \<Rightarrow> u64 \<times> kernel" where
  "sys_grant core a0 a1 a2 a3 k =
     (let valid_dir = (a3 \<noteq> 0 \<and> a3 AND NOT (GRANT_READ OR GRANT_WRITE) = 0) in
      if \<not> valid_dir \<or> a2 = 0 \<or> a2 > GRANT_MAX \<or> \<not> in_caller_region core a1 a2 k then (GRANT_ERR, k)
      else case live_index k (unat a0) of
        None \<Rightarrow> (GRANT_ERR, k)
      | Some grantee \<Rightarrow> (0, set_grant (k_current k core) grantee a1 a2 a3 k))"

definition sys_safecopy :: "nat \<Rightarrow> cpu_context \<Rightarrow> u64 \<Rightarrow> u64 \<Rightarrow> u64 \<Rightarrow> u64 \<Rightarrow> kernel \<Rightarrow> u64 \<times> kernel" where
  "sys_safecopy core frame a0 a1 a2 a3 k =
     (let loc = a2; n = a3; dir = cx_gpr frame 4 in
      if n = 0 \<or> n > SAFECOPY_MAX \<or> \<not> in_caller_region core loc n k then (SAFECOPY_ERR, k)
      else case safecopy (k_current k core) a0 a1 loc n dir k of
        (Some c, k1) \<Rightarrow> (c, k1) | (None, k1) \<Rightarrow> (SAFECOPY_ERR, k1))"

definition sys_delegate :: "nat \<Rightarrow> u64 \<Rightarrow> u64 \<Rightarrow> kernel \<Rightarrow> u64 \<times> kernel" where
  "sys_delegate core a0 a1 k =
     (if (case task_index (unat a0) of Some g \<Rightarrow> \<not> is_spawnable g | None \<Rightarrow> False) then (MSG_ERR_DENIED, k)
      else case (live_index k (unat a0), live_index k (unat a1)) of
        (Some grantee, Some target) \<Rightarrow>
          if \<not> may_delegate k (k_current k core) grantee target then (MSG_ERR_DENIED, k)
          else (0, set_delegate grantee target k)
      | _ \<Rightarrow> (TASK_ERR_NO_SUCH_TASK, k))"

section \<open>The dispatcher\<close>

text \<open>An arm of the dispatcher, and the three shapes of arm: one that answers at once, one that only
  reads, and one that may switch tasks.\<close>

type_synonym arm = "nat \<Rightarrow> cpu_context \<Rightarrow> u64 \<Rightarrow> u64 \<Rightarrow> u64 \<Rightarrow> u64 \<Rightarrow> machine \<Rightarrow> sys_outcome"

definition answers :: "(nat \<Rightarrow> cpu_context \<Rightarrow> u64 \<Rightarrow> u64 \<Rightarrow> u64 \<Rightarrow> u64 \<Rightarrow> kernel \<Rightarrow> u64 \<times> kernel) \<Rightarrow> arm" where
  "answers f core frame a0 a1 a2 a3 m =
     (case m of (k, reg) \<Rightarrow> case f core frame a0 a1 a2 a3 k of (v, k1) \<Rightarrow> Some (v, frame, k1, reg))"

definition reads :: "(nat \<Rightarrow> u64 \<Rightarrow> u64 \<Rightarrow> kernel \<Rightarrow> u64) \<Rightarrow> arm" where
  "reads f core frame a0 a1 a2 a3 m = (case m of (k, reg) \<Rightarrow> Some (f core a0 a1 k, frame, k, reg))"

definition switches :: "(nat \<Rightarrow> cpu_context \<Rightarrow> u64 \<Rightarrow> u64 \<Rightarrow> u64 \<Rightarrow> u64 \<Rightarrow> kernel \<Rightarrow> outcome) \<Rightarrow> arm" where
  "switches f core frame a0 a1 a2 a3 m =
     (case m of (k, reg) \<Rightarrow>
        case f core frame a0 a1 a2 a3 k of None \<Rightarrow> None | Some (v, fr, k1) \<Rightarrow> Some (v, fr, k1, reg))"

text \<open>The arms by their numbers (\<open>src/syscall-abi/src/lib.rs\<close>).\<close>

definition reading_arms :: "(u64 \<times> arm) list" where
  "reading_arms =
     [(0, reads (\<lambda>core a0 a1 k. 0)),
      (1, reads (\<lambda>core a0 a1 k. a0 * 2)),
      (6, reads (\<lambda>core a0 a1 k. k_ticks k)),
      (46, reads (\<lambda>core a0 a1 k. k_now_us k)),
      (48, reads (\<lambda>core a0 a1 k. argv_count (k_argv k (k_current k core)))),
      (59, reads (\<lambda>core a0 a1 k. argv_count (k_env k (k_current k core)))),
      (38, reads (\<lambda>core a0 a1 k. k_stdout k (k_current k core))),
      (39, reads (\<lambda>core a0 a1 k. of_nat (k_current k core))),
      (62, reads (\<lambda>core a0 a1 k. sys_get_id a0 k)),
      (65, reads (\<lambda>core a0 a1 k. sys_sender_id core k)),
      (67, reads (\<lambda>core a0 a1 k. sys_sender_task core k)),
      (74, reads (\<lambda>core a0 a1 k. sys_sender_call core k)),
      (68, reads (\<lambda>core a0 a1 k. sys_task_identity a0 k)),
      (40, reads (\<lambda>core a0 a1 k. sys_heap_info core a0 k)),
      (18, reads (\<lambda>core a0 a1 k. sys_task_state a0 k)),
      (55, reads (\<lambda>core a0 a1 k. sys_task_exit_code a0 k)),
      (75, reads (\<lambda>core a0 a1 k. core_info core a0 a1 k))]"

definition answering_arms :: "(u64 \<times> arm) list" where
  "answering_arms =
     [(3, answers (\<lambda>core frame a0 a1 a2 a3 k. sys_try_read_char core k)),
      (16, answers (\<lambda>core frame a0 a1 a2 a3 k. sys_spawn core a0 a1 a2 a3 k)),
      (50, answers (\<lambda>core frame a0 a1 a2 a3 k. sys_cwd_stage core a0 a1 k)),
      (51, answers (\<lambda>core frame a0 a1 a2 a3 k. sys_get_cwd core a0 a1 k)),
      (52, answers (\<lambda>core frame a0 a1 a2 a3 k. sys_ns_set core a0 a1 k)),
      (53, answers (\<lambda>core frame a0 a1 a2 a3 k. sys_get_ns core a0 a1 k)),
      (47, answers (\<lambda>core frame a0 a1 a2 a3 k. sys_args_stage core a0 a1 k)),
      (49, answers (\<lambda>core frame a0 a1 a2 a3 k. sys_get_arg core a0 a1 a2 k)),
      (58, answers (\<lambda>core frame a0 a1 a2 a3 k. sys_env_stage core a0 a1 k)),
      (60, answers (\<lambda>core frame a0 a1 a2 a3 k. sys_get_env core a0 a1 a2 k)),
      (61, answers (\<lambda>core frame a0 a1 a2 a3 k. sys_set_id core a0 a1 a2 a3 k)),
      (64, answers (\<lambda>core frame a0 a1 a2 a3 k. sys_get_groups core a0 a1 a2 k)),
      (66, answers (\<lambda>core frame a0 a1 a2 a3 k. sys_sender_groups core a0 a1 k)),
      (70, answers (\<lambda>core frame a0 a1 a2 a3 k. sys_kbd_mode core a0 k)),
      (30, answers (\<lambda>core frame a0 a1 a2 a3 k. sys_spawn_stage core a0 a1 a2 k)),
      (54, answers (\<lambda>core frame a0 a1 a2 a3 k. sys_task_name core a0 a1 a2 k)),
      (23, answers (\<lambda>core frame a0 a1 a2 a3 k. sys_msg_send core a0 a1 a2 k)),
      (25, answers (\<lambda>core frame a0 a1 a2 a3 k. sys_msg_try_recv core a0 a1 k)),
      (20, answers (\<lambda>core frame a0 a1 a2 a3 k. sys_fg core a0 a1 k)),
      (31, answers (\<lambda>core frame a0 a1 a2 a3 k. sys_grant core a0 a1 a2 a3 k)),
      (32, answers (\<lambda>core frame a0 a1 a2 a3 k. sys_safecopy core frame a0 a1 a2 a3 k)),
      (41, answers (\<lambda>core frame a0 a1 a2 a3 k. sys_delegate core a0 a1 k))]"

definition switching_arms :: "(u64 \<times> arm) list" where
  "switching_arms =
     [(15, switches (\<lambda>core frame a0 a1 a2 a3 k. sys_read_char core frame k)),
      (72, switches (\<lambda>core frame a0 a1 a2 a3 k. sys_sleep_until core frame a0 k)),
      (71, switches (\<lambda>core frame a0 a1 a2 a3 k. sys_key_wait_until core frame a0 k)),
      (17, switches (\<lambda>core frame a0 a1 a2 a3 k. sys_exit core frame a0 k)),
      (57, switches (\<lambda>core frame a0 a1 a2 a3 k. yield_current_and_switch core frame k)),
      (19, switches (\<lambda>core frame a0 a1 a2 a3 k. sys_kill core frame a0 k)),
      (21, switches (\<lambda>core frame a0 a1 a2 a3 k. sys_wait core frame a0 k)),
      (29, switches (\<lambda>core frame a0 a1 a2 a3 k. sys_msg_call core frame a0 a1 a2 a3 k)),
      (45, switches (\<lambda>core frame a0 a1 a2 a3 k. sys_net_wait core frame a0 k))]"

definition machine_arms :: "(u64 \<times> arm) list" where
  "machine_arms =
     [(24, (\<lambda>core frame a0 a1 a2 a3 m. sys_msg_recv core frame a0 a1 m)),
      (73, (\<lambda>core frame a0 a1 a2 a3 m. case sys_msg_reply core a0 a1 a2 m of (v, m1) \<Rightarrow> Some (v, frame, m1)))]"

text \<open>The numbers of the arms that drive a device, which the model leaves out.\<close>

definition DEVICE_CALLS :: "u64 list" where
  "DEVICE_CALLS = [2, 4, 33, 34, 35, 36, 37, 76, 63, 69, 56, 22, 77, 26, 27, 28, 42, 44, 43]"

definition arms :: "(u64 \<times> arm) list" where
  "arms = reading_arms @ answering_arms @ switching_arms @ machine_arms"

definition dispatch_locked :: "u64 \<Rightarrow> arm" where
  "dispatch_locked number core frame a0 a1 a2 a3 m =
     (case map_of arms number of
        Some arm \<Rightarrow> arm core frame a0 a1 a2 a3 m
      | None \<Rightarrow> Some (- 1, frame, m))"

definition dispatch :: "u64 \<Rightarrow> arm" where
  "dispatch number core frame a0 a1 a2 a3 m =
     (case m of (k, reg) \<Rightarrow>
        case end_if_doomed core frame k of
          None \<Rightarrow> None
        | Some (True, fr, k1) \<Rightarrow> Some (cx_gpr fr 0, fr, k1, reg)
        | Some (False, fr, k1) \<Rightarrow> dispatch_locked number core fr a0 a1 a2 a3 (k1, reg))"

text \<open>Every number of the table is an arm's own, and no arm of a device.\<close>

lemma arms_distinct: "distinct (map fst arms) \<and> set (map fst arms) \<inter> set DEVICE_CALLS = {}"
  by (simp add: arms_def reading_arms_def answering_arms_def switching_arms_def machine_arms_def DEVICE_CALLS_def)

end
