(* ===== verification/Kernel_Tick.thy ===== *)
theory Kernel_Tick
  imports Kernel_Syscall
begin

text \<open>
  The kernel's other entries: the tick with its wake checks, its pending kill and its supervision of the
  servers (\<open>WaitReason::poll\<close> and \<open>on_tick\<close> in \<open>src/kernel/src/tasks.rs\<close>), kicks (\<open>src/kernel/src/smp.rs\<close>),
  and the interrupt and fault handlers (\<open>src/kernel/src/exceptions.rs\<close>). \<open>frame\<close> is the interrupted
  task's trap frame; \<open>None\<close>: the kernel halts.
\<close>

unbundle bit_operations_syntax

section \<open>Waking blocked tasks\<close>

definition poll :: "wait_reason \<Rightarrow> nat \<Rightarrow> kernel \<Rightarrow> u64 option \<times> kernel" where
  "poll reason waiter k =
     (case reason of
        Wait_Keyboard \<Rightarrow> (case poll_keyboard_byte waiter k of (b, k1) \<Rightarrow> (map_option ucast b, k1))
      | Wait_Key until_us \<Rightarrow> key_wait_answer waiter until_us k
      | Wait_Sleep until_us \<Rightarrow> (if k_now_us k \<ge> until_us then Some 0 else None, k)
      | Wait_TaskExit target \<Rightarrow>
          (case k_states k target of
             Zombie status \<Rightarrow> (Some status, set_state target Unused k)
           | Unused \<Rightarrow> (Some TASK_KILLED_STATUS, k)
           | _ \<Rightarrow> (case keyboard_interrupts_wait waiter k of
                     (True, k1) \<Rightarrow> (Some WAIT_INTERRUPTED, k1) | (False, k1) \<Rightarrow> (None, k1)))
      | Wait_Message buf len from \<Rightarrow>
          (case (if from = None then try_recv_message waiter buf len k else (None, k)) of
             (Some got, k1) \<Rightarrow> (Some got, k1)
           | (None, k1) \<Rightarrow>
               (case keyboard_interrupts_wait waiter k1 of
                  (True, k2) \<Rightarrow> (Some RECV_INTERRUPTED, end_call waiter k2) | (False, k2) \<Rightarrow> (None, k2)))
      | Wait_NetInput deadline \<Rightarrow>
          (if k_net_frame k \<or> has_queued_message k waiter \<or> deadline \<noteq> 0 \<and> k_ticks k \<ge> deadline
           then Some 0 else None, k))"

definition wake_check :: "nat \<Rightarrow> kernel \<Rightarrow> kernel" where
  "wake_check i k =
     (case k_states k i of
        Blocked reason \<Rightarrow>
          (case poll reason i k of
             (Some v, k1) \<Rightarrow> set_state i Runnable (set_x0 i v k1) | (None, k1) \<Rightarrow> k1)
      | _ \<Rightarrow> k)"

definition wake_checks :: "kernel \<Rightarrow> kernel" where
  "wake_checks k = fold wake_check [0..<NUM_TASKS] k"

section \<open>The pending kill\<close>

definition owner_reads_ahead :: "kernel \<Rightarrow> kernel" where
  "owner_reads_ahead k =
     (if k_input_owner k \<noteq> FIRST then snd (read_keyboard_ahead (k_input_owner k) k) else k)"

text \<open>Whether the tick ends here, because the interrupted task was the one killed.\<close>

definition honor_kill :: "nat \<Rightarrow> cpu_context \<Rightarrow> kernel \<Rightarrow> (bool \<times> cpu_context \<times> kernel) option" where
  "honor_kill core frame k =
     (let pending = k_pending_kill k AND NOT PENDING_KILL_BY_QUIT;
          k1 = k\<lparr>k_pending_kill := 0\<rparr>
      in case live_occupant k1 pending of
           Some v \<Rightarrow>
             if \<not> is_spawnable v then Some (False, frame, k1)
             else if v = k_current k core then
               (case kill_current_and_switch core k1 of
                  None \<Rightarrow> None | Some (fr, k2) \<Rightarrow> Some (True, fr, k2))
             else (case kill_task core v k1 of None \<Rightarrow> None | Some (_, k2) \<Rightarrow> Some (False, frame, k2))
         | None \<Rightarrow> Some (False, frame, k1))"

section \<open>The supervision of the servers\<close>

definition FS_REQ_PAYLOAD :: nat where "FS_REQ_PAYLOAD = 40"
definition SYSOP_PING :: u64 where "SYSOP_PING = 0xFFFF"

definition ping_message :: "u8 list" where
  "ping_message = le_bytes8 SYSOP_PING @ replicate (FS_REQ_PAYLOAD - 8) 0"

definition is_blocked :: "kernel \<Rightarrow> nat \<Rightarrow> bool" where
  "is_blocked k slot = (case k_states k slot of Blocked _ \<Rightarrow> True | _ \<Rightarrow> False)"

definition supervise :: "nat \<Rightarrow> nat \<Rightarrow> cpu_context \<Rightarrow> machine \<Rightarrow> (bool \<times> cpu_context \<times> machine) option" where
  "supervise core slot frame m =
     (case m of (k, reg) \<Rightarrow>
      if \<not> is_supervised slot reg then Some (False, frame, m)
      else
        let blocked = is_blocked k slot in
        case heartbeat slot blocked reg of (runnable_wedge, reg1) \<Rightarrow>
        case poll_ping slot blocked reg1 of (action, reg2) \<Rightarrow>
        let k1 = (if action = Ping_Inject
                  then snd (send_message KERNEL_SENDER slot ping_message (of_nat KERNEL_SENDER) k) else k)
        in if runnable_wedge \<or> action = Ping_Wedged then
             (if slot = k_current k core then
                (case kill_current_and_switch core k1 of
                   None \<Rightarrow> None | Some (fr, k2) \<Rightarrow> Some (True, fr, restart slot (k2, reg2)))
              else (case kill_task core slot k1 of
                      Some (Ended_Now, k2) \<Rightarrow> Some (False, frame, restart slot (k2, reg2))
                    | _ \<Rightarrow> None))
           else Some (False, frame, k1, reg2))"

fun supervise_all :: "nat \<Rightarrow> nat list \<Rightarrow> cpu_context \<Rightarrow> machine \<Rightarrow> (bool \<times> cpu_context \<times> machine) option" where
  "supervise_all core [] frame m = Some (False, frame, m)"
| "supervise_all core (slot # slots) frame m =
     (case supervise core slot frame m of
        None \<Rightarrow> None
      | Some (True, fr, m1) \<Rightarrow> Some (True, fr, m1)
      | Some (False, fr, m1) \<Rightarrow> supervise_all core slots fr m1)"

section \<open>The tick\<close>

definition round_robin :: "nat \<Rightarrow> nat \<Rightarrow> cpu_context \<Rightarrow> kernel \<Rightarrow> (cpu_context \<times> kernel) option" where
  "round_robin core current frame k =
     (case next_at_tick core k of
        None \<Rightarrow> None
      | Some (t, k1) \<Rightarrow>
          if t = current then Some (frame, k1) else Some (switch_to core t (save_frame current frame k1)))"

definition on_tick :: "nat \<Rightarrow> cpu_context \<Rightarrow> machine \<Rightarrow> (cpu_context \<times> machine) option" where
  "on_tick core frame m =
     (case m of (k, reg) \<Rightarrow>
      let current = k_current k core in
      case honor_kill core frame (owner_reads_ahead (wake_checks k)) of
        None \<Rightarrow> None
      | Some (True, fr, k1) \<Rightarrow> Some (fr, k1, reg)
      | Some (False, fr, k1) \<Rightarrow>
          (case supervise_all core [0..<NUM_TASKS] fr (k1, reg) of
             None \<Rightarrow> None
           | Some (True, fr1, m1) \<Rightarrow> Some (fr1, m1)
           | Some (False, fr1, k2, reg2) \<Rightarrow>
               (case round_robin core current fr1 k2 of
                  None \<Rightarrow> None | Some (fr2, k3) \<Rightarrow> Some (fr2, k3, reg2))))"

section \<open>Interrupts and faults\<close>

definition TIMER_INTID :: u32 where "TIMER_INTID = 30"
definition KICK_SGI :: u32 where "KICK_SGI = 0"
definition KICK_RESCHED :: u32 where "KICK_RESCHED = push_bit 1 1"
definition KICK_KILL :: u32 where "KICK_KILL = push_bit 2 1"

text \<open>\<open>reasons\<close> is the word of reasons recorded for the core since its last kick.\<close>

definition on_kick :: "nat \<Rightarrow> u32 \<Rightarrow> cpu_context \<Rightarrow> kernel \<Rightarrow> (cpu_context \<times> kernel) option" where
  "on_kick core reasons frame k =
     (if reasons AND (KICK_RESCHED OR KICK_KILL) \<noteq> 0 then reschedule_if_idle core frame k else Some (frame, k))"

text \<open>\<open>net_intid\<close> is the interrupt of the network card, fixed at boot.\<close>

definition irq_locked :: "nat \<Rightarrow> u32 \<Rightarrow> u32 \<Rightarrow> u32 \<Rightarrow> cpu_context \<Rightarrow> machine \<Rightarrow> (cpu_context \<times> machine) option" where
  "irq_locked core net_intid intid reasons frame m =
     (case m of (k, reg) \<Rightarrow>
      if intid = TIMER_INTID then
        (if \<not> is_boot k core then
           (case on_secondary_tick core frame k of None \<Rightarrow> None | Some (fr, k1) \<Rightarrow> Some (fr, k1, reg))
         else on_tick core frame (k\<lparr>k_ticks := k_ticks k + 1\<rparr>, reg))
      else if intid = KICK_SGI then
        (case on_kick core reasons frame k of None \<Rightarrow> None | Some (fr, k1) \<Rightarrow> Some (fr, k1, reg))
      else if is_boot k core \<and> intid = net_intid then
        (case on_net_irq core frame k of (fr, k1) \<Rightarrow> Some (fr, k1, reg))
      else Some (frame, m))"

definition rust_irq_handler :: "nat \<Rightarrow> u32 \<Rightarrow> u32 \<Rightarrow> u32 \<Rightarrow> cpu_context \<Rightarrow> machine \<Rightarrow> (cpu_context \<times> machine) option" where
  "rust_irq_handler core net_intid intid reasons frame m =
     (case m of (k, reg) \<Rightarrow>
        case end_if_doomed core frame k of
          None \<Rightarrow> None
        | Some (_, fr, k1) \<Rightarrow> irq_locked core net_intid intid reasons fr (k1, reg))"

definition el0_fault_locked :: "nat \<Rightarrow> machine \<Rightarrow> (cpu_context \<times> machine) option" where
  "el0_fault_locked core m =
     (case m of (k, reg) \<Rightarrow>
      let slot = k_current k core in
      if is_boot_or_idle slot then None
      else case kill_current_and_switch core k of
        None \<Rightarrow> None
      | Some (fr, k1) \<Rightarrow> Some (fr, if is_supervised slot reg then restart slot (k1, reg) else (k1, reg)))"

definition rust_el0_fault_handler :: "nat \<Rightarrow> cpu_context \<Rightarrow> machine \<Rightarrow> (cpu_context \<times> machine) option" where
  "rust_el0_fault_handler core frame m =
     (case m of (k, reg) \<Rightarrow>
        case end_if_doomed core frame k of
          None \<Rightarrow> None
        | Some (True, fr, k1) \<Rightarrow> Some (fr, k1, reg)
        | Some (False, _, k1) \<Rightarrow> el0_fault_locked core (k1, reg))"

end
