(* ===== verification/Kernel_Inv.thy ===== *)
theory Kernel_Inv
  imports Kernel_Spawn
begin

text \<open>
  The invariant of the whole kernel state and that the operations the entries are made of keep it: waking,
  blocking, switching, ending and starting tasks, messages and calls, the keyboard, the staging. The
  invariant joins those of the components; \<open>pinned\<close> adds that only programs and the idle task run on
  the cores other than the boot core, that the boot shell is never asked to end, and that only a program
  is ever a zombie.
\<close>

unbundle bit_operations_syntax

section \<open>The invariant\<close>

definition pinned :: "kernel \<Rightarrow> bool" where
  "pinned k \<longleftrightarrow> (\<forall>c<MAX_CORES. \<not> is_boot k c \<longrightarrow> k_current k c = IDLE \<or> is_spawnable (k_current k c)) \<and>
     k_doomed k FIRST = 0 \<and> (\<forall>t<FIRST_SPAWNABLE. \<forall>s. k_states k t \<noteq> Zombie s)"

definition kinv :: "kernel \<Rightarrow> bool" where
  "kinv k \<longleftrightarrow> kernel_ok k \<and> staging_ok (k_staging k) \<and> stores_ok k \<and> pinned k"

text \<open>The invariant while the current task of a core may not run any more.\<close>

definition kinv_but :: "nat \<Rightarrow> kernel \<Rightarrow> bool" where
  "kinv_but core k \<longleftrightarrow> kbd_ok k \<and> cores_ok_but core k \<and> calls_ok k \<and> mail_ok k \<and>
     staging_ok (k_staging k) \<and> stores_ok k \<and> pinned k"

lemmas kinv_defs = kinv_def kernel_ok_def

lemma kinv_current:
  assumes "kinv k" "core < MAX_CORES"
  shows "k_current k core < NUM_TASKS" "k_states k (k_current k core) = Runnable" "is_occupied k (k_current k core)"
    "task_id_of k (k_current k core) \<noteq> None"
  using assms by (auto simp: kinv_defs cores_ok_def is_occupied_def task_id_of_def)

lemma kinv_frame:
  assumes "kinv k" "k_states k' = k_states k" "k_gens k' = k_gens k" "k_next_gen k' = k_next_gen k"
    "k_prev_owners k' = k_prev_owners k" "k_input_owner k' = k_input_owner k" "k_kbd k' = k_kbd k"
    "k_current k' = k_current k" "k_calls k' = k_calls k" "k_next_call k' = k_next_call k" "k_mail k' = k_mail k"
    "k_staging k' = k_staging k" "k_argv k' = k_argv k" "k_env k' = k_env k" "k_cwd k' = k_cwd k" "k_ns k' = k_ns k"
    "k_boot_core k' = k_boot_core k" "k_doomed k' = k_doomed k"
  shows "kinv k'"
proof -
  have "input_ok k' = input_ok k" by (rule input_ok_cong) (simp_all add: assms(2-6))
  moreover have "cores_ok k' = cores_ok k" by (rule cores_ok_cong) (simp_all add: assms(2,8))
  moreover have "is_occupied k' = is_occupied k" by (simp add: fun_eq_iff is_occupied_def assms(2))
  ultimately show ?thesis
    using assms(1) by (simp add: kinv_defs kbd_ok_def calls_ok_def mail_ok_def stores_ok_def pinned_def is_boot_def assms(2,7-18))
qed

lemma reads_only_fields:
  assumes "reads_only k k'"
  shows "k_states k' = k_states k" "k_gens k' = k_gens k" "k_next_gen k' = k_next_gen k" "k_prev_owners k' = k_prev_owners k"
    "k_current k' = k_current k" "k_calls k' = k_calls k" "k_next_call k' = k_next_call k" "k_mail k' = k_mail k"
    "k_staging k' = k_staging k" "k_argv k' = k_argv k" "k_env k' = k_env k" "k_cwd k' = k_cwd k" "k_ns k' = k_ns k"
    "k_boot_core k' = k_boot_core k" "k_doomed k' = k_doomed k" "k_regions k' = k_regions k" "k_region_top k' = k_region_top k"
    "k_ids k' = k_ids k" "k_saved_ids k' = k_saved_ids k" "k_delegated k' = k_delegated k"
  by (use assms in \<open>cases k; cases k'; simp add: reads_only_def unread_def\<close>)+

lemma kinv_reads:
  assumes "kinv k" "kbd_ok k' \<and> reads_only k k'"
  shows "kinv k'"
proof -
  note f = reads_only_fields [OF conjunct2 [OF assms(2)]]
  have "cores_ok k' = cores_ok k" by (rule cores_ok_cong) (simp_all add: f)
  moreover have "is_occupied k' = is_occupied k" by (simp add: fun_eq_iff is_occupied_def f)
  ultimately show ?thesis
    using assms by (simp add: kinv_defs calls_ok_def mail_ok_def stores_ok_def pinned_def is_boot_def f)
qed

lemma kinv_kbd: "kinv k \<Longrightarrow> kbd_ok k"
  by (simp add: kinv_defs)

lemma kinv_keyboard:
  assumes "kinv k"
  shows "kinv (snd (poll_keyboard_byte r k))" "kinv (snd (key_wait_answer r us k))" "kinv (snd (read_keyboard_ahead r k))"
    "kinv (snd (keyboard_interrupts_wait r k))" "kinv (keyboard_flush_input r k)"
  using kinv_reads [OF assms] kinv_kbd [OF assms]
  by (simp_all add: poll_keyboard_ok key_wait_answer_ok read_ahead_ok keyboard_interrupts_wait_def flush_input_ok)

section \<open>States\<close>

lemma input_ok_states:
  assumes "input_ok k" "\<And>t. is_occupied k' t = is_occupied k t" "\<And>t. k_states k' t \<noteq> Unused \<Longrightarrow> k_states k t \<noteq> Unused"
    "k_gens k' = k_gens k" "k_next_gen k' = k_next_gen k" "k_prev_owners k' = k_prev_owners k" "k_input_owner k' = k_input_owner k"
  shows "input_ok k'"
proof -
  have "live_occupant k' e = Some j \<longleftrightarrow> live_occupant k e = Some j" for e j
    by (simp add: live_occupant_iff assms(2,4))
  then have "owner_edges k' = owner_edges k" by (simp add: owner_edges_def assms(6))
  then show ?thesis using assms by (auto simp: input_ok_def gens_ok_def)
qed

lemma kinv_states:
  assumes "kinv k" "cores_ok k'" "\<And>t. is_occupied k' t = is_occupied k t" "\<And>t. k_states k' t \<noteq> Unused \<Longrightarrow> k_states k t \<noteq> Unused"
    "k_gens k' = k_gens k" "k_next_gen k' = k_next_gen k"
    "k_prev_owners k' = k_prev_owners k" "k_input_owner k' = k_input_owner k" "k_kbd k' = k_kbd k"
    "k_current k' = k_current k" "k_calls k' = k_calls k" "k_next_call k' = k_next_call k" "k_mail k' = k_mail k"
    "k_staging k' = k_staging k" "k_argv k' = k_argv k" "k_env k' = k_env k" "k_cwd k' = k_cwd k" "k_ns k' = k_ns k"
    "k_boot_core k' = k_boot_core k" "k_doomed k' = k_doomed k"
    and "\<And>t s. k_states k' t = Zombie s \<Longrightarrow> k_states k t = Zombie s"
  shows "kinv k'"
proof -
  have "input_ok k'" using assms(1) by (intro input_ok_states [OF _ assms(3-8)]) (simp_all add: kinv_defs kbd_ok_def)
  then show ?thesis
    using assms(1,2,21) by (auto simp: kinv_defs kbd_ok_def calls_ok_def mail_ok_def stores_ok_def pinned_def is_boot_def assms(3,9-20))
qed

lemma kinv_wake:
  assumes "kinv k" "k_states k i = Blocked r"
  shows "kinv (set_state i Runnable k)"
  by (rule kinv_states [OF assms(1)])
     (use assms in \<open>auto simp: set_state_def is_occupied_def kinv_defs cores_ok_def split: if_splits\<close>)

lemma kinv_reap:
  assumes "kinv k" "k_states k i = Zombie st"
  shows "kinv (set_state i Unused k)"
proof -
  have "cores_ok (set_state i Unused k)"
    using assms by (auto simp: set_state_def kinv_defs cores_ok_def)
  then show ?thesis
    by (rule kinv_states [OF assms(1)]) (use assms in \<open>auto simp: set_state_def is_occupied_def split: if_splits\<close>)
qed

section \<open>Single tables\<close>

lemma kinv_updates [simp]:
  "kinv (k\<lparr>k_tasks := x1\<rparr>) = kinv k" "kinv (k\<lparr>k_regions := x2\<rparr>) = kinv k" "kinv (k\<lparr>k_round := x3\<rparr>) = kinv k"
  "kinv (k\<lparr>k_region_top := x4\<rparr>) = kinv k" "kinv (k\<lparr>k_fg_command := x5\<rparr>) = kinv k" "kinv (k\<lparr>k_pending_kill := x6\<rparr>) = kinv k"
  "kinv (k\<lparr>k_kbd_raw := x7\<rparr>) = kinv k" "kinv (k\<lparr>k_stdout := x8\<rparr>) = kinv k" "kinv (k\<lparr>k_ids := x9\<rparr>) = kinv k"
  "kinv (k\<lparr>k_saved_ids := x10\<rparr>) = kinv k" "kinv (k\<lparr>k_groups := x11\<rparr>) = kinv k" "kinv (k\<lparr>k_group_counts := x12\<rparr>) = kinv k"
  "kinv (k\<lparr>k_creds := x13\<rparr>) = kinv k" "kinv (k\<lparr>k_delegated := x14\<rparr>) = kinv k" "kinv (k\<lparr>k_parents := x15\<rparr>) = kinv k"
  "kinv (k\<lparr>k_grants := x16\<rparr>) = kinv k" "kinv (k\<lparr>k_mem := x17\<rparr>) = kinv k" "kinv (k\<lparr>k_ticks := x18\<rparr>) = kinv k"
  "kinv (k\<lparr>k_now_us := x19\<rparr>) = kinv k" "kinv (k\<lparr>k_serial := x20\<rparr>) = kinv k" "kinv (k\<lparr>k_usb := x21\<rparr>) = kinv k"
  "kinv (k\<lparr>k_net_frame := x22\<rparr>) = kinv k"
  by (rule iffI; erule kinv_frame; simp)+

lemma kinv_mail:
  assumes "kinv k" "mb_ok mb"
  shows "kinv (k\<lparr>k_mail := (k_mail k)(i := mb)\<rparr>)"
proof -
  have "input_ok (k\<lparr>k_mail := (k_mail k)(i := mb)\<rparr>) = input_ok k" by simp
  then show ?thesis
    using assms by (simp add: kinv_defs kbd_ok_def cores_ok_def calls_ok_def mail_ok_def stores_ok_def pinned_def is_boot_def is_occupied_def)
qed

lemma kinv_end_call [simp]:
  assumes "kinv k"
  shows "kinv (end_call i k)"
proof -
  have "input_ok (end_call i k) = input_ok k" by (simp add: end_call_def)
  then show ?thesis
    using assms by (auto simp: end_call_def kinv_defs kbd_ok_def cores_ok_def calls_ok_def mail_ok_def stores_ok_def pinned_def is_boot_def is_occupied_def)
qed

lemma kinv_begin_call:
  assumes "kinv k" "unat (k_next_call k) + 1 < 2 ^ 56"
  shows "kinv (snd (begin_call i k))"
proof -
  have n: "unat (k_next_call k + 1) = unat (k_next_call k) + 1" using assms(2) by (simp add: unat_word_ariths)
  have "input_ok (snd (begin_call i k)) = input_ok k" by (simp add: begin_call_def Let_def)
  then show ?thesis
    using assms
    by (auto simp: begin_call_def Let_def n kinv_defs kbd_ok_def cores_ok_def calls_ok_def mail_ok_def stores_ok_def pinned_def
        is_boot_def is_occupied_def less_Suc_eq)
qed

lemma kinv_staging:
  assumes "kinv k" "staging_ok sg"
  shows "kinv (k\<lparr>k_staging := sg\<rparr>)"
proof -
  have "input_ok (k\<lparr>k_staging := sg\<rparr>) = input_ok k" by simp
  then show ?thesis
    using assms by (simp add: kinv_defs kbd_ok_def cores_ok_def calls_ok_def mail_ok_def stores_ok_def pinned_def is_boot_def is_occupied_def)
qed

lemma kinv_namespace:
  assumes "kinv k" "is_occupied k i"
  shows "kinv (set_namespace i bs k)"
proof -
  have "input_ok (set_namespace i bs k) = input_ok k" by (simp add: set_namespace_def)
  then show ?thesis
    using assms
    by (auto simp: set_namespace_def NS_CAP_def kinv_defs kbd_ok_def cores_ok_def calls_ok_def mail_ok_def stores_ok_def pinned_def
        is_boot_def is_occupied_def)
qed

lemma kinv_doom:
  assumes "kinv k" "i \<noteq> FIRST"
  shows "kinv (k\<lparr>k_doomed := (k_doomed k)(i := x)\<rparr>)"
proof -
  have "input_ok (k\<lparr>k_doomed := (k_doomed k)(i := x)\<rparr>) = input_ok k" by simp
  then show ?thesis
    using assms by (simp add: kinv_defs kbd_ok_def cores_ok_def calls_ok_def mail_ok_def stores_ok_def pinned_def is_boot_def is_occupied_def)
qed

lemma kinv_undoom: "kinv k \<Longrightarrow> kinv (k\<lparr>k_doomed := (k_doomed k)(i := 0)\<rparr>)"
  using kinv_doom [of k i 0] kinv_frame [of k "k\<lparr>k_doomed := (k_doomed k)(i := 0)\<rparr>"]
  by (cases "i = FIRST") (auto simp: kinv_def pinned_def fun_upd_idem)

lemma kinv_set_x0 [simp]: "kinv (set_x0 i v k) = kinv k"
  by (simp add: set_x0_def)

lemma kinv_store [simp]: "kinv (store_bytes p bs k) = kinv k"
  by (simp add: store_bytes_def)

lemma kinv_cred [simp]: "kinv (record_sender_cred i c k) = kinv k"
  by (simp add: record_sender_cred_def)

lemma kinv_set_input_owner:
  assumes "kinv k" "owner < NUM_TASKS" "is_occupied k owner"
  shows "kinv (set_input_owner owner fg k)"
proof -
  let ?k = "set_input_owner owner fg k"
  have i: "input_ok ?k" using assms by (intro input_ok_set_input_owner) (simp_all add: kinv_defs kbd_ok_def)
  have f: "k_states ?k = k_states k" "k_current ?k = k_current k" "k_calls ?k = k_calls k" "k_next_call ?k = k_next_call k"
      "k_mail ?k = k_mail k" "k_staging ?k = k_staging k" "k_argv ?k = k_argv k" "k_env ?k = k_env k" "k_cwd ?k = k_cwd k"
      "k_ns ?k = k_ns k" "k_boot_core ?k = k_boot_core k" "k_doomed ?k = k_doomed k"
    by (simp_all add: set_input_owner_def keyboard_owner_changed_def Let_def split: option.split)
  have "k_kbd ?k = k_kbd k \<or> k_kbd ?k = trim_cut_key (k_kbd k) (k_ticks k)"
    by (simp add: set_input_owner_def keyboard_owner_changed_def Let_def split: option.split)
  then have "kq_inv (k_kbd ?k)" using assms(1) kq_inv_trim by (auto simp: kinv_defs kbd_ok_def)
  then show ?thesis
    using i assms(1)
    by (simp add: kinv_defs kbd_ok_def cores_ok_def calls_ok_def mail_ok_def stores_ok_def pinned_def is_boot_def is_occupied_def f)
qed

section \<open>Messages and calls\<close>

lemma kinv_send:
  assumes "kinv k" "dest < NUM_TASKS"
  shows "kinv (snd (send_message sender dest data call k))"
proof (cases "length data > MSG_MAX")
  case True
  then show ?thesis using assms by (simp add: send_message_def)
next
  case len: False
  show ?thesis
  proof (cases "receives (k_states k dest)")
    case (Some bn)
    obtain b n where bn: "bn = (b, n)" by (cases bn)
    obtain r where r: "k_states k dest = Blocked r"
      using Some by (auto simp: receives_def split: task_state.splits)
    show ?thesis
      using len Some assms(1) r
      by (auto simp: send_message_def bn Let_def intro!: kinv_wake [where r = r])
         (simp add: set_x0_def store_bytes_def record_sender_cred_def)
  next
    case None
    let ?m = "\<lparr>ms_sender = of_nat sender, ms_len = of_nat (length data), ms_cred = (cred_of k sender)\<lparr>cr_call := call\<rparr>, ms_data = data\<rparr>"
    have mb: "mb_ok (k_mail k dest)" using assms by (simp add: kinv_defs mail_ok_def)
    have "kinv (k\<lparr>k_mail := (k_mail k)(dest := mb_push ?m (k_mail k dest))\<rparr>)" if "mb_count (k_mail k dest) < MSG_QUEUE_DEPTH"
      using len by (intro kinv_mail [OF assms(1)] mb_push_back(2) [OF mb that]) (auto simp: unat_of_nat MSG_MAX_def)
    then show ?thesis
      using len None assms(1)
      by (auto simp: send_message_def Let_def not_le split: task_state.split wait_reason.split intro!: kinv_wake)
  qed
qed

lemma kinv_try_recv:
  assumes "kinv k" "i < NUM_TASKS"
  shows "kinv (snd (try_recv_message i buf n k))"
proof -
  have "mb_ok (k_mail k i)" using assms by (simp add: kinv_defs mail_ok_def)
  then have "mb_ok (snd (mb_pop (k_mail k i)))" by (auto simp: mb_pop_def mb_ok_def)
  then have "kinv (k\<lparr>k_mail := (k_mail k)(i := snd (mb_pop (k_mail k i)))\<rparr>)" by (rule kinv_mail [OF assms(1)])
  then show ?thesis
    using assms(1)
    by (auto simp: try_recv_message_def Let_def record_sender_cred_def store_bytes_def split: prod.split option.split)
qed

lemma kinv_deliver:
  assumes "kinv k"
  shows "kinv (deliver_reply server dest data k)"
proof (cases "\<exists>b n f. k_states k dest = Blocked (Wait_Message b n (Some f))")
  case True
  then obtain b n f where s: "k_states k dest = Blocked (Wait_Message b n (Some f))" by blast
  let ?k = "end_call dest (set_x0 dest (pack_received server (min (length data) (unat n)))
      (store_bytes b (take (min (length data) (unat n)) data) k))"
  have "k_states ?k dest = Blocked (Wait_Message b n (Some f))" by (simp add: s end_call_def set_x0_def store_bytes_def)
  moreover have "kinv ?k" using assms by simp
  ultimately have "kinv (set_state dest Runnable ?k)" by (rule kinv_wake [rotated])
  then show ?thesis by (simp add: deliver_reply_def s Let_def)
next
  case False
  then have "deliver_reply server dest data k = k"
    by (simp add: deliver_reply_def split: task_state.split wait_reason.split option.split)
  then show ?thesis using assms by simp
qed

section \<open>Switching\<close>

lemma kinv_butI: "kinv k \<Longrightarrow> kinv_but core k"
  by (simp add: kinv_but_def kinv_defs cores_ok_butI)

lemma kinv_switch:
  assumes "kinv_but core k" "core < MAX_CORES" "may_run_on k core t" "t < NUM_TASKS"
  shows "kinv (set_current core t k)"
proof -
  have "cores_ok (set_current core t k)" using assms by (intro cores_ok_switch) (simp_all add: kinv_but_def)
  moreover have "t = IDLE \<or> is_spawnable t" if "\<not> is_boot k core" using assms(3) that by (auto simp: may_run_on_def split: if_splits)
  moreover have "input_ok (set_current core t k) = input_ok k" by (simp add: set_current_def)
  ultimately show ?thesis
    using assms(1)
    by (auto simp: kinv_but_def kinv_defs kbd_ok_def calls_ok_def mail_ok_def stores_ok_def pinned_def is_boot_def is_occupied_def set_current_def)
qed

lemma next_runnable_may: "next_runnable k core s = Some t \<Longrightarrow> may_run_on k core t \<and> t < NUM_TASKS"
  using scan_loop_Some [of NUM_TASKS s "\<lambda>c. c \<noteq> IDLE \<and> may_run_on k core c" t]
  by (auto simp: next_runnable_def scan_from_def IDLE_def NUM_TASKS_def split: option.splits if_splits)

lemma kinv_but_pick:
  assumes "kinv_but core k"
  obtains t where "next_or_halt k core s = Some t" "may_run_on k core t" "t < NUM_TASKS"
proof -
  have "k_states k IDLE = Runnable" using assms by (simp add: kinv_but_def cores_ok_but_def)
  from next_or_halt_ok [OF this, of core s] that show thesis by blast
qed

lemma kinv_save [simp]: "kinv (save_frame i fr k) = kinv k"
  by (simp add: save_frame_def)

lemma may_run_on_cong:
  assumes "k_states k' = k_states k" "k_current k' = k_current k" "k_boot_core k' = k_boot_core k" "k_secondaries k' = k_secondaries k"
  shows "may_run_on k' = may_run_on k"
  by (intro ext) (simp add: may_run_on_def is_runnable_def running_core_def is_boot_def secondaries_up_def assms)

lemma kinv_block:
  assumes "kinv k" "core < MAX_CORES" "k_current k core \<noteq> IDLE" "\<And>p. pref = Some p \<Longrightarrow> p < NUM_TASKS"
  obtains v fr k' where "block_current_and_switch_to core frame reason pref k = Some (v, fr, k')" "kinv k'"
    "k_next_gen k' = k_next_gen k"
proof -
  let ?c = "k_current k core"
  let ?k1 = "set_state ?c (Blocked reason) (save_frame ?c frame k)"
  note c = kinv_current [OF assms(1,2)]
  have f: "k_states ?k1 = (k_states k)(?c := Blocked reason)" "k_current ?k1 = k_current k"
    by (simp_all add: set_state_def save_frame_def)
  have occ: "is_occupied ?k1 t = is_occupied k t" for t using c(3) by (simp add: is_occupied_def f)
  have "cores_ok_but core ?k1"
    using assms(1-3) by (auto simp: cores_ok_but_def cores_ok_def kinv_defs f)
  moreover have "input_ok ?k1"
    by (rule input_ok_states [of k])
       (use assms(1) c(2) occ in \<open>auto simp: kinv_defs kbd_ok_def set_state_def save_frame_def split: if_splits\<close>)
  ultimately have b: "kinv_but core ?k1"
    using assms(1) occ
    by (simp add: kinv_but_def kinv_defs kbd_ok_def calls_ok_def mail_ok_def stores_ok_def pinned_def is_boot_def set_state_def save_frame_def)
  obtain n where n: "next_or_halt ?k1 core ?c = Some n" "may_run_on ?k1 core n" "n < NUM_TASKS"
    by (rule kinv_but_pick [OF b])
  have "\<exists>t. block_current_and_switch_to core frame reason pref k = resume_as core t ?k1 \<and> may_run_on ?k1 core t \<and> t < NUM_TASKS"
  proof (cases "\<exists>p. pref = Some p \<and> p \<noteq> ?c \<and> may_run_on ?k1 core p")
    case True
    then show ?thesis using assms(4) by (auto simp: block_current_and_switch_to_def Let_def)
  next
    case False
    then have "block_current_and_switch_to core frame reason pref k = resume_as core n ?k1"
      using n(1) by (auto simp: block_current_and_switch_to_def Let_def split: option.split)
    then show ?thesis using n(2,3) by blast
  qed
  then obtain t where t: "block_current_and_switch_to core frame reason pref k = resume_as core t ?k1"
    "may_run_on ?k1 core t" "t < NUM_TASKS" by blast
  obtain v fr where "resume_as core t ?k1 = Some (v, fr, set_current core t ?k1)"
    by (simp add: resume_as_def switch_to_def)
  then show ?thesis
    by (intro that [of v fr "set_current core t ?k1"])
       (use kinv_switch [OF b assms(2) t(2,3)] t(1) in \<open>auto simp: set_current_def set_state_def save_frame_def\<close>)
qed

lemma kinv_yield:
  assumes "kinv k" "core < MAX_CORES"
  obtains v fr k' where "yield_current_and_switch core frame k = Some (v, fr, k')" "kinv k'"
proof -
  let ?c = "k_current k core" and ?fr = "frame\<lparr>cx_gpr := (cx_gpr frame)(0 := 0)\<rparr>"
  obtain t where t: "next_or_halt k core ?c = Some t" "may_run_on k core t" "t < NUM_TASKS"
    by (rule kinv_but_pick [OF kinv_butI [OF assms(1)]])
  have "may_run_on (save_frame ?c ?fr k) core t"
    using may_run_on_cong [of "save_frame ?c ?fr k" k] t(2) by (simp add: save_frame_def)
  then have "kinv (set_current core t (save_frame ?c ?fr k))"
    using assms by (intro kinv_switch [OF kinv_butI _ _ t(3)]) simp_all
  then show ?thesis
    using that assms(1) t(1) by (cases "t = ?c") (auto simp: yield_current_and_switch_def resume_as_def switch_to_def Let_def)
qed

lemma kinv_tick_pick:
  assumes "kinv k" "core < MAX_CORES"
  obtains t where "next_at_tick core k = Some (t, k\<lparr>k_round := (k_round k)(core := t)\<rparr>)"
    "may_run_on (k\<lparr>k_round := (k_round k)(core := t)\<rparr>) core t" "t < NUM_TASKS"
proof -
  have "k_states k IDLE = Runnable" using assms(1) by (simp add: kinv_defs cores_ok_def)
  from next_runnable_total [OF this, of core "k_round k core"] obtain t where
    t: "next_runnable k core (k_round k core) = Some t" "t < NUM_TASKS" "may_run_on k core t" by blast
  have "may_run_on (k\<lparr>k_round := (k_round k)(core := t)\<rparr>) = may_run_on k" by (rule may_run_on_cong) simp_all
  then show thesis using that [of t] t by (simp add: next_at_tick_def)
qed

lemma kinv_switch_to:
  assumes "kinv k" "core < MAX_CORES" "may_run_on k core t" "t < NUM_TASKS"
  shows "kinv (snd (switch_to core t (save_frame i fr k)))"
proof -
  have "may_run_on (save_frame i fr k) = may_run_on k" by (rule may_run_on_cong) (simp_all add: save_frame_def)
  then show ?thesis using assms by (simp add: switch_to_def kinv_switch [OF kinv_butI])
qed

lemma kinv_secondary_tick:
  assumes "kinv k" "core < MAX_CORES"
  obtains fr' k' where "on_secondary_tick core frame k = Some (fr', k')" "kinv k'"
proof -
  obtain t where t: "next_at_tick core k = Some (t, k\<lparr>k_round := (k_round k)(core := t)\<rparr>)"
    "may_run_on (k\<lparr>k_round := (k_round k)(core := t)\<rparr>) core t" "t < NUM_TASKS" by (rule kinv_tick_pick [OF assms])
  let ?s = "switch_to core t (save_frame (k_current k core) frame (k\<lparr>k_round := (k_round k)(core := t)\<rparr>))"
  have k: "kinv (k\<lparr>k_round := (k_round k)(core := t)\<rparr>)" using assms(1) by simp
  show thesis
    using that [of frame "k\<lparr>k_round := (k_round k)(core := t)\<rparr>"] that [of "fst ?s" "snd ?s"]
      kinv_switch_to [OF k assms(2) t(2,3), of "k_current k core" frame] k
    by (cases "t = k_current k core") (auto simp: on_secondary_tick_def t(1) Let_def)
qed

lemma kinv_reschedule:
  assumes "kinv k" "core < MAX_CORES"
  obtains fr' k' where "reschedule_if_idle core frame k = Some (fr', k')" "kinv k'"
proof -
  obtain t where t: "next_or_halt k core IDLE = Some t" "may_run_on k core t" "t < NUM_TASKS"
    by (rule kinv_but_pick [OF kinv_butI [OF assms(1)]])
  have "kinv (set_current core t k)" by (rule kinv_switch [OF kinv_butI [OF assms(1)] assms(2) t(2,3)])
  then have "\<exists>fr' k'. reschedule_if_idle core frame k = Some (fr', k') \<and> kinv k'"
    using assms(1) t(1) by (simp add: reschedule_if_idle_def switch_to_def)
  then show thesis using that by blast
qed

section \<open>The end of a task\<close>

lemma end_task_frame [simp]:
  "k_boot_core (end_task d st k) = k_boot_core k" "k_secondaries (end_task d st k) = k_secondaries k"
  by (auto simp: end_task_def Let_def set_state_def end_call_def reset_id_def reset_stdout_target_def clear_namespace_def set_kbd_raw_def
      clear_env_def clear_cwd_def clear_argv_def clear_delegations_of_def clear_grant_def clear_sender_cred_def clear_mailbox_def
      split: prod.split)

lemma end_task_occupied:
  "st = Unused \<or> (\<exists>s. st = Zombie s) \<Longrightarrow> is_occupied (end_task d st k) t \<longleftrightarrow> t \<noteq> d \<and> is_occupied k t"
  by (auto simp: is_occupied_def end_task_fields waits_for_reply_def split: task_state.splits)

lemma staging_ok_end: "staging_ok (k_staging k) \<Longrightarrow> staging_ok (k_staging (end_task d st k))"
  by (simp add: end_task_fields release_staging_of_def Let_def staging_ok_def release_staging_def)

lemma stores_ok_end:
  "stores_ok k \<Longrightarrow> st = Unused \<or> (\<exists>s. st = Zombie s) \<Longrightarrow> stores_ok (end_task d st k)"
  by (simp add: stores_ok_def end_task_occupied end_task_fields)

lemma pinned_end:
  assumes "pinned k" "st = Unused \<or> (\<exists>s. st = Zombie s) \<and> FIRST_SPAWNABLE \<le> d"
  shows "pinned (end_task d st k)"
  using assms by (auto simp: pinned_def is_boot_def end_task_fields)

lemma kinv_end:
  assumes "kinv k" "d < NUM_TASKS" "d \<noteq> FIRST" "d \<noteq> IDLE" "is_occupied k d"
    and "st = Unused \<or> (\<exists>s. st = Zombie s) \<and> FIRST_SPAWNABLE \<le> d"
    and "\<And>c. c < MAX_CORES \<Longrightarrow> k_current k c \<noteq> d"
  shows "kinv (end_task d st k)"
  using assms cores_ok_end_idle [of k d st] kbd_ok_end_task [of k d st]
  by (auto simp: kinv_defs FIRST_def calls_ok_end_task mail_ok_end_task staging_ok_end stores_ok_end pinned_end)

lemma kinv_end_current:
  assumes "kinv k" "core < MAX_CORES" "k_current k core \<noteq> FIRST" "k_current k core \<noteq> IDLE"
    and "st = Unused \<or> (\<exists>s. st = Zombie s) \<and> FIRST_SPAWNABLE \<le> k_current k core"
  shows "kinv_but core (end_task (k_current k core) st k)"
  using assms kinv_current [OF assms(1,2)] cores_ok_end_current [of k core st] kbd_ok_end_task [of k "k_current k core" st]
  by (auto simp: kinv_but_def kinv_defs FIRST_def calls_ok_end_task mail_ok_end_task staging_ok_end stores_ok_end pinned_end)

lemma waits_not_unused: "\<not> waits_for_reply Unused d"
  by (simp add: waits_for_reply_def)

text \<open>A teardown of a slot that is already empty, as the supervision of a server that was given up makes.\<close>

lemma kinv_end_empty:
  assumes "kinv k" "d < NUM_TASKS" "k_states k d = Unused"
  shows "kinv (end_task d Unused k)"
proof -
  let ?k = "end_task d Unused k"
  have ok: "input_ok k" "cores_ok k" using assms(1) by (simp_all add: kinv_defs kbd_ok_def)
  have own: "k_input_owner k \<noteq> d" using ok(1) assms(3) by (auto simp: input_ok_def is_occupied_def)
  have p: "k_prev_owners ?k = (k_prev_owners k)(d := 0)" "k_input_owner ?k = k_input_owner k"
    using own assms(3) by (simp_all add: end_task_fields revert_input_owner_if_def Let_def task_id_of_def)
  have occ: "is_occupied ?k t \<longleftrightarrow> is_occupied k t" for t
    using end_task_occupied [of Unused d k t] assms(3) by (cases "t = d") (simp_all add: is_occupied_def end_task_fields)
  have live: "live_occupant ?k e = Some j \<longleftrightarrow> live_occupant k e = Some j" for e j
    by (simp add: live_occupant_iff occ end_task_fields)
  have "owner_edges ?k \<subseteq> owner_edges k"
  proof -
    have "live_occupant k 0 = None" using ok(1) by (simp add: input_ok_def live_occupant_zero)
    then show ?thesis by (auto simp: owner_edges_def live p split: if_splits)
  qed
  then have "acyclic (owner_edges ?k)" using ok(1) acyclic_subset by (auto simp: input_ok_def)
  moreover have "gens_ok ?k"
    using ok(1) assms(3) next_gen_pos [of k] waits_not_unused
    by (auto simp: input_ok_def gens_ok_def end_task_fields(1,3,4) p)
  ultimately have "input_ok ?k" using ok(1) by (simp add: input_ok_def p occ)
  moreover have "cores_ok ?k"
    using ok(2) assms(3) waits_not_runnable by (auto simp: cores_ok_def end_task_fields)
  ultimately show ?thesis
    using assms(1) own
    by (simp add: kinv_defs kbd_ok_def end_task_fields(24) calls_ok_end_task mail_ok_end_task staging_ok_end stores_ok_end pinned_end)
qed

lemma kinv_switch_away:
  assumes "kinv_but core k" "core < MAX_CORES"
  obtains fr t where "switch_away_from_dead core dead k = Some (fr, set_current core t k)" "kinv (set_current core t k)"
proof -
  obtain t where t: "next_or_halt k core dead = Some t" "may_run_on k core t" "t < NUM_TASKS"
    by (rule kinv_but_pick [OF assms(1)])
  obtain fr where "switch_to core t k = (fr, set_current core t k)" by (simp add: switch_to_def)
  then show thesis using that kinv_switch [OF assms t(2,3)] t(1) by (simp add: switch_away_from_dead_def)
qed

lemma kinv_kill_current:
  assumes "kinv k" "core < MAX_CORES" "k_current k core \<noteq> FIRST" "k_current k core \<noteq> IDLE"
  obtains fr k' where "kill_current_and_switch core k = Some (fr, k')" "kinv k'" "k_next_gen k' = k_next_gen k"
    "k_states k' (k_current k core) = Unused"
proof -
  have "kinv_but core (end_task (k_current k core) Unused k)" by (rule kinv_end_current [OF assms]) simp
  then obtain fr t where "switch_away_from_dead core (k_current k core) (end_task (k_current k core) Unused k) =
      Some (fr, set_current core t (end_task (k_current k core) Unused k))"
    "kinv (set_current core t (end_task (k_current k core) Unused k))"
    by (rule kinv_switch_away [OF _ assms(2)])
  then show thesis using that by (simp add: kill_current_and_switch_def Let_def set_current_def end_task_fields)
qed

lemma kinv_exit:
  assumes "kinv k" "core < MAX_CORES" "is_spawnable (k_current k core)"
  obtains v fr k' where "exit_current_and_switch core status k = Some (v, fr, k')" "kinv k'"
proof -
  have c: "k_current k core \<noteq> FIRST" "k_current k core \<noteq> IDLE" "FIRST_SPAWNABLE \<le> k_current k core"
    using assms(3) by (auto simp: is_spawnable_def FIRST_def IDLE_def FIRST_SPAWNABLE_def)
  have "kinv_but core (end_task (k_current k core) (Zombie (status AND 0xff)) k)"
    by (rule kinv_end_current [OF assms(1,2) c(1,2)]) (use c(3) in simp)
  then obtain fr t where "switch_away_from_dead core (k_current k core) (end_task (k_current k core) (Zombie (status AND 0xff)) k) =
      Some (fr, set_current core t (end_task (k_current k core) (Zombie (status AND 0xff)) k))"
    "kinv (set_current core t (end_task (k_current k core) (Zombie (status AND 0xff)) k))"
    by (rule kinv_switch_away [OF _ assms(2)])
  then show thesis using that by (simp add: exit_current_and_switch_def Let_def)
qed

lemma kinv_kill_task:
  assumes "kinv k" "core < MAX_CORES" "i < NUM_TASKS" "i \<noteq> FIRST" "i \<noteq> IDLE" "is_occupied k i" "i \<noteq> k_current k core"
  obtains e k' where "kill_task core i k = Some (e, k')" "kinv k'" "k_next_gen k' = k_next_gen k"
    "e = Ended_Now \<longrightarrow> k_states k' i = Unused" "running_core k i = None \<longrightarrow> e = Ended_Now"
proof (cases "running_core k i")
  case None
  then have "\<And>c. c < MAX_CORES \<Longrightarrow> k_current k c \<noteq> i" using running_core_iff(1) assms(5) by blast
  then have "kinv (end_task i Unused k)" using assms by (intro kinv_end) auto
  then show thesis using that [of Ended_Now "end_task i Unused k"] None assms(7) by (simp add: kill_task_def end_task_fields)
next
  case (Some c)
  obtain ident where "task_id_of k i = Some ident"
    using assms(3,6) is_occupied_not_Unused by (auto simp: task_id_of_def)
  then show thesis
    using that [of "Ended_OnCore c" "k\<lparr>k_doomed := (k_doomed k)(i := ident)\<rparr>"] Some assms(7) kinv_doom [OF assms(1,4)]
    by (simp add: kill_task_def)
qed

lemma kinv_end_if_doomed:
  assumes "kinv k" "core < MAX_CORES"
  obtains b fr k' where "end_if_doomed core frame k = Some (b, fr, k')" "kinv k'" "k_next_gen k' = k_next_gen k"
    "k_next_call k' = k_next_call k" "b \<or> k_current k' = k_current k \<and> fr = frame"
proof (cases "k_doomed k (k_current k core) = 0")
  case True
  then show thesis using that [of False frame k] assms(1) by (simp add: end_if_doomed_def Let_def)
next
  case False
  have c: "k_current k core \<noteq> FIRST" using False assms(1) by (auto simp: kinv_def pinned_def)
  show thesis
  proof (cases "k_current k core = IDLE \<or> task_id_of k (k_current k core) \<noteq> Some (k_doomed k (k_current k core))")
    case True
    then show thesis
      using that [of False frame "k\<lparr>k_doomed := (k_doomed k)(k_current k core := 0)\<rparr>"] False kinv_undoom [OF assms(1)]
      by (auto simp: end_if_doomed_def Let_def)
  next
    case f: False
    have "kinv_but core (end_task (k_current k core) Unused k)" using f by (intro kinv_end_current [OF assms c]) auto
    then obtain fr t where "switch_away_from_dead core (k_current k core) (end_task (k_current k core) Unused k) =
        Some (fr, set_current core t (end_task (k_current k core) Unused k))"
      "kinv (set_current core t (end_task (k_current k core) Unused k))"
      by (rule kinv_switch_away [OF _ assms(2)])
    then show thesis
      using that False f by (simp add: end_if_doomed_def kill_current_and_switch_def Let_def set_current_def end_task_fields)
  qed
qed

lemma net_waiter_blocked: "net_waiter is k = Some i \<Longrightarrow> i \<in> set is \<and> (\<exists>d. k_states k i = Blocked (Wait_NetInput d))"
  by (induction "is" k rule: net_waiter.induct) (auto split: task_state.splits wait_reason.splits)

section \<open>New tasks\<close>

lemma kinv_birth:
  assumes "kinv k" "i < NUM_TASKS" "k_states k i = Unused" "unat (k_next_gen k) + 1 < 2 ^ 55"
    and "k_states k' = (k_states k)(i := Runnable)" "k_gens k' = (k_gens k)(i := k_next_gen k)"
      "k_next_gen k' = k_next_gen k + 1" "k_prev_owners k' = (k_prev_owners k)(i := 0)"
      "k_input_owner k' = k_input_owner k" "k_current k' = k_current k" "k_kbd k' = k_kbd k"
      "k_calls k' = k_calls k" "k_next_call k' = k_next_call k" "k_mail k' = k_mail k"
    and s: "k_staging k' = k_staging k" "k_boot_core k' = k_boot_core k" "k_doomed k' = k_doomed k"
      "\<And>t. t \<noteq> i \<Longrightarrow> k_argv k' t = k_argv k t" "\<And>t. t \<noteq> i \<Longrightarrow> k_env k' t = k_env k t"
      "\<And>t. t \<noteq> i \<Longrightarrow> k_cwd k' t = k_cwd k t" "\<And>t. t \<noteq> i \<Longrightarrow> k_ns k' t = k_ns k t"
      "length (k_argv k' i) \<le> ARGV_MAX" "length (k_env k' i) \<le> ENV_MAX" "length (k_cwd k' i) \<le> CWD_MAX" "length (k_ns k' i) \<le> NS_MAX"
  shows "kinv k'"
proof -
  have "kernel_ok k'" using assms(1) by (intro kernel_ok_birth [OF _ assms(2-14)]) (simp add: kinv_def)
  moreover have "stores_ok k'"
    unfolding stores_ok_def
  proof (intro allI impI)
    fix t assume t: "t < NUM_TASKS"
    show "length (k_argv k' t) \<le> ARGV_MAX \<and> length (k_env k' t) \<le> ENV_MAX \<and> length (k_cwd k' t) \<le> CWD_MAX \<and> length (k_ns k' t) \<le> NS_MAX \<and>
      (\<not> is_occupied k' t \<longrightarrow> k_argv k' t = [] \<and> k_env k' t = [] \<and> k_cwd k' t = [] \<and> k_ns k' t = [])"
      using assms(1) t s by (cases "t = i") (auto simp: kinv_def stores_ok_def is_occupied_def assms(5))
  qed
  ultimately show ?thesis
    using assms(1) by (auto simp: kinv_def pinned_def is_boot_def s(1-3) assms(5,10))
qed

lemma kinv_free [simp]: "kinv (free_runtime_region b sz k) = kinv k"
  by (simp add: free_runtime_region_def)

lemma kinv_allocate [simp]: "kinv (snd (allocate_runtime_region sz k)) = kinv k"
  by (simp add: allocate_runtime_region_def Let_def)

lemma kinv_load_staged:
  assumes "kinv k" "unat (k_next_gen k) + 1 < 2 ^ 55"
  shows "kinv (snd (load_staged core program tgt st al cl el k))"
proof (cases "elf_region_size program")
  case (Inl e)
  then show ?thesis using assms(1) by (auto simp: load_staged_def split: loader_error.split)
next
  case (Inr x)
  obtain h phs sz where x: "x = (h, phs, sz)" by (cases x)
  obtain base k1 where a: "allocate_runtime_region sz k = (base, k1)" by (cases "allocate_runtime_region sz k")
  have k1: "kinv k1" using kinv_allocate [of sz k] a assms(1) by simp
  have g1: "k_next_gen k1 = k_next_gen k" using a by (auto simp: allocate_runtime_region_def Let_def)
  obtain r m where p: "populate_region program h phs base sz (k_mem k1) = (r, m)" by (cases "populate_region program h phs base sz (k_mem k1)")
  show ?thesis
  proof (cases r)
    case (Inl e)
    then show ?thesis using k1 by (simp add: load_staged_def Inr x a p)
  next
    case ok: (Inr loaded)
    let ?k = "k1\<lparr>k_mem := m\<rparr>"
    show ?thesis
    proof (cases "List.find (\<lambda>i. k_states ?k i = Unused) [FIRST_SPAWNABLE..<NUM_TASKS]")
      case None
      then show ?thesis using k1 ok by (simp add: load_staged_def Inr x a p spawn_def)
    next
      case (Some i)
      then have i: "i < NUM_TASKS" "k_states ?k i = Unused" by (auto simp: find_Some_iff)
      let ?s = "spawn_in i (k_current ?k core) (initial_context loaded) (lp_region loaded) ?k"
      have st: "length (k_argv k1 i) \<le> ARGV_MAX" "length (k_env k1 i) \<le> ENV_MAX" "length (k_cwd k1 i) \<le> CWD_MAX" "length (k_ns k1 i) \<le> NS_MAX"
        using k1 i(1) by (auto simp: kinv_def stores_ok_def)
      have "kinv (attach_staged i (k_current k core) tgt st al cl el ?s)"
        by (rule kinv_birth [of ?k i])
           (use k1 i assms(2) g1 st in \<open>simp_all add: spawn_in_fields attach_staged_fields min.coboundedI2 min.coboundedI1\<close>)
      then show ?thesis using ok Some by (simp add: load_staged_def Inr x a p spawn_def)
    qed
  qed
qed

lemma kinv_release: "kinv k \<Longrightarrow> kinv (release_staging k)"
  using kinv_staging [of k "k_staging (release_staging k)"] release_staging_ok(1) [of k]
  by (auto simp: kinv_def release_staging_def)

lemma kinv_spawn:
  assumes "kinv k" "core < MAX_CORES" "unat (k_next_gen k) + 1 < 2 ^ 55"
  shows "kinv (snd (sys_spawn core a0 a1 a2 a3 k))"
proof -
  obtain c k1 where o: "spawn_owner_check core k = (c, k1)" by (cases "spawn_owner_check core k")
  have k1: "kinv k1" "k_next_gen k1 = k_next_gen k"
    using o assms(1) kinv_release [OF assms(1)]
    by (auto simp: spawn_owner_check_def staging_state_def release_staging_def Let_def split: if_splits)
  have "staging_ok (k_staging (snd (pending_env_len k1)))" using k1(1) by (simp add: pending_env_len_def staging_ok_def kinv_def)
  then have k2: "kinv (snd (pending_env_len k1))" using kinv_staging [OF k1(1)] by (simp add: pending_env_len_def)
  have g: "k_next_gen (snd (pending_env_len k1)) = k_next_gen k" using k1(2) by (simp add: pending_env_len_def)
  have "kinv (snd (spawn_staged core a0 a1 a2 a3 k1))"
    using k2 kinv_load_staged [OF k2] g assms(3)
    by (auto simp: spawn_staged_def Let_def case_prod_beta split: sum.split)
  then show ?thesis using k1(1) by (auto simp: sys_spawn_def o kinv_release case_prod_beta split: option.split)
qed

lemma kinv_id:
  assumes "kinv k" "core < MAX_CORES"
  obtains me where "task_id_of k (k_current k core) = Some me" "me \<noteq> 0"
proof -
  note c = kinv_current [OF assms]
  have g: "gens_ok k" using assms(1) by (simp add: kinv_defs kbd_ok_def input_ok_def)
  then have "k_gens k (k_current k core) \<noteq> 0" using c(1,2) by (simp add: gens_ok_def)
  moreover have "unat (pack_slot (k_gens k (k_current k core)) (k_current k core)) = unat (k_gens k (k_current k core)) * 256 + k_current k core"
    using gens_ok_bound [OF g c(1)] c(1) by (intro pack_slot_unat) auto
  ultimately have "pack_slot (k_gens k (k_current k core)) (k_current k core) \<noteq> 0"
    by (metis add_is_0 mult_is_0 unat_0 unat_eq_0 zero_neq_numeral)
  then show thesis using that c(1,2) by (simp add: task_id_of_def)
qed

text \<open>The staging calls change the staging and nothing else.\<close>

lemma kinv_stage_calls:
  assumes "kinv k" "core < MAX_CORES"
  shows "kinv (snd (sys_args_stage core a0 a1 k))" "kinv (snd (sys_cwd_stage core a0 a1 k))"
    "kinv (snd (sys_env_stage core a0 a1 k))" "kinv (snd (sys_spawn_stage core a0 a1 a2 k))"
proof -
  obtain me where me: "task_id_of k (k_current k core) = Some me" "me \<noteq> 0" by (rule kinv_id [OF assms])
  have sg: "staging_ok (k_staging k)" using assms(1) by (simp add: kinv_def)
  note c = claim_staging_cases [OF me]
  have n: "unat n \<le> m" if "valid_stage_range core p n m k" for p n m
    using that by (auto simp: valid_stage_range_def intro: unat_le_of_nat)
  note d = staging_ok_def release_staging_def put_front_user
  have fin: "kinv k'" if "k' = k\<lparr>k_staging := k_staging k'\<rparr>" "staging_ok (k_staging k')" for k'
    using kinv_staging [OF assms(1) that(2)] that(1) by simp
  show "kinv (snd (sys_args_stage core a0 a1 k))"
    by (rule fin) (use sg n [of a0 a1 ARGV_MAX] in \<open>auto simp: sys_args_stage_def c d\<close>)
  show "kinv (snd (sys_cwd_stage core a0 a1 k))"
    by (rule fin) (use sg n [of a0 a1 CWD_MAX] in \<open>auto simp: sys_cwd_stage_def c d\<close>)
  show "kinv (snd (sys_env_stage core a0 a1 k))"
    by (rule fin) (use sg n [of a0 a1 ENV_MAX] in \<open>auto simp: sys_env_stage_def c d\<close>)
  have "staging_ok (k_staging (snd (sys_spawn_stage core a0 a1 a2 k)))"
    using stage_image_refines [OF sg me, of a0 a1 a2] by (metis prod.collapse)
  moreover have "snd (sys_spawn_stage core a0 a1 a2 k) = k\<lparr>k_staging := k_staging (snd (sys_spawn_stage core a0 a1 a2 k))\<rparr>"
    by (simp add: sys_spawn_stage_def c(2) claim_from_def me(1) release_staging_def Let_def split: option.split)
  ultimately show "kinv (snd (sys_spawn_stage core a0 a1 a2 k))" by (intro fin)
qed

end
