(* ===== verification/Kernel_Call_Inv.thy ===== *)
theory Kernel_Call_Inv
  imports Kernel_Tick Kernel_Inv
begin

text \<open>
  The system calls keep the invariant of the kernel and always return: one lemma for each arm, and \<open>dispatch\<close>
  over the table of arms. The numbers of generations and calls are bounded by \<open>room\<close>: the kernel gives
  out one generation for a spawn or a restart and one call number for a call, and has 2^55 of each.
\<close>

unbundle bit_operations_syntax

section \<open>System calls keep the invariant\<close>

definition room :: "kernel \<Rightarrow> bool" where
  "room k \<longleftrightarrow> unat (k_next_gen k) + 16 < 2 ^ 55 \<and> unat (k_next_call k) + 1 < 2 ^ 56"

definition reg_ok :: "entry list \<Rightarrow> bool" where
  "reg_ok reg \<longleftrightarrow> (\<forall>e\<in>set reg. \<forall>s. en_slot e = Some s \<longrightarrow> IDLE < s \<and> s < FIRST_SPAWNABLE)"

definition minv :: "machine \<Rightarrow> bool" where
  "minv m \<longleftrightarrow> kinv (fst m) \<and> reg_ok (snd m)"

definition arm_ok :: "arm \<Rightarrow> bool" where
  "arm_ok h \<longleftrightarrow> (\<forall>core frame a0 a1 a2 a3 m.
     minv m \<and> room (fst m) \<and> core < MAX_CORES \<and> k_current (fst m) core \<noteq> IDLE \<longrightarrow>
     (\<exists>v fr m'. h core frame a0 a1 a2 a3 m = Some (v, fr, m') \<and> minv m'))"

lemma reads_ok [simp]: "arm_ok (reads f)"
  by (simp add: arm_ok_def reads_def split: prod.split)

lemma answers_ok:
  assumes "\<And>core frame a0 a1 a2 a3 k. kinv k \<Longrightarrow> room k \<Longrightarrow> core < MAX_CORES \<Longrightarrow> kinv (snd (f core frame a0 a1 a2 a3 k))"
  shows "arm_ok (answers f)"
  unfolding arm_ok_def
proof (intro allI impI)
  fix core frame a0 a1 a2 a3 m
  assume h: "minv m \<and> room (fst m) \<and> core < MAX_CORES \<and> k_current (fst m) core \<noteq> IDLE"
  obtain k reg where m: "m = (k, reg)" by (cases m)
  have "kinv (snd (f core frame a0 a1 a2 a3 k))" using assms h by (simp add: m minv_def)
  then show "\<exists>v fr m'. answers f core frame a0 a1 a2 a3 m = Some (v, fr, m') \<and> minv m'"
    using h by (simp add: answers_def m minv_def case_prod_beta)
qed

lemma switches_ok:
  assumes "\<And>core frame a0 a1 a2 a3 k. kinv k \<Longrightarrow> room k \<Longrightarrow> core < MAX_CORES \<Longrightarrow> k_current k core \<noteq> IDLE \<Longrightarrow>
    \<exists>v fr k'. f core frame a0 a1 a2 a3 k = Some (v, fr, k') \<and> kinv k'"
  shows "arm_ok (switches f)"
  unfolding arm_ok_def
proof (intro allI impI)
  fix core frame a0 a1 a2 a3 m
  assume h: "minv m \<and> room (fst m) \<and> core < MAX_CORES \<and> k_current (fst m) core \<noteq> IDLE"
  obtain k reg where m: "m = (k, reg)" by (cases m)
  have "kinv k" "room k" "core < MAX_CORES" "k_current k core \<noteq> IDLE" using h by (simp_all add: m minv_def)
  from assms [OF this] obtain v fr k' where "f core frame a0 a1 a2 a3 k = Some (v, fr, k')" "kinv k'" by blast
  then show "\<exists>v fr m'. switches f core frame a0 a1 a2 a3 m = Some (v, fr, m') \<and> minv m'"
    using h by (simp add: switches_def m minv_def)
qed

lemma kinv_copy_out [simp]: "kinv (snd (copy_out core p cap bs k)) = kinv k"
  by (simp add: copy_out_def Let_def)

lemma kinv_answers:
  assumes "kinv k" "core < MAX_CORES"
  shows "kinv (snd (sys_try_read_char core k))" "kinv (snd (sys_get_cwd core a0 a1 k))" "kinv (snd (sys_ns_set core a0 a1 k))"
    "kinv (snd (sys_get_ns core a0 a1 k))" "kinv (snd (sys_get_arg core a0 a1 a2 k))" "kinv (snd (sys_get_env core a0 a1 a2 k))"
    "kinv (snd (sys_set_id core a0 a1 a2 a3 k))" "kinv (snd (sys_get_groups core a0 a1 a2 k))" "kinv (snd (sys_sender_groups core a0 a1 k))"
    "kinv (snd (sys_kbd_mode core a0 k))" "kinv (snd (sys_task_name core a0 a1 a2 k))" "kinv (snd (sys_msg_send core a0 a1 a2 k))"
    "kinv (snd (sys_msg_try_recv core a0 a1 k))" "kinv (snd (sys_fg core a0 a1 k))" "kinv (snd (sys_grant core a0 a1 a2 a3 k))"
    "kinv (snd (sys_safecopy core frame a0 a1 a2 a3 k))" "kinv (snd (sys_delegate core a0 a1 k))"
proof -
  note c = kinv_current [OF assms]
  have co: "kinv k1" if "copy_out core p cap bs k = (v, k1)" for p cap bs v k1
    using kinv_copy_out [of core p cap bs k] that assms(1) by simp
  show "kinv (snd (sys_try_read_char core k))"
    using kinv_keyboard(1) [OF assms(1), of "k_current k core"] by (auto simp: sys_try_read_char_def split: prod.split option.split)
  show "kinv (snd (sys_get_cwd core a0 a1 k))" by (auto simp: sys_get_cwd_def co split: prod.split option.split)
  show "kinv (snd (sys_ns_set core a0 a1 k))" using assms(1) kinv_namespace [OF assms(1) c(3)] by (simp add: sys_ns_set_def Let_def)
  show "kinv (snd (sys_get_ns core a0 a1 k))" by (auto simp: sys_get_ns_def co split: prod.split option.split)
  show "kinv (snd (sys_get_arg core a0 a1 a2 k))" using assms(1)
    by (auto simp: sys_get_arg_def get_entry_def co split: prod.split option.split)
  show "kinv (snd (sys_get_env core a0 a1 a2 k))" using assms(1)
    by (auto simp: sys_get_env_def get_entry_def co split: prod.split option.split)
  show "kinv (snd (sys_set_id core a0 a1 a2 a3 k))" using assms(1) by (simp add: sys_set_id_def apply_id_def set_groups_def Let_def)
  show "kinv (snd (sys_get_groups core a0 a1 a2 k))" using assms(1)
    by (simp add: sys_get_groups_def write_gids_def Let_def split: option.split prod.split)
  show "kinv (snd (sys_sender_groups core a0 a1 k))" using assms(1)
    by (simp add: sys_sender_groups_def write_gids_def Let_def split: option.split prod.split)
  show "kinv (snd (sys_kbd_mode core a0 k))" using assms(1) kinv_keyboard(5) [OF assms(1)]
    by (simp add: sys_kbd_mode_def set_kbd_raw_def Let_def)
  show "kinv (snd (sys_task_name core a0 a1 a2 k))" using assms(1)
    by (auto simp: sys_task_name_def co split: prod.split option.split)
  show "kinv (snd (sys_msg_send core a0 a1 a2 k))" using assms(1) kinv_send [OF assms(1)]
    by (auto simp: sys_msg_send_def Let_def live_index_iff split: option.split)
  show "kinv (snd (sys_msg_try_recv core a0 a1 k))" using assms(1) kinv_try_recv [OF assms(1) c(1), of a0 a1]
    by (auto simp: sys_msg_try_recv_def split: prod.split option.split)
  show "kinv (snd (sys_fg core a0 a1 k))" using assms(1) kinv_set_input_owner [OF assms(1)]
    by (auto simp: sys_fg_def task_index_def)
  show "kinv (snd (sys_grant core a0 a1 a2 a3 k))" using assms(1) by (simp add: sys_grant_def set_grant_def Let_def split: option.split)
  show "kinv (snd (sys_safecopy core frame a0 a1 a2 a3 k))" using assms(1)
    by (simp add: sys_safecopy_def safecopy_def Let_def split: option.split prod.split)
  show "kinv (snd (sys_delegate core a0 a1 k))" using assms(1)
    by (simp add: sys_delegate_def set_delegate_def split: option.split)
qed

lemma send_message_current: "k_current (snd (send_message s d data call k)) = k_current k"
    "k_next_gen (snd (send_message s d data call k)) = k_next_gen k"
    "k_boot_core (snd (send_message s d data call k)) = k_boot_core k"
  by (auto simp: send_message_def Let_def kset_defs split: option.split task_state.split wait_reason.split prod.split)

text \<open>The arms that may switch tasks.\<close>

lemma block_ok:
  assumes "kinv k" "core < MAX_CORES" "k_current k core \<noteq> IDLE"
  shows "\<exists>v fr k'. block_current_and_switch core frame reason k = Some (v, fr, k') \<and> kinv k'"
  using kinv_block [OF assms, of None frame reason] by (metis block_current_and_switch_def option.distinct(1))

lemma keyboard_current:
  assumes "kinv k"
  shows "k_current (snd (poll_keyboard_byte r k)) = k_current k" "k_current (snd (key_wait_answer r us k)) = k_current k"
  using poll_keyboard_ok [OF kinv_kbd [OF assms], of r] key_wait_answer_ok [OF kinv_kbd [OF assms], of r us]
    reads_only_fields(5) by blast+

lemma read_char_ok:
  assumes "kinv k" "core < MAX_CORES" "k_current k core \<noteq> IDLE"
  shows "\<exists>v fr k'. sys_read_char core frame k = Some (v, fr, k') \<and> kinv k'"
proof -
  obtain b k1 where p: "poll_keyboard_byte (k_current k core) k = (b, k1)" by (cases "poll_keyboard_byte (k_current k core) k")
  have k1: "kinv k1" "k_current k1 = k_current k"
    using kinv_keyboard(1) [OF assms(1), of "k_current k core"] keyboard_current(1) [OF assms(1), of "k_current k core"] p by auto
  then show ?thesis using block_ok [of k1 core frame Wait_Keyboard] assms by (cases b) (auto simp: sys_read_char_def p)
qed

lemma key_wait_until_ok:
  assumes "kinv k" "core < MAX_CORES" "k_current k core \<noteq> IDLE"
  shows "\<exists>v fr k'. sys_key_wait_until core frame a0 k = Some (v, fr, k') \<and> kinv k'"
proof -
  obtain b k1 where p: "key_wait_answer (k_current k core) a0 k = (b, k1)" by (cases "key_wait_answer (k_current k core) a0 k")
  have k1: "kinv k1" "k_current k1 = k_current k"
    using kinv_keyboard(2) [OF assms(1), of "k_current k core" a0] keyboard_current(2) [OF assms(1), of "k_current k core" a0] p by auto
  then show ?thesis using block_ok [of k1 core frame "Wait_Key a0"] assms by (cases b) (auto simp: sys_key_wait_until_def p)
qed

lemma exit_ok:
  assumes "kinv k" "core < MAX_CORES"
  shows "\<exists>v fr k'. sys_exit core frame a0 k = Some (v, fr, k') \<and> kinv k'"
proof (cases "is_spawnable (k_current k core)")
  case True
  obtain v fr k' where "exit_current_and_switch core a0 k = Some (v, fr, k')" "kinv k'" by (rule kinv_exit [OF assms True])
  then show ?thesis using True by (simp add: sys_exit_def)
qed (use assms in \<open>simp add: sys_exit_def\<close>)

lemma spawnable_bounds: "is_spawnable t \<Longrightarrow> t \<noteq> FIRST \<and> t \<noteq> IDLE"
  by (auto simp: is_spawnable_def FIRST_def IDLE_def FIRST_SPAWNABLE_def)

lemma kill_ok:
  assumes "kinv k" "core < MAX_CORES"
  shows "\<exists>v fr k'. sys_kill core frame a0 k = Some (v, fr, k') \<and> kinv k'"
proof (cases "unat a0 < NUM_TASKS \<and> is_spawnable (unat a0) \<and> is_occupied k (unat a0) \<and> unat a0 \<noteq> k_current k core")
  case True
  then obtain e k' where "kill_task core (unat a0) k = Some (e, k')" "kinv k'"
    using kinv_kill_task [OF assms, of "unat a0"] spawnable_bounds by blast
  then show ?thesis using True by (simp add: sys_kill_def task_index_def)
next
  case False
  then show ?thesis using assms by (auto simp: sys_kill_def task_index_def)
qed

lemma wait_ok:
  assumes "kinv k" "core < MAX_CORES" "k_current k core \<noteq> IDLE"
  shows "\<exists>v fr k'. sys_wait core frame a0 k = Some (v, fr, k') \<and> kinv k'"
proof (cases "unat a0 < NUM_TASKS \<and> is_spawnable (unat a0) \<and> unat a0 \<noteq> k_current k core")
  case True
  show ?thesis
  proof (cases "k_states k (unat a0)")
    case (Zombie st)
    then have "kinv (set_state (unat a0) Unused k)" by (rule kinv_reap [OF assms(1)])
    then show ?thesis using True Zombie by (simp add: sys_wait_def task_index_def try_reap_def set_state_def)
  qed (use True assms block_ok [OF assms] in \<open>auto simp: sys_wait_def task_index_def try_reap_def\<close>)
qed (use assms in \<open>auto simp: sys_wait_def task_index_def\<close>)

lemma msg_call_ok:
  assumes "kinv k" "room k" "core < MAX_CORES" "k_current k core \<noteq> IDLE"
  shows "\<exists>v fr k'. sys_msg_call core frame a0 a1 a2 a3 k = Some (v, fr, k') \<and> kinv k'"
proof (cases "valid_msg_range core a1 a2 k \<and> valid_msg_range core a3 (of_nat MSG_MAX) k \<and> unat a0 < NUM_TASKS \<and>
    is_occupied k (unat a0) \<and> unat a0 \<noteq> k_current k core \<and> may_send k (k_current k core) (unat a0)")
  case True
  let ?me = "k_current k core"
  obtain call k1 where b: "begin_call ?me k = (call, k1)" by (cases "begin_call ?me k")
  have k1: "kinv k1" "k_current k1 = k_current k"
    using kinv_begin_call [OF assms(1), of ?me] assms(2) b by (auto simp: room_def begin_call_def Let_def)
  obtain sent k2 where s: "send_message ?me (unat a0) (user_bytes a1 a2 k) call k1 = (sent, k2)"
    by (cases "send_message ?me (unat a0) (user_bytes a1 a2 k) call k1")
  have k2: "kinv k2" "k_current k2 = k_current k"
    using kinv_send [OF k1(1), of "unat a0" ?me "user_bytes a1 a2 k" call] True s k1(2) send_message_current [of ?me "unat a0" "user_bytes a1 a2 k" call k1]
    by auto
  have "\<exists>v fr k'. block_current_and_switch_to core frame (Wait_Message a3 (of_nat MSG_MAX) (Some (unat a0))) (Some (unat a0)) k2 = Some (v, fr, k') \<and> kinv k'"
    using kinv_block [OF k2(1) assms(3), of "Some (unat a0)" frame "Wait_Message a3 (of_nat MSG_MAX) (Some (unat a0))"] k2(2) assms(4) True
    by (metis option.inject)
  then show ?thesis using True k2(1) by (auto simp: sys_msg_call_def Let_def b s live_index_def task_index_def)
next
  case False
  then show ?thesis using assms(1) by (auto simp: sys_msg_call_def Let_def live_index_def task_index_def)
qed

lemma net_wait_ok:
  assumes "kinv k" "core < MAX_CORES" "k_current k core \<noteq> IDLE"
  shows "\<exists>v fr k'. sys_net_wait core frame a0 k = Some (v, fr, k') \<and> kinv k'"
  using assms block_ok [OF assms] by (simp add: sys_net_wait_def Let_def)

lemma sleep_ok:
  assumes "kinv k" "core < MAX_CORES" "k_current k core \<noteq> IDLE"
  shows "\<exists>v fr k'. sys_sleep_until core frame a0 k = Some (v, fr, k') \<and> kinv k'"
  using assms block_ok [OF assms] by (simp add: sys_sleep_until_def)

lemma yield_ok:
  assumes "kinv k" "core < MAX_CORES"
  shows "\<exists>v fr k'. yield_current_and_switch core frame k = Some (v, fr, k') \<and> kinv k'"
  using kinv_yield [OF assms] by metis

section \<open>The registry\<close>

lemma reg_ok_update_first:
  "reg_ok reg \<Longrightarrow> (\<And>e. e \<in> set reg \<Longrightarrow> P e \<Longrightarrow> en_slot (f e) = en_slot e) \<Longrightarrow> reg_ok (update_first P f reg)"
  by (induction reg) (auto simp: reg_ok_def)

lemma reg_ok_update_entry:
  "reg_ok reg \<Longrightarrow> (\<And>e. en_slot e = Some slot \<Longrightarrow> en_slot (f e) = Some slot) \<Longrightarrow> reg_ok (update_entry slot f reg)"
  unfolding update_entry_def by (rule reg_ok_update_first) auto

lemma reg_ok_progress: "reg_ok reg \<Longrightarrow> reg_ok (note_progress slot reg)"
  by (simp add: note_progress_def reg_ok_update_entry)

lemma reg_ok_ack: "reg_ok reg \<Longrightarrow> reg_ok (note_ack slot reg)"
  by (simp add: note_ack_def reg_ok_progress reg_ok_update_entry)

lemma reg_ok_heartbeat: "reg_ok reg \<Longrightarrow> reg_ok (snd (heartbeat slot b reg))"
  by (auto simp: heartbeat_def Let_def find_server_slot intro!: reg_ok_update_entry split: option.split)

lemma reg_ok_ping:
  assumes "reg_ok reg"
  shows "reg_ok (snd (poll_ping slot b reg))"
proof (cases "find_server slot reg")
  case (Some e)
  then have "en_slot (snd (ping_entry b e)) = Some slot" by (simp add: find_server_slot)
  then show ?thesis using assms Some by (simp add: poll_ping_def reg_ok_update_entry case_prod_beta)
qed (use assms in \<open>simp add: poll_ping_def\<close>)

lemma reg_ok_supervised: "reg_ok reg \<Longrightarrow> is_supervised slot reg \<Longrightarrow> IDLE < slot \<and> slot < FIRST_SPAWNABLE"
  by (auto simp: reg_ok_def is_supervised_def list_ex_iff)

section \<open>Every call returns\<close>

lemma msg_recv_ok:
  assumes "kinv k" "reg_ok reg" "core < MAX_CORES" "k_current k core \<noteq> IDLE"
  shows "\<exists>v fr m'. sys_msg_recv core frame a0 a1 (k, reg) = Some (v, fr, m') \<and> minv m'"
proof (cases "valid_msg_range core a0 a1 k")
  case True
  let ?me = "k_current k core"
  obtain p k1 where r: "try_recv_message ?me a0 a1 k = (p, k1)" by (cases "try_recv_message ?me a0 a1 k")
  have k1: "kinv k1" "k_current k1 = k_current k"
    using kinv_try_recv [OF assms(1) kinv_current(1) [OF assms(1,3)], of a0 a1] r
    by (auto simp: try_recv_message_def Let_def kset_defs split: prod.splits option.splits)
  obtain v fr k2 where "block_current_and_switch core frame (Wait_Message a0 a1 None) k1 = Some (v, fr, k2)" "kinv k2"
    using block_ok [OF k1(1) assms(3)] k1(2) assms(4) by metis
  then show ?thesis
    using True k1(1) reg_ok_progress [OF assms(2)] by (cases p) (auto simp: sys_msg_recv_def Let_def r minv_def)
qed (use assms in \<open>simp add: sys_msg_recv_def minv_def\<close>)

lemma msg_reply_ok: "minv m \<Longrightarrow> minv (snd (sys_msg_reply core a0 a1 a2 m))"
  by (cases m) (auto simp: sys_msg_reply_def Let_def minv_def reg_ok_ack kinv_deliver split: option.split)

lemma machine_arms_ok: "list_all (\<lambda>(n, h). arm_ok h) machine_arms"
proof -
  have "arm_ok (\<lambda>core frame a0 a1 a2 a3 m. sys_msg_recv core frame a0 a1 m)"
    using msg_recv_ok by (auto simp: arm_ok_def minv_def)
  moreover have "arm_ok (\<lambda>core frame a0 a1 a2 a3 m. case sys_msg_reply core a0 a1 a2 m of (v, m1) \<Rightarrow> Some (v, frame, m1))"
    using msg_reply_ok by (simp add: arm_ok_def case_prod_beta)
  ultimately show ?thesis by (simp add: machine_arms_def)
qed

lemma answering_arms_ok: "list_all (\<lambda>(n, h). arm_ok h) answering_arms"
proof -
  have spawn: "kinv (snd (sys_spawn core a0 a1 a2 a3 k))" if "kinv k" "room k" "core < MAX_CORES" for core a0 a1 a2 a3 k
    using that by (intro kinv_spawn) (simp_all add: room_def)
  show ?thesis
    by (simp add: answering_arms_def answers_ok kinv_answers kinv_stage_calls spawn)
qed

lemma switching_arms_ok: "list_all (\<lambda>(n, h). arm_ok h) switching_arms"
  by (simp add: switching_arms_def switches_ok read_char_ok sleep_ok key_wait_until_ok exit_ok yield_ok kill_ok wait_ok msg_call_ok net_wait_ok)

lemma arms_ok:
  assumes "map_of arms number = Some h"
  shows "arm_ok h"
proof -
  have "list_all (\<lambda>(n, h). arm_ok h) arms"
    using machine_arms_ok answering_arms_ok switching_arms_ok by (simp add: arms_def reading_arms_def)
  then show ?thesis using map_of_SomeD [OF assms] by (auto simp: list_all_iff)
qed

lemma dispatch_ok:
  assumes "minv m" "room (fst m)" "core < MAX_CORES" "k_current (fst m) core \<noteq> IDLE"
  shows "\<exists>v fr m'. dispatch number core frame a0 a1 a2 a3 m = Some (v, fr, m') \<and> minv m'"
proof -
  obtain k reg where m: "m = (k, reg)" by (cases m)
  have k: "kinv k" "reg_ok reg" using assms(1) by (simp_all add: m minv_def)
  obtain b fr k1 where e: "end_if_doomed core frame k = Some (b, fr, k1)" "kinv k1" "k_next_gen k1 = k_next_gen k"
      "k_next_call k1 = k_next_call k" "b \<or> k_current k1 = k_current k \<and> fr = frame"
    by (rule kinv_end_if_doomed [OF k(1) assms(3)])
  show ?thesis
  proof (cases b)
    case True
    then show ?thesis using e k by (simp add: dispatch_def m minv_def)
  next
    case False
    have i: "minv (k1, reg) \<and> room (fst (k1, reg)) \<and> core < MAX_CORES \<and> k_current (fst (k1, reg)) core \<noteq> IDLE"
      using False e k assms(2-4) by (simp add: minv_def room_def m)
    have "\<exists>v fr' m'. dispatch_locked number core fr a0 a1 a2 a3 (k1, reg) = Some (v, fr', m') \<and> minv m'"
    proof (cases "map_of arms number")
      case None
      then show ?thesis using i by (simp add: dispatch_locked_def)
    next
      case (Some h)
      have "\<exists>v fr' m'. h core fr a0 a1 a2 a3 (k1, reg) = Some (v, fr', m') \<and> minv m'"
        using arms_ok [OF Some, unfolded arm_ok_def, rule_format, OF i] .
      then show ?thesis by (simp add: dispatch_locked_def Some)
    qed
    then show ?thesis using False e(1) by (simp add: dispatch_def m)
  qed
qed

end
