(* ===== verification/Kernel_Steps.thy ===== *)
theory Kernel_Steps
  imports Kernel_Call_Inv
begin

text \<open>
  The kernel as a whole: every entry (a system call, an interrupt, a fault) of any core, from any state
  that keeps the invariant, returns to some task and keeps it; and so does every run of them.
\<close>

unbundle bit_operations_syntax

section \<open>The tick keeps the invariant\<close>

lemma poll_kinv:
  assumes "kinv k" "w < NUM_TASKS"
  shows "kinv (snd (poll r w k))"
proof (cases r)
  case Wait_Keyboard
  then show ?thesis using kinv_keyboard(1) [OF assms(1), of w] by (simp add: poll_def case_prod_beta)
next
  case (Wait_TaskExit t)
  then show ?thesis using assms(1) kinv_keyboard(4) [OF assms(1), of w] kinv_reap [OF assms(1), of t]
    by (auto simp: poll_def split: task_state.split prod.split bool.split)
next
  case (Wait_Message b n f)
  obtain g k1 where g: "(if f = None then try_recv_message w b n k else (None, k)) = (g, k1)"
    by (cases "if f = None then try_recv_message w b n k else (None, k)")
  have k1: "kinv k1" using g kinv_try_recv [OF assms, of b n] assms(1) by (auto split: if_splits)
  then show ?thesis using kinv_keyboard(4) [OF k1, of w]
    by (auto simp: poll_def Wait_Message g split: prod.split bool.split option.split)
qed (use assms kinv_keyboard(2) [OF assms(1), of w] in \<open>simp_all add: poll_def\<close>)

lemma poll_states:
  assumes "kinv k" "k_states k w = Blocked r" "w < NUM_TASKS"
  shows "k_states (snd (poll r w k)) w = Blocked r" "k_current (snd (poll r w k)) = k_current k"
    "k_next_gen (snd (poll r w k)) = k_next_gen k" "k_boot_core (snd (poll r w k)) = k_boot_core k"
proof -
  have read: "k_states k1 = k_states k0 \<and> k_current k1 = k_current k0 \<and> k_next_gen k1 = k_next_gen k0 \<and> k_boot_core k1 = k_boot_core k0"
    if "kinv k0" "k1 = snd (poll_keyboard_byte w k0) \<or> k1 = snd (key_wait_answer w us k0) \<or> k1 = snd (keyboard_interrupts_wait w k0)" for k0 k1 us
  proof -
    have "reads_only k0 k1"
      using that(2) poll_keyboard_ok [OF kinv_kbd [OF that(1)], of w] key_wait_answer_ok [OF kinv_kbd [OF that(1)], of w us]
        read_ahead_ok [OF kinv_kbd [OF that(1)], of w] by (auto simp: keyboard_interrupts_wait_def)
    then show ?thesis by (simp add: reads_only_fields)
  qed
  have recv: "k_states (snd (try_recv_message w b n k)) = k_states k \<and> k_current (snd (try_recv_message w b n k)) = k_current k \<and>
      k_next_gen (snd (try_recv_message w b n k)) = k_next_gen k \<and> k_boot_core (snd (try_recv_message w b n k)) = k_boot_core k" for b n
    by (auto simp: try_recv_message_def Let_def kset_defs split: prod.split option.split)
  have "k_states (snd (poll r w k)) w = Blocked r \<and> k_current (snd (poll r w k)) = k_current k \<and>
    k_next_gen (snd (poll r w k)) = k_next_gen k \<and> k_boot_core (snd (poll r w k)) = k_boot_core k"
  proof (cases r)
    case (Wait_Message b n f)
    obtain g k1 where g: "(if f = None then try_recv_message w b n k else (None, k)) = (g, k1)"
      by (cases "if f = None then try_recv_message w b n k else (None, k)")
    have k1: "kinv k1" "k_states k1 = k_states k" "k_current k1 = k_current k" "k_next_gen k1 = k_next_gen k" "k_boot_core k1 = k_boot_core k"
      using g kinv_try_recv [OF assms(1,3), of b n] recv [of b n] assms(1) by (auto split: if_splits)
    obtain i k2 where i: "keyboard_interrupts_wait w k1 = (i, k2)" by (cases "keyboard_interrupts_wait w k1")
    have "k_states k2 = k_states k \<and> k_current k2 = k_current k \<and> k_next_gen k2 = k_next_gen k \<and> k_boot_core k2 = k_boot_core k"
      using read [OF k1(1), of k2 0] i k1(2-5) by simp
    then show ?thesis using k1(2-5) assms(2)
      by (simp add: poll_def Wait_Message g i end_call_def split: bool.split option.split)
  next
    case (Wait_TaskExit t)
    obtain i k2 where i: "keyboard_interrupts_wait w k = (i, k2)" by (cases "keyboard_interrupts_wait w k")
    then have "k_states k2 = k_states k \<and> k_current k2 = k_current k \<and> k_next_gen k2 = k_next_gen k \<and> k_boot_core k2 = k_boot_core k"
      using read [OF assms(1), of k2 0] by simp
    moreover have "w \<noteq> t" if "k_states k t = Zombie z" for z using that assms(2) by auto
    ultimately show ?thesis using assms(2)
      by (cases "k_states k t"; cases i) (simp_all add: poll_def Wait_TaskExit set_state_def i)
  next
    case Wait_Keyboard
    then show ?thesis using read [OF assms(1), of "snd (poll_keyboard_byte w k)" 0] assms(2) by (simp add: poll_def case_prod_beta)
  next
    case (Wait_Key us)
    then show ?thesis using read [OF assms(1), of "snd (key_wait_answer w us k)" us] assms(2) by (simp add: poll_def)
  qed (use assms(2) in \<open>simp_all add: poll_def\<close>)
  then show "k_states (snd (poll r w k)) w = Blocked r" "k_current (snd (poll r w k)) = k_current k"
    "k_next_gen (snd (poll r w k)) = k_next_gen k" "k_boot_core (snd (poll r w k)) = k_boot_core k" by blast+
qed

lemma wake_check_ok:
  assumes "kinv k" "i < NUM_TASKS"
  shows "kinv (wake_check i k) \<and> k_current (wake_check i k) = k_current k \<and> k_next_gen (wake_check i k) = k_next_gen k \<and>
    k_boot_core (wake_check i k) = k_boot_core k"
proof (cases "k_states k i")
  case (Blocked r)
  obtain v k1 where p: "poll r i k = (v, k1)" by (cases "poll r i k")
  have k1: "kinv k1" "k_states k1 i = Blocked r" "k_current k1 = k_current k" "k_next_gen k1 = k_next_gen k" "k_boot_core k1 = k_boot_core k"
    using poll_kinv [OF assms, of r] poll_states [OF assms(1) Blocked assms(2)] p by auto
  have "kinv (set_state i Runnable (set_x0 i x k1))" for x
    by (rule kinv_wake [where r = r]) (use k1 in \<open>simp_all add: set_x0_def\<close>)
  then show ?thesis using k1 by (cases v) (auto simp: wake_check_def Blocked p set_state_def set_x0_def)
qed (use assms in \<open>simp_all add: wake_check_def\<close>)

lemma wake_checks_ok:
  assumes "kinv k"
  shows "kinv (wake_checks k) \<and> k_current (wake_checks k) = k_current k \<and> k_next_gen (wake_checks k) = k_next_gen k \<and>
    k_boot_core (wake_checks k) = k_boot_core k"
proof -
  have "kinv (fold wake_check xs k) \<and> k_current (fold wake_check xs k) = k_current k \<and> k_next_gen (fold wake_check xs k) = k_next_gen k \<and>
    k_boot_core (fold wake_check xs k) = k_boot_core k" if "set xs \<subseteq> {..<NUM_TASKS}" for xs
    using that assms
  proof (induction xs arbitrary: k)
    case (Cons x xs)
    then show ?case using wake_check_ok [of k x] by simp
  qed simp
  then show ?thesis by (simp add: wake_checks_def atLeast0LessThan)
qed

lemma owner_reads_ahead_ok:
  assumes "kinv k"
  shows "kinv (owner_reads_ahead k) \<and> k_current (owner_reads_ahead k) = k_current k \<and>
    k_next_gen (owner_reads_ahead k) = k_next_gen k \<and> k_boot_core (owner_reads_ahead k) = k_boot_core k"
proof -
  have "reads_only k (snd (read_keyboard_ahead r k))" for r using read_ahead_ok [OF kinv_kbd [OF assms]] by blast
  then show ?thesis using assms kinv_keyboard(3) [OF assms] by (simp add: owner_reads_ahead_def reads_only_fields)
qed

text \<open>The pending kill ends a program, here or on its own core.\<close>

lemma honor_kill_ok:
  assumes "kinv k" "core < MAX_CORES"
  shows "\<exists>b fr k'. honor_kill core frame k = Some (b, fr, k') \<and> kinv k' \<and> k_next_gen k' = k_next_gen k \<and>
    (b \<or> k_current k' = k_current k \<and> k_boot_core k' = k_boot_core k)"
proof -
  let ?k = "k\<lparr>k_pending_kill := 0\<rparr>"
  have k: "kinv ?k" using assms(1) by simp
  show ?thesis
  proof (cases "\<exists>v. live_occupant ?k (k_pending_kill k AND NOT PENDING_KILL_BY_QUIT) = Some v \<and> is_spawnable v")
    case True
    then obtain v where v: "live_occupant ?k (k_pending_kill k AND NOT PENDING_KILL_BY_QUIT) = Some v" "is_spawnable v" by blast
    have o: "v < NUM_TASKS" "is_occupied ?k v" "v \<noteq> FIRST" "v \<noteq> IDLE"
      using v spawnable_bounds by (auto simp: live_occupant_iff)
    show ?thesis
    proof (cases "v = k_current k core")
      case True
      then have c: "k_current ?k core \<noteq> FIRST" "k_current ?k core \<noteq> IDLE" using o(3,4) by simp_all
      obtain fr k' where "kill_current_and_switch core ?k = Some (fr, k')" "kinv k'" "k_next_gen k' = k_next_gen ?k"
        by (rule kinv_kill_current [OF k assms(2) c])
      then have "honor_kill core frame k = Some (True, fr, k') \<and> kinv k' \<and> k_next_gen k' = k_next_gen k"
        using v True by (simp add: honor_kill_def)
      then show ?thesis by blast
    next
      case False
      then have c: "v \<noteq> k_current ?k core" by simp
      obtain e k' where e: "kill_task core v ?k = Some (e, k')" "kinv k'" "k_next_gen k' = k_next_gen ?k"
        by (rule kinv_kill_task [OF k assms(2) o(1,3,4,2) c])
      have "k_current k' = k_current k \<and> k_boot_core k' = k_boot_core k"
        using e(1) by (auto simp: kill_task_def end_task_fields split: if_splits option.splits)
      then have "honor_kill core frame k = Some (False, frame, k') \<and> kinv k' \<and> k_next_gen k' = k_next_gen k \<and>
          k_current k' = k_current k \<and> k_boot_core k' = k_boot_core k"
        using v False e by (simp add: honor_kill_def)
      then show ?thesis by blast
    qed
  next
    case False
    then show ?thesis using k by (auto simp: honor_kill_def Let_def split: option.split)
  qed
qed

lemma reload_ok:
  assumes "kinv k" "slot < NUM_TASKS" "k_states k slot = Unused" "unat (k_next_gen k) + 1 < 2 ^ 55"
  shows "kinv (reload slot img k) \<and> unat (k_next_gen (reload slot img k)) \<le> unat (k_next_gen k) + 1 \<and>
    k_current (reload slot img k) = k_current k \<and> k_boot_core (reload slot img k) = k_boot_core k"
proof (cases "elf_region_size img")
  case (Inl e)
  then show ?thesis using assms(1) by (simp add: reload_def)
next
  case (Inr x)
  obtain h phs sz where x: "x = (h, phs, sz)" by (cases x)
  obtain base k1 where a: "allocate_runtime_region sz k = (base, k1)" by (cases "allocate_runtime_region sz k")
  have k1: "kinv k1" using kinv_allocate [of sz k] a assms(1) by simp
  have f1: "k_next_gen k1 = k_next_gen k" "k_current k1 = k_current k" "k_boot_core k1 = k_boot_core k" "k_states k1 = k_states k"
    using a by (auto simp: allocate_runtime_region_def Let_def)
  obtain r m where p: "populate_region img h phs base sz (k_mem k1) = (r, m)" by (cases "populate_region img h phs base sz (k_mem k1)")
  show ?thesis
  proof (cases r)
    case (Inl e)
    then show ?thesis using k1 f1 by (simp add: reload_def Inr x a p)
  next
    case ok: (Inr loaded)
    let ?k = "k1\<lparr>k_mem := m\<rparr>"
    let ?i = "install_task slot (initial_context loaded) (lp_region loaded) ?k"
    have g: "unat (k_next_gen k + 1) = unat (k_next_gen k) + 1" using assms(4) by (simp add: unat_word_ariths)
    have st: "length (k_argv k1 slot) \<le> ARGV_MAX" "length (k_env k1 slot) \<le> ENV_MAX" "length (k_cwd k1 slot) \<le> CWD_MAX" "length (k_ns k1 slot) \<le> NS_MAX"
      using k1 assms(2) by (auto simp: kinv_def stores_ok_def)
    note d = install_task_def Let_def set_state_def issue_generation_def clear_previous_owner_def clear_parent_def clear_delegations_of_def
      set_name_def
    have nm: "length (k_argv (set_name slot n ?i) slot) \<le> ARGV_MAX" for n
      by (simp add: set_name_def Let_def le_bytes4_def ARGV_CAP_def ARGV_MAX_def)
    have i: "kinv ?i"
      by (rule kinv_birth [of ?k slot]) (use k1 assms(2-4) f1 st in \<open>simp_all add: d\<close>)
    have n: "kinv (set_name slot n ?i)" for n
      by (rule kinv_birth [of ?k slot]) (use k1 assms(2-4) f1 st nm [of n] in \<open>simp_all add: d\<close>)
    have "k_next_gen ?i = k_next_gen k + 1" "k_current ?i = k_current k" "k_boot_core ?i = k_boot_core k" by (simp_all add: d f1)
    then show ?thesis
      using i n ok g by (simp add: reload_def Inr x a p Let_def set_name_def split: option.split)
  qed
qed

lemma restart_ok:
  assumes "kinv k" "reg_ok reg" "slot < NUM_TASKS" "k_states k slot = Unused" "unat (k_next_gen k) + 1 < 2 ^ 55"
  shows "minv (restart slot (k, reg)) \<and> unat (k_next_gen (fst (restart slot (k, reg)))) \<le> unat (k_next_gen k) + 1 \<and>
    k_current (fst (restart slot (k, reg))) = k_current k \<and> k_boot_core (fst (restart slot (k, reg))) = k_boot_core k"
proof (cases "find_server slot reg")
  case None
  then show ?thesis using assms by (simp add: restart_def minv_def)
next
  case (Some e)
  have "reg_ok (update_entry slot (\<lambda>_. e\<lparr>en_restarts := n\<rparr>) reg)" "reg_ok (update_entry slot (\<lambda>_. reset_liveness (e\<lparr>en_restarts := n\<rparr>)) reg)" for n
    using find_server_slot [OF Some] by (auto intro!: reg_ok_update_entry [OF assms(2)] simp: reset_liveness_def)
  then show ?thesis
    using Some assms(1,2) reload_ok [OF assms(1,3-5)] by (simp add: restart_def Let_def minv_def)
qed

text \<open>A server is found on no core but the boot core, so one that is not current there ends at once.\<close>

lemma server_teardown:
  assumes "kinv k" "core < MAX_CORES" "is_boot k core" "IDLE < slot" "slot < FIRST_SPAWNABLE" "slot \<noteq> k_current k core"
  obtains k' where "kill_task core slot k = Some (Ended_Now, k')" "kinv k'" "k_next_gen k' = k_next_gen k" "k_states k' slot = Unused"
    "k_current k' = k_current k" "k_boot_core k' = k_boot_core k"
proof -
  have s: "slot < NUM_TASKS" "slot \<noteq> FIRST" "slot \<noteq> IDLE" "\<not> is_spawnable slot"
    using assms(4,5) by (simp_all add: NUM_TASKS_def FIRST_SPAWNABLE_def IDLE_def FIRST_def is_spawnable_def)
  have "k_current k c \<noteq> slot" if "c < MAX_CORES" for c
    using assms(1,3,6) that s(3,4) by (cases "is_boot k c") (auto simp: kinv_def pinned_def is_boot_def)
  then have r: "running_core k slot = None" "\<And>c. c < MAX_CORES \<Longrightarrow> k_current k c \<noteq> slot" by (auto simp: running_core_iff(1))
  have "kinv (end_task slot Unused k)"
  proof (cases "is_occupied k slot")
    case True
    then show ?thesis using assms(1) s r(2) by (intro kinv_end) auto
  next
    case False
    then have "k_states k slot = Unused"
      using assms(1,5) by (auto simp: is_occupied_def kinv_def pinned_def split: task_state.splits)
    then show ?thesis by (rule kinv_end_empty [OF assms(1) s(1)])
  qed
  then show thesis
    using that [of "end_task slot Unused k"] r(1) assms(6) by (simp add: kill_task_def end_task_fields)
qed

lemma supervise_ok:
  assumes "minv m" "core < MAX_CORES" "is_boot (fst m) core" "unat (k_next_gen (fst m)) + 1 < 2 ^ 55"
  shows "\<exists>b fr m'. supervise core slot frame m = Some (b, fr, m') \<and> minv m' \<and> unat (k_next_gen (fst m')) \<le> unat (k_next_gen (fst m)) + 1 \<and>
    (b \<or> k_current (fst m') = k_current (fst m) \<and> k_boot_core (fst m') = k_boot_core (fst m))"
proof (cases "is_supervised slot (snd m)")
  case False
  then show ?thesis using assms(1) by (auto simp: supervise_def case_prod_beta)
next
  case True
  obtain k reg where m: "m = (k, reg)" by (cases m)
  have k: "kinv k" "reg_ok reg" using assms(1) by (simp_all add: m minv_def)
  have s: "IDLE < slot" "slot < FIRST_SPAWNABLE" using reg_ok_supervised [OF k(2)] True by (auto simp: m)
  then have n: "slot < NUM_TASKS" "slot \<noteq> FIRST" "slot \<noteq> IDLE" by (simp_all add: NUM_TASKS_def FIRST_SPAWNABLE_def IDLE_def FIRST_def)
  obtain w r1 where h: "heartbeat slot (is_blocked k slot) reg = (w, r1)" by (cases "heartbeat slot (is_blocked k slot) reg")
  obtain a r2 where p: "poll_ping slot (is_blocked k slot) r1 = (a, r2)" by (cases "poll_ping slot (is_blocked k slot) r1")
  have r2: "reg_ok r2" using reg_ok_ping [OF reg_ok_heartbeat [OF k(2), of slot "is_blocked k slot"], of slot "is_blocked k slot"] h p by simp
  define k1 where "k1 = (if a = Ping_Inject then snd (send_message KERNEL_SENDER slot ping_message (of_nat KERNEL_SENDER) k) else k)"
  have k1: "kinv k1" "k_current k1 = k_current k" "k_next_gen k1 = k_next_gen k" "k_boot_core k1 = k_boot_core k"
    using kinv_send [OF k(1) n(1)] k(1) by (auto simp: k1_def send_message_current)
  have e: "supervise core slot frame m =
      (if w \<or> a = Ping_Wedged then
         (if slot = k_current k core then
            (case kill_current_and_switch core k1 of None \<Rightarrow> None | Some (fr, k2) \<Rightarrow> Some (True, fr, restart slot (k2, r2)))
          else (case kill_task core slot k1 of Some (Ended_Now, k2) \<Rightarrow> Some (False, frame, restart slot (k2, r2)) | _ \<Rightarrow> None))
       else Some (False, frame, k1, r2))"
    using True by (simp add: supervise_def m h p k1_def Let_def)
  show ?thesis
  proof (cases "w \<or> a = Ping_Wedged")
    case False
    then show ?thesis using e k1 r2 by (auto simp: m minv_def)
  next
    case wedged: True
    show ?thesis
    proof (cases "slot = k_current k core")
      case True
      have c: "k_current k1 core \<noteq> FIRST" "k_current k1 core \<noteq> IDLE" using True n k1(2) by simp_all
      obtain fr k2 where k2: "kill_current_and_switch core k1 = Some (fr, k2)" "kinv k2" "k_next_gen k2 = k_next_gen k1" "k_states k2 (k_current k1 core) = Unused"
        by (rule kinv_kill_current [OF k1(1) assms(2) c])
      have "minv (restart slot (k2, r2)) \<and> unat (k_next_gen (fst (restart slot (k2, r2)))) \<le> unat (k_next_gen k) + 1"
        using restart_ok [OF k2(2) r2 n(1)] k2(3,4) k1 True assms(4) by (simp add: m)
      then show ?thesis using e wedged True k2(1) by (simp add: m) blast
    next
      case False
      have b: "is_boot k1 core" "slot \<noteq> k_current k1 core" using assms(3) False k1 by (simp_all add: m is_boot_def)
      obtain k2 where k2: "kill_task core slot k1 = Some (Ended_Now, k2)" "kinv k2" "k_next_gen k2 = k_next_gen k1" "k_states k2 slot = Unused"
          "k_current k2 = k_current k1" "k_boot_core k2 = k_boot_core k1"
        by (rule server_teardown [OF k1(1) assms(2) b(1) s b(2)])
      have "minv (restart slot (k2, r2)) \<and> unat (k_next_gen (fst (restart slot (k2, r2)))) \<le> unat (k_next_gen k) + 1 \<and>
          k_current (fst (restart slot (k2, r2))) = k_current k \<and> k_boot_core (fst (restart slot (k2, r2))) = k_boot_core k"
        using restart_ok [OF k2(2) r2 n(1) k2(4)] k2(3,5,6) k1 assms(4) by (simp add: m)
      then show ?thesis using e wedged False k2(1) by (simp add: m) blast
    qed
  qed
qed

text \<open>A pass over the slots installs at most one task for every server.\<close>

lemma supervise_all_ok:
  assumes "minv m" "core < MAX_CORES" "is_boot (fst m) core"
    "unat (k_next_gen (fst m)) + length (filter (\<lambda>s. s < FIRST_SPAWNABLE) slots) < 2 ^ 55"
  shows "\<exists>b fr m'. supervise_all core slots frame m = Some (b, fr, m') \<and> minv m' \<and>
    (b \<or> k_current (fst m') = k_current (fst m) \<and> k_boot_core (fst m') = k_boot_core (fst m))"
  using assms
proof (induction slots arbitrary: frame m)
  case (Cons s slots)
  show ?case
  proof (cases "is_supervised s (snd m)")
    case False
    then have "supervise core s frame m = Some (False, frame, m)" by (simp add: supervise_def case_prod_beta)
    then show ?thesis using Cons.IH [of m frame] Cons.prems by (auto split: if_splits)
  next
    case True
    then have f: "s < FIRST_SPAWNABLE" using reg_ok_supervised [of "snd m" s] Cons.prems(1) by (auto simp: minv_def)
    then have g: "unat (k_next_gen (fst m)) + 1 < 2 ^ 55" using Cons.prems(4) by simp
    obtain b fr m1 where m1: "supervise core s frame m = Some (b, fr, m1)" "minv m1" "unat (k_next_gen (fst m1)) \<le> unat (k_next_gen (fst m)) + 1"
        "b \<or> k_current (fst m1) = k_current (fst m) \<and> k_boot_core (fst m1) = k_boot_core (fst m)"
      using supervise_ok [OF Cons.prems(1-3) g, of s frame] by blast
    show ?thesis
    proof (cases b)
      case True
      then show ?thesis using m1 by auto
    next
      case False
      then show ?thesis using m1 Cons.IH [of m1 fr] Cons.prems(2-4) f by (simp add: is_boot_def)
    qed
  qed
qed auto

lemma round_robin_ok:
  assumes "kinv k" "core < MAX_CORES"
  obtains fr' k' where "round_robin core (k_current k core) frame k = Some (fr', k')" "kinv k'"
  using kinv_secondary_tick [OF assms, of frame] by (auto simp: round_robin_def on_secondary_tick_def Let_def)

lemma on_tick_ok:
  assumes "minv m" "core < MAX_CORES" "is_boot (fst m) core" "room (fst m)"
  shows "\<exists>fr m'. on_tick core frame m = Some (fr, m') \<and> minv m'"
proof -
  obtain k reg where m: "m = (k, reg)" by (cases m)
  let ?k = "owner_reads_ahead (wake_checks k)"
  have k: "kinv k" "reg_ok reg" using assms(1) by (simp_all add: m minv_def)
  have q: "kinv ?k" "k_current ?k = k_current k" "k_next_gen ?k = k_next_gen k" "k_boot_core ?k = k_boot_core k"
    using wake_checks_ok [OF k(1)] owner_reads_ahead_ok [of "wake_checks k"] by simp_all
  obtain b fr k1 where h: "honor_kill core frame ?k = Some (b, fr, k1)" "kinv k1" "k_next_gen k1 = k_next_gen k"
      "b \<or> k_current k1 = k_current k \<and> k_boot_core k1 = k_boot_core k"
    using honor_kill_ok [OF q(1) assms(2), of frame] q by auto
  show ?thesis
  proof (cases b)
    case True
    then show ?thesis using h k by (simp add: on_tick_def m Let_def minv_def)
  next
    case False
    have "unat (k_next_gen k1) + length (filter (\<lambda>s. s < FIRST_SPAWNABLE) [0..<NUM_TASKS]) < 2 ^ 55"
      using assms(4) h(3) by (simp add: m room_def FIRST_SPAWNABLE_def NUM_TASKS_def upt_rec)
    then obtain b2 fr2 m2 where s: "supervise_all core [0..<NUM_TASKS] fr (k1, reg) = Some (b2, fr2, m2)" "minv m2"
        "b2 \<or> k_current (fst m2) = k_current k1 \<and> k_boot_core (fst m2) = k_boot_core k1"
      using supervise_all_ok [of "(k1, reg)" core "[0..<NUM_TASKS]" fr] h False k assms(2,3) by (auto simp: minv_def m is_boot_def)
    obtain k2 reg2 where m2: "m2 = (k2, reg2)" by (cases m2)
    have k2: "kinv k2" "reg_ok reg2" using s(2) by (simp_all add: m2 minv_def)
    show ?thesis
    proof (cases b2)
      case True
      then show ?thesis using h False s by (simp add: on_tick_def m Let_def)
    next
      case b2: False
      obtain fr3 k3 where r: "round_robin core (k_current k2 core) fr2 k2 = Some (fr3, k3)" "kinv k3"
        by (rule round_robin_ok [OF k2(1) assms(2)])
      have "k_current k2 core = k_current k core" using s(3) b2 h(4) False by (simp add: m2)
      then show ?thesis using h(1) False s(1) b2 r k2(2) by (simp add: on_tick_def m m2 Let_def minv_def)
    qed
  qed
qed

section \<open>Interrupts and faults keep the invariant\<close>

text \<open>The boot core may take a task that was just woken: it was current on no core.\<close>

lemma kinv_take:
  assumes "kinv k" "core < MAX_CORES" "is_boot k core" "k_states k t = Runnable" "t < NUM_TASKS"
    "\<And>c. c < MAX_CORES \<Longrightarrow> k_current k c \<noteq> t"
  shows "kinv (set_current core t k)"
proof -
  have "cores_ok (set_current core t k)"
    using assms by (auto simp: kinv_defs cores_ok_def set_current_def)
  moreover have "input_ok (set_current core t k) = input_ok k" by (simp add: set_current_def)
  ultimately show ?thesis
    using assms(1,3) by (auto simp: kinv_defs kbd_ok_def calls_ok_def mail_ok_def stores_ok_def pinned_def is_boot_def is_occupied_def set_current_def)
qed

lemma net_irq_ok:
  assumes "kinv k" "core < MAX_CORES" "is_boot k core"
  shows "kinv (snd (on_net_irq core frame k))"
proof (cases "net_waiter [0..<NUM_TASKS] k")
  case None
  then show ?thesis using assms(1) by (simp add: on_net_irq_def)
next
  case (Some i)
  let ?k = "set_state i Runnable (set_x0 i 0 k)"
  obtain d where i: "i < NUM_TASKS" "k_states k i = Blocked (Wait_NetInput d)" using net_waiter_blocked [OF Some] by auto
  then have n: "k_current k c \<noteq> i" if "c < MAX_CORES" for c using kinv_current(2) [OF assms(1) that] by auto
  have k: "kinv ?k" by (rule kinv_wake) (use assms(1) i in \<open>simp_all add: set_x0_def\<close>)
  have "kinv (snd (switch_to core i (save_frame j frame ?k)))" for j
  proof -
    have "kinv (save_frame j frame ?k)" using k by (simp add: save_frame_def)
    then show ?thesis unfolding switch_to_def snd_conv
      by (rule kinv_take) (use assms(2,3) i n in \<open>simp_all add: save_frame_def set_state_def set_x0_def is_boot_def\<close>)
  qed
  then show ?thesis using k n [OF assms(2)] by (simp add: on_net_irq_def Some Let_def)
qed

lemma irq_ok:
  assumes "minv m" "core < MAX_CORES" "room (fst m)"
  shows "\<exists>fr m'. rust_irq_handler core net_intid intid reasons frame m = Some (fr, m') \<and> minv m'"
proof -
  obtain k reg where m: "m = (k, reg)" by (cases m)
  have k: "kinv k" "reg_ok reg" using assms(1) by (simp_all add: m minv_def)
  obtain b fr k1 where e: "end_if_doomed core frame k = Some (b, fr, k1)" "kinv k1" "k_next_gen k1 = k_next_gen k"
      "k_next_call k1 = k_next_call k" by (rule kinv_end_if_doomed [OF k(1) assms(2)])
  let ?t = "k1\<lparr>k_ticks := k_ticks k1 + 1\<rparr>"
  have t: "minv (?t, reg)" "room (fst (?t, reg))" using e k assms(3) by (simp_all add: minv_def room_def m)
  have r: "\<exists>fr' k'. on_secondary_tick core fr k1 = Some (fr', k') \<and> kinv k'" by (rule kinv_secondary_tick [OF e(2) assms(2)]) blast
  have s: "\<exists>fr' k'. reschedule_if_idle core fr k1 = Some (fr', k') \<and> kinv k'" by (rule kinv_reschedule [OF e(2) assms(2)]) blast
  have o: "is_boot k1 core \<Longrightarrow> \<exists>fr' m'. on_tick core fr (?t, reg) = Some (fr', m') \<and> minv m'"
    using on_tick_ok [OF t(1) assms(2) _ t(2)] by (simp add: is_boot_def)
  have "\<exists>fr' m'. irq_locked core net_intid intid reasons fr (k1, reg) = Some (fr', m') \<and> minv m'"
    using r s o net_irq_ok [OF e(2) assms(2), of fr] k(2) e(2)
    by (auto simp: irq_locked_def on_kick_def minv_def case_prod_beta)
  then show ?thesis using e(1) by (simp add: rust_irq_handler_def m)
qed

lemma fault_ok:
  assumes "minv m" "core < MAX_CORES" "room (fst m)" "\<not> is_boot_or_idle (k_current (fst m) core)"
  shows "\<exists>fr m'. rust_el0_fault_handler core frame m = Some (fr, m') \<and> minv m'"
proof -
  obtain k reg where m: "m = (k, reg)" by (cases m)
  have k: "kinv k" "reg_ok reg" using assms(1) by (simp_all add: m minv_def)
  obtain b fr k1 where e: "end_if_doomed core frame k = Some (b, fr, k1)" "kinv k1" "k_next_gen k1 = k_next_gen k"
      "k_next_call k1 = k_next_call k" "b \<or> k_current k1 = k_current k \<and> fr = frame" by (rule kinv_end_if_doomed [OF k(1) assms(2)])
  show ?thesis
  proof (cases b)
    case True
    then show ?thesis using e k by (simp add: rust_el0_fault_handler_def m minv_def)
  next
    case False
    let ?s = "k_current k1 core"
    have c: "?s \<noteq> FIRST" "?s \<noteq> IDLE" using assms(4) e(5) False by (auto simp: m is_boot_or_idle_def)
    have l: "?s < NUM_TASKS" by (rule kinv_current(1) [OF e(2) assms(2)])
    obtain fr2 k2 where k2: "kill_current_and_switch core k1 = Some (fr2, k2)" "kinv k2" "k_next_gen k2 = k_next_gen k1" "k_states k2 ?s = Unused"
      by (rule kinv_kill_current [OF e(2) assms(2) c])
    have "minv (restart ?s (k2, reg))"
      using restart_ok [OF k2(2) k(2) l k2(4)] k2(3) e(3) assms(3) by (simp add: m room_def)
    then show ?thesis using e(1,5) False k2(1,2) k(2) assms(4)
      by (simp add: rust_el0_fault_handler_def el0_fault_locked_def m Let_def minv_def)
  qed
qed

end
