(* ===== verification/Kernel_Run.thy ===== *)
theory Kernel_Run
  imports Kernel_Steps
begin

text \<open>
  Runs of the kernel, from the boot on: the tables \<open>tasks::init\<close> leaves satisfy the invariant, every
  entry of every core keeps it and returns to some task, and so the machine never halts in the
  kernel and never loses what the invariant says.
\<close>

section \<open>The boot\<close>

lemma issue_all_frame: "\<exists>n g. fold issue_if_used ts k = k\<lparr>k_next_gen := n, k_gens := g\<rparr>"
proof (induction ts arbitrary: k)
  case Nil
  show ?case by (rule exI [of _ "k_next_gen k"], rule exI [of _ "k_gens k"]) simp
next
  case (Cons t ts)
  have t: "issue_if_used t k = k\<lparr>k_next_gen := k_next_gen (issue_if_used t k), k_gens := k_gens (issue_if_used t k)\<rparr>"
    by (simp add: issue_if_used_def issue_generation_def)
  obtain n g where "fold issue_if_used (t # ts) k = (issue_if_used t k)\<lparr>k_next_gen := n, k_gens := g\<rparr>" using Cons by fastforce
  also have "\<dots> = k\<lparr>k_next_gen := n, k_gens := g\<rparr>" by (subst t) simp
  finally show ?case by blast
qed

text \<open>The generations given out are numbered from where the counter stood.\<close>

lemma issue_all_gens:
  assumes "k_next_gen k = 1" "k_gens k = (\<lambda>_. 0)" "length ts < 256"
  shows "0 < unat (k_next_gen (fold issue_if_used ts k)) \<and> unat (k_next_gen (fold issue_if_used ts k)) \<le> length ts + 1 \<and>
    (\<forall>t. unat (k_gens (fold issue_if_used ts k) t) < unat (k_next_gen (fold issue_if_used ts k)) \<and>
       (t \<in> set ts \<and> k_states k t \<noteq> Unused \<longrightarrow> k_gens (fold issue_if_used ts k) t \<noteq> 0))"
  using assms(3)
proof (induction ts rule: rev_induct)
  case Nil
  then show ?case by (simp add: assms)
next
  case (snoc x xs)
  define j where "j = fold issue_if_used xs k"
  have st: "k_states j = k_states k" using issue_all_frame [of xs k] by (auto simp: j_def)
  note ih = snoc [folded j_def]
  have n: "unat (k_next_gen j + 1) = unat (k_next_gen j) + 1" using ih by (simp add: unat_word_ariths)
  have z: "k_next_gen j \<noteq> 0" using ih by auto
  have f: "fold issue_if_used (xs @ [x]) k = issue_if_used x j" by (simp add: j_def)
  show ?case unfolding f using ih n z st
    by (cases "k_states k x = Unused") (auto simp: issue_if_used_def issue_generation_def less_Suc_eq)
qed

definition boot_kernel :: "loaded_program \<Rightarrow> loaded_program option \<Rightarrow> loaded_program option \<Rightarrow>
    loaded_program option \<Rightarrow> loaded_program option \<Rightarrow> u64 \<Rightarrow> u64 \<Rightarrow> kernel" where
  "boot_kernel program fsd cond netd accountd idle region_top =
     kernel_init program fsd cond netd accountd (kernel_new\<lparr>k_idle_base := idle, k_region_top := region_top\<rparr>)"

lemma boot_task_fields:
  "k_states (boot_task s p k) = (if p = None then k_states k else (k_states k)(s := Runnable))"
  "k_gens (boot_task s p k) = k_gens k" "k_next_gen (boot_task s p k) = k_next_gen k"
  "k_prev_owners (boot_task s p k) = k_prev_owners k" "k_input_owner (boot_task s p k) = k_input_owner k"
  "k_kbd (boot_task s p k) = k_kbd k" "k_current (boot_task s p k) = k_current k" "k_calls (boot_task s p k) = k_calls k"
  "k_next_call (boot_task s p k) = k_next_call k" "k_mail (boot_task s p k) = k_mail k" "k_staging (boot_task s p k) = k_staging k"
  "k_env (boot_task s p k) = k_env k" "k_cwd (boot_task s p k) = k_cwd k" "k_ns (boot_task s p k) = k_ns k"
  "k_boot_core (boot_task s p k) = k_boot_core k" "k_doomed (boot_task s p k) = k_doomed k"
  "t \<noteq> s \<or> p = None \<Longrightarrow> k_argv (boot_task s p k) t = k_argv k t"
  "length (k_argv k t) \<le> ARGV_MAX \<Longrightarrow> length (k_argv (boot_task s p k) t) \<le> ARGV_MAX"
  by (auto simp: boot_task_def set_state_def set_name_def Let_def le_bytes4_def ARGV_CAP_def ARGV_MAX_def split: option.splits if_splits)

text \<open>The tables of a kernel no task has run on.\<close>

definition fresh_tables :: "kernel \<Rightarrow> bool" where
  "fresh_tables k \<longleftrightarrow> (\<forall>t. k_states k t = Runnable \<or> k_states k t = Unused) \<and> (\<forall>t<2. k_states k t = Runnable) \<and>
     k_prev_owners k = (\<lambda>_. 0) \<and> k_input_owner k = 0 \<and> k_kbd k = keyqueue_new 2 50 \<and>
     k_current k = (\<lambda>c. if c = 0 then FIRST else IDLE) \<and> k_calls k = (\<lambda>_. 0) \<and> k_next_call k = 1 \<and>
     k_mail k = (\<lambda>_. mailbox_new) \<and> k_staging k = k_staging kernel_new \<and>
     k_env k = (\<lambda>_. []) \<and> k_cwd k = (\<lambda>_. []) \<and> k_ns k = (\<lambda>_. []) \<and> k_boot_core k = 0 \<and> k_doomed k = (\<lambda>_. 0) \<and>
     (\<forall>t. length (k_argv k t) \<le> ARGV_MAX \<and> (k_states k t = Unused \<longrightarrow> k_argv k t = [])) \<and>
     0 < unat (k_next_gen k) \<and> unat (k_next_gen k) \<le> 12 \<and>
     (\<forall>t. unat (k_gens k t) < unat (k_next_gen k) \<and> (t < NUM_TASKS \<and> k_states k t \<noteq> Unused \<longrightarrow> k_gens k t \<noteq> 0))"

lemma boot_fresh: "fresh_tables (boot_kernel program fsd cond netd accountd idle region_top)"
proof -
  define k0 where "k0 = set_name 0 [0x73, 0x68, 0x65, 0x6c, 0x6c] (kernel_new\<lparr>k_idle_base := idle, k_region_top := region_top,
    k_tasks := (k_tasks kernel_new)(FIRST := initial_context program), k_regions := (k_regions kernel_new)(0 := lp_region program)\<rparr>)"
  define k1 where "k1 = set_name 1 [0x69, 0x64, 0x6c, 0x65] (k0\<lparr>k_tasks := (k_tasks k0)(1 := idle_context k0),
    k_regions := (k_regions k0)(1 := (k_idle_base k0, IDLE_REGION_SIZE))\<rparr>)"
  define k2 where "k2 = boot_task 5 accountd (boot_task 4 netd (boot_task 3 cond (boot_task 2 fsd k1)))"
  have b: "boot_kernel program fsd cond netd accountd idle region_top = fold issue_if_used [0..<NUM_TASKS] k2"
    by (simp add: boot_kernel_def kernel_init_def k0_def k1_def k2_def Let_def)
  note k0 = k0_def k1_def set_name_def Let_def kernel_new_def
  obtain n g where k: "fold issue_if_used [0..<NUM_TASKS] k2 = k2\<lparr>k_next_gen := n, k_gens := g\<rparr>" using issue_all_frame by blast
  have st: "k_states k2 t = (if t < 2 \<or> t = 2 \<and> fsd \<noteq> None \<or> t = 3 \<and> cond \<noteq> None \<or> t = 4 \<and> netd \<noteq> None \<or> t = 5 \<and> accountd \<noteq> None
      then Runnable else Unused)" for t by (auto simp: k2_def boot_task_fields k0)
  have f: "k_prev_owners k2 = (\<lambda>_. 0)" "k_input_owner k2 = 0" "k_kbd k2 = keyqueue_new 2 50" "k_current k2 = (\<lambda>c. if c = 0 then FIRST else IDLE)"
    "k_calls k2 = (\<lambda>_. 0)" "k_next_call k2 = 1" "k_mail k2 = (\<lambda>_. mailbox_new)" "k_staging k2 = k_staging kernel_new"
    "k_env k2 = (\<lambda>_. [])" "k_cwd k2 = (\<lambda>_. [])" "k_ns k2 = (\<lambda>_. [])" "k_boot_core k2 = 0" "k_doomed k2 = (\<lambda>_. 0)"
    "k_next_gen k2 = 1" "k_gens k2 = (\<lambda>_. 0)"
    by (simp_all add: k2_def boot_task_fields k0)
  have "length (k_argv k1 t) \<le> ARGV_MAX" for t by (simp add: k0 le_bytes4_def ARGV_CAP_def ARGV_MAX_def)
  then have l: "length (k_argv k2 t) \<le> ARGV_MAX" for t unfolding k2_def by (intro boot_task_fields(18))
  have e: "k_argv k2 t = []" if "k_states k2 t = Unused" for t
  proof -
    have "t \<noteq> 2 \<or> fsd = None" "t \<noteq> 3 \<or> cond = None" "t \<noteq> 4 \<or> netd = None" "t \<noteq> 5 \<or> accountd = None"
      using that st [of t] by (auto split: if_splits)
    then have "k_argv k2 t = k_argv k1 t" by (simp add: k2_def boot_task_fields(17))
    then show ?thesis using that st [of t] by (simp add: k0 split: if_splits)
  qed
  have "0 < unat n \<and> unat n \<le> 12 \<and> (\<forall>t. unat (g t) < unat n \<and> (t < NUM_TASKS \<and> k_states k2 t \<noteq> Unused \<longrightarrow> g t \<noteq> 0))"
    using issue_all_gens [OF f(14,15), of "[0..<NUM_TASKS]", unfolded k] by (simp add: NUM_TASKS_def)
  then show ?thesis unfolding b k using f l e by (simp add: fresh_tables_def st)
qed

lemma fresh_kinv:
  assumes "fresh_tables k"
  shows "kinv k"
proof -
  note f = assms [unfolded fresh_tables_def]
  have g: "gens_ok k" using f by (auto simp: gens_ok_def)
  have "owner_edges k = {}" using live_occupant_zero [OF g] f by (simp add: owner_edges_def)
  then have "input_ok k" using g f by (simp add: input_ok_def is_occupied_def acyclic_def)
  moreover have "cores_ok k" "calls_ok k" "mail_ok k" "staging_ok (k_staging k)"
    using f by (simp_all add: cores_ok_def calls_ok_def mail_ok_def staging_ok_def kernel_new_def FIRST_def IDLE_def NUM_TASKS_def)
  moreover have s: "k_states k t \<noteq> Zombie z" "is_occupied k t \<longleftrightarrow> k_states k t \<noteq> Unused" for t z
    using f by (auto simp: is_occupied_def) (metis task_state.distinct task_state.simps)+
  moreover have "stores_ok k" using f by (simp add: stores_ok_def s)
  moreover have "pinned k" using f by (simp add: pinned_def is_boot_def s)
  ultimately show ?thesis using f by (simp add: kinv_defs kbd_ok_def kq_inv_new)
qed

lemma boot_room:
  "room (boot_kernel program fsd cond netd accountd idle region_top)"
  "k_current (boot_kernel program fsd cond netd accountd idle region_top) = (\<lambda>c. if c = 0 then FIRST else IDLE)"
  using boot_fresh [of program fsd cond netd accountd idle region_top] by (auto simp: fresh_tables_def room_def)

text \<open>The servers the loader registers before the tables are set up.\<close>

definition boot_registry :: "(nat \<times> u8 list) list \<Rightarrow> entry list" where
  "boot_registry images = fold (\<lambda>(slot, img) reg. snd (register_server slot img reg)) images registry_new"

definition SERVERS :: "nat set" where "SERVERS = {FSD_TASK, CON_TASK, NET_TASK, ACCT_TASK}"

lemma update_first_set: "e \<in> set (update_first P f xs) \<Longrightarrow> e \<in> set xs \<or> (\<exists>x\<in>set xs. P x \<and> e = f x)"
  by (induction xs) (auto split: if_splits)

lemma reg_ok_register: "reg_ok reg \<Longrightarrow> slot \<in> SERVERS \<Longrightarrow> reg_ok (snd (register_server slot img reg))"
  by (auto simp: register_server_def registered_entry_def reset_liveness_def reg_ok_def update_entry_def SERVERS_def
      FSD_TASK_def CON_TASK_def NET_TASK_def ACCT_TASK_def IDLE_def FIRST_SPAWNABLE_def dest!: update_first_set)

lemma reg_ok_boot: "fst ` set images \<subseteq> SERVERS \<Longrightarrow> reg_ok (boot_registry images)"
proof -
  assume s: "fst ` set images \<subseteq> SERVERS"
  have "reg_ok (fold (\<lambda>(slot, img) reg. snd (register_server slot img reg)) xs reg)"
    if "reg_ok reg" "fst ` set xs \<subseteq> SERVERS" for xs reg
    using that by (induction xs arbitrary: reg) (auto simp: reg_ok_register)
  moreover have "reg_ok registry_new" by (simp add: reg_ok_def registry_new_def entry_empty_def)
  ultimately show ?thesis using s by (simp add: boot_registry_def)
qed

section \<open>Steps and runs\<close>

text \<open>A step is one entry of one core, with any registers, or a change of what the kernel does not write:
  the memory of the programs, the clock, what the devices answer, and which other cores are up.
  The boot shell and the idle task have no fault of their own: theirs halts the machine.\<close>

inductive kstep :: "u32 \<Rightarrow> machine \<Rightarrow> machine \<Rightarrow> bool" for net_intid where
  call: "\<lbrakk>core < MAX_CORES; k_current (fst m) core \<noteq> IDLE; number \<notin> set DEVICE_CALLS;
      dispatch number core frame a0 a1 a2 a3 m = Some (v, fr, m')\<rbrakk> \<Longrightarrow> kstep net_intid m m'"
| irq: "\<lbrakk>core < MAX_CORES; rust_irq_handler core net_intid intid reasons frame m = Some (fr, m')\<rbrakk> \<Longrightarrow> kstep net_intid m m'"
| fault: "\<lbrakk>core < MAX_CORES; \<not> is_boot_or_idle (k_current (fst m) core);
      rust_el0_fault_handler core frame m = Some (fr, m')\<rbrakk> \<Longrightarrow> kstep net_intid m m'"
| world: "kstep net_intid (k, reg) (k\<lparr>k_mem := mem, k_now_us := now, k_serial := serial, k_usb := usb, k_net_frame := net,
      k_secondaries := secondaries\<rparr>, reg)"

text \<open>A run goes on while the counters of generations and calls have room: at a million a second that is
  more than a thousand years.\<close>

inductive reachable :: "u32 \<Rightarrow> machine \<Rightarrow> bool" for net_intid where
  boot: "fst ` set images \<subseteq> SERVERS \<Longrightarrow>
    reachable net_intid (boot_kernel program fsd cond netd accountd idle region_top, boot_registry images)"
| step: "reachable net_intid m \<Longrightarrow> room (fst m) \<Longrightarrow> kstep net_intid m m' \<Longrightarrow> reachable net_intid m'"

inductive_cases kstep_elim: "kstep net_intid m m'"

lemma kinv_world:
  "kinv k \<Longrightarrow> kinv (k\<lparr>k_mem := mem, k_now_us := now, k_serial := serial, k_usb := usb, k_net_frame := net, k_secondaries := secondaries\<rparr>)"
  by (erule kinv_frame) simp_all

lemma kstep_keeps:
  assumes "kstep net_intid m m'" "minv m" "room (fst m)"
  shows "minv m'"
  using assms(1)
proof (cases rule: kstep.cases)
  case (call core number frame a0 a1 a2 a3 v fr)
  then show ?thesis using dispatch_ok [OF assms(2,3) call(1,2), of number frame a0 a1 a2 a3] by auto
next
  case (irq core intid reasons frame fr)
  then show ?thesis using irq_ok [OF assms(2) irq(1) assms(3), of net_intid intid reasons frame] by auto
next
  case (fault core frame fr)
  then show ?thesis using fault_ok [OF assms(2) fault(1) assms(3) fault(2), of frame] by auto
next
  case (world k reg)
  then show ?thesis using assms(2) kinv_world by (simp add: minv_def)
qed

lemma reachable_keeps: "reachable net_intid m \<Longrightarrow> minv m"
proof (induction rule: reachable.induct)
  case (boot images)
  then show ?case by (simp add: minv_def fresh_kinv boot_fresh reg_ok_boot)
next
  case (step m m')
  then show ?case by (auto intro: kstep_keeps)
qed

text \<open>What every kind of entry promises: made in a state it may be made in, it returns and keeps the invariant, and
  it is a step. The state after it is then one of a run again.\<close>

locale kernel_entry =
  fixes net_intid :: u32 and may_enter :: "machine \<Rightarrow> bool" and enter :: "machine \<Rightarrow> 'r option" and left :: "'r \<Rightarrow> machine"
  assumes returns: "minv m \<Longrightarrow> room (fst m) \<Longrightarrow> may_enter m \<Longrightarrow> \<exists>r. enter m = Some r \<and> minv (left r)"
    and is_step: "may_enter m \<Longrightarrow> enter m = Some r \<Longrightarrow> kstep net_intid m (left r)"
begin

lemma goes_on:
  assumes "reachable net_intid m" "room (fst m)" "may_enter m"
  shows "\<exists>r. enter m = Some r \<and> reachable net_intid (left r)"
proof -
  obtain r where "enter m = Some r" using returns [OF reachable_keeps [OF assms(1)] assms(2,3)] by blast
  then show ?thesis using reachable.step [OF assms(1,2) is_step [OF assms(3)]] by blast
qed

end

interpretation call_entry: kernel_entry net_intid
    "\<lambda>m. core < MAX_CORES \<and> k_current (fst m) core \<noteq> IDLE \<and> number \<notin> set DEVICE_CALLS"
    "dispatch number core frame a0 a1 a2 a3" "\<lambda>r. snd (snd r)" for net_intid core number frame a0 a1 a2 a3
  by unfold_locales (use dispatch_ok in \<open>fastforce\<close>, auto intro: kstep.call)

interpretation irq_entry: kernel_entry net_intid "\<lambda>m. core < MAX_CORES"
    "rust_irq_handler core net_intid intid reasons frame" snd for net_intid core intid reasons frame
  by unfold_locales (use irq_ok in \<open>fastforce\<close>, auto intro: kstep.irq)

interpretation fault_entry: kernel_entry net_intid "\<lambda>m. core < MAX_CORES \<and> \<not> is_boot_or_idle (k_current (fst m) core)"
    "rust_el0_fault_handler core frame" snd for net_intid core frame
  by unfold_locales (use fault_ok in \<open>fastforce\<close>, auto intro: kstep.fault)


text \<open>(C2) What holds in every state a run reaches: the task of a core is runnable, and no two cores run
  one task, the idle task apart; only the boot core runs the shell and the servers; a task identity names
  one task; the boot shell and the owner of the keyboard are alive, and the owners the keyboard falls back
  to form no cycle; no mailbox holds more than its depth, and the tables of a task stay in their bounds.\<close>

theorem reachable_invariant:
  assumes "reachable net_intid m" "k = fst m"
  shows "(\<forall>c<MAX_CORES. k_current k c < NUM_TASKS \<and> k_states k (k_current k c) = Runnable) \<and>
    (\<forall>c<MAX_CORES. \<forall>d<MAX_CORES. c \<noteq> d \<and> k_current k c = k_current k d \<longrightarrow> k_current k c = IDLE) \<and>
    (\<forall>c<MAX_CORES. \<not> is_boot k c \<longrightarrow> k_current k c = IDLE \<or> is_spawnable (k_current k c)) \<and>
    (\<forall>s t ident. task_id_of k s = Some ident \<and> task_id_of k t = Some ident \<longrightarrow> s = t) \<and>
    is_occupied k FIRST \<and> is_occupied k (k_input_owner k) \<and> acyclic (owner_edges k) \<and>
    (\<forall>t<NUM_TASKS. length (mb_items (k_mail k t)) \<le> MSG_QUEUE_DEPTH \<and> length (k_argv k t) \<le> ARGV_MAX \<and>
       length (k_env k t) \<le> ENV_MAX \<and> length (k_cwd k t) \<le> CWD_MAX \<and> length (k_ns k t) \<le> NS_MAX)"
proof -
  have k: "kinv k" using reachable_keeps [OF assms(1)] by (simp add: minv_def assms(2))
  have "task_id_slot ident = t" if "task_id_of k t = Some ident" for t ident
    using that by (auto simp: task_id_of_def NUM_TASKS_def split: if_splits)
  then have "s = t" if "task_id_of k s = Some ident" "task_id_of k t = Some ident" for s t ident using that by blast
  moreover have "length (mb_items (k_mail k t)) \<le> MSG_QUEUE_DEPTH" if "t < NUM_TASKS" for t
    using k that by (auto simp: kinv_defs mail_ok_def mb_ok_def mb_items_def ring_simps)
  ultimately show ?thesis
    using k by (auto simp: kinv_defs cores_ok_def kbd_ok_def input_ok_def pinned_def stores_ok_def FIRST_def)
qed

definition sample_boot :: machine where
  "sample_boot = (boot_kernel \<lparr>lp_base = 0x40000000, lp_size = 0x200000, lp_entry = 0x40000000\<rparr> None None None None 0x80000 0x50000000,
     boot_registry [])"

lemma sample_boot_reachable: "reachable net_intid sample_boot"
  unfolding sample_boot_def by (rule reachable.boot) simp


theorem reachable_invariant_witness:
  "is_occupied (fst sample_boot) FIRST \<and> acyclic (owner_edges (fst sample_boot))"
  using reachable_invariant [OF sample_boot_reachable [of 34] refl] by blast

section \<open>Identities\<close>

text \<open>A task that asks for identities, again and again: each time it is the task of some core, and the memory
  of the programs is whatever it is.\<close>

fun set_ids :: "nat \<Rightarrow> (nat \<times> (u64 \<Rightarrow> u8) \<times> u64 \<times> u64 \<times> u64 \<times> u64) list \<Rightarrow> kernel \<Rightarrow> kernel" where
  "set_ids t [] k = k"
| "set_ids t ((core, mem, a0, a1, a2, a3) # calls) k =
     set_ids t calls (snd (sys_set_id core a0 a1 a2 a3 (k\<lparr>k_mem := mem, k_current := (k_current k)(core := t)\<rparr>)))"

text \<open>A task that is not root, and was not before either, keeps its identity and gains no group.\<close>

lemma set_id_kept:
  assumes "uid_of k t \<noteq> 0" "k_saved_ids k t = k_ids k t" "k_current k core = t" "sys_set_id core a0 a1 a2 a3 k = (v, k')"
  shows "k_ids k' t = k_ids k t \<and> k_saved_ids k' t = k_ids k t \<and> (k_group_counts k' t = 0 \<or> k_group_counts k' t = k_group_counts k t) \<and>
    k_groups k' t = k_groups k t"
  using assms by (auto simp: sys_set_id_def Let_def saved_id_of_def apply_id_def set_groups_def read_gids_def split: if_splits)

lemma set_ids_kept:
  assumes "uid_of k t \<noteq> 0" "k_saved_ids k t = k_ids k t"
  shows "k_ids (set_ids t calls k) t = k_ids k t \<and> k_groups (set_ids t calls k) t = k_groups k t \<and>
    (k_group_counts (set_ids t calls k) t = 0 \<or> k_group_counts (set_ids t calls k) t = k_group_counts k t)"
  using assms
proof (induction t calls k rule: set_ids.induct)
  case (2 t core mem a0 a1 a2 a3 calls k)
  let ?k = "k\<lparr>k_mem := mem, k_current := (k_current k)(core := t)\<rparr>"
  obtain v k' where r: "sys_set_id core a0 a1 a2 a3 ?k = (v, k')" by (cases "sys_set_id core a0 a1 a2 a3 ?k")
  have "k_ids k' t = k_ids k t \<and> k_saved_ids k' t = k_ids k t \<and> (k_group_counts k' t = 0 \<or> k_group_counts k' t = k_group_counts k t) \<and>
      k_groups k' t = k_groups k t"
    using set_id_kept [of ?k t core] r 2(2,3) by (simp add: uid_of_def)
  then show ?case using 2 r by (auto simp: uid_of_def)
qed simp

lemma attach_staged_groups:
  "k_groups (attach_staged c s tgt st al cl el k) =
     (k_groups k)(c := take (min (k_group_counts k s) MAX_SUPP_GROUPS) (k_groups k s) @
        drop (min (k_group_counts k s) MAX_SUPP_GROUPS) (k_groups k c))"
  unfolding attach_staged_def Let_def inherit_id_def set_namespace_def set_stdout_target_def by simp

text \<open>(C3) A program a user starts stays the user's. When a task whose identity is not root's starts a program, the
  program has that identity, and whatever identities and groups it asks for, as often as it likes, it
  never becomes root or any other user, and never gains a group its parent did not have.\<close>

theorem child_keeps_identity:
  assumes "sys_spawn core a0 a1 a2 a3 k = (v, k')" "unat v < NUM_TASKS" "uid_of k (k_current k core) \<noteq> 0"
    and "s = k_current k core" "c = unat v" "k_group_counts k s \<le> MAX_SUPP_GROUPS" "length (k_groups k s) = MAX_SUPP_GROUPS"
  shows "id_of (set_ids c calls k') c = id_of k s \<and> uid_of (set_ids c calls k') c \<noteq> 0 \<and>
    set (take (k_group_counts (set_ids c calls k') c) (k_groups (set_ids c calls k') c)) \<subseteq> set (take (k_group_counts k s) (k_groups k s))"
proof -
  have i: "k_ids k' c = k_ids k s \<and> k_saved_ids k' c = k_ids k s \<and> k_group_counts k' c = k_group_counts k s \<and>
      take (k_group_counts k s) (k_groups k' c) = take (k_group_counts k s) (k_groups k s)"
    by (rule sys_spawn_made [OF assms(1,2)])
       (use assms(4-7) in \<open>simp add: release_staging_def pending_env_len_def attach_staged_fields attach_staged_groups spawn_in_fields\<close>)
  have u: "uid_of k' c \<noteq> 0" using i assms(3,4) by (simp add: uid_of_def)
  show ?thesis using set_ids_kept [OF u, of calls] i assms(3,4) by (auto simp: id_of_def uid_of_def)
qed

section \<open>Replies\<close>

definition begin_calls :: "nat list \<Rightarrow> kernel \<Rightarrow> kernel" where
  "begin_calls callers k = fold (\<lambda>t k. snd (begin_call t k)) callers k"

text \<open>A number is never given to a second call.\<close>

lemma begin_calls_fresh:
  assumes "unat (k_next_call k) + length callers < 2 ^ 56" "unat n < unat (k_next_call k)" "k_calls k t \<noteq> n"
  shows "k_calls (begin_calls callers k) t \<noteq> n"
  using assms unfolding begin_calls_def
proof (induction callers arbitrary: k)
  case (Cons x xs)
  have "unat (k_next_call k + 1) = unat (k_next_call k) + 1" using Cons.prems(1) by (simp add: unat_word_ariths)
  moreover have "snd (begin_call x k) = k\<lparr>k_next_call := k_next_call k + 1, k_calls := (k_calls k)(x := k_next_call k)\<rparr>"
    by (simp add: begin_call_def Let_def)
  moreover have "n \<noteq> k_next_call k" using Cons.prems(2) by auto
  ultimately show ?case using Cons.IH [of "snd (begin_call x k)"] Cons.prems by simp
qed simp


theorem child_keeps_identity_witness:
  "uid_of (set_ids 7 [(3, \<lambda>_. 0, 0, 0, 0, 0), (0, \<lambda>_. 0, 1001, 1001, 0, 0)] (snd (sys_spawn 0 120 3 0 0 sample_stager))) 7 \<noteq> 0"
proof -
  obtain k' where r: "sys_spawn 0 120 3 0 0 sample_stager = (7, k')"
    using sample_spawn by (cases "sys_spawn 0 120 3 0 0 sample_stager") auto
  have u: "uid_of sample_stager (k_current sample_stager 0) \<noteq> 0"
    by (simp add: sample_stager_ok(3) uid_of_def) (simp add: sample_stager_def sample_owner_def kernel_new_def)
  have g: "k_group_counts sample_stager 6 \<le> MAX_SUPP_GROUPS" "length (k_groups sample_stager 6) = MAX_SUPP_GROUPS"
    by (simp_all add: sample_stager_def sample_owner_def kernel_new_def)
  from child_keeps_identity [OF r _ u refl refl, of "[(3, \<lambda>_. 0, 0, 0, 0, 0), (0, \<lambda>_. 0, 1001, 1001, 0, 0)]"] g show ?thesis
    by (simp add: r sample_stager_ok(3) NUM_TASKS_def)
qed

definition sample_server :: kernel where
  "sample_server = sample_client\<lparr>k_current := (\<lambda>c. if c = 0 then 2 else IDLE)\<rparr>"


end
