(* ===== verification/Spec2Isabelle.thy ===== *)
theory Spec2Isabelle
  imports Ninep_Readdir Ninep_Names Part_Boot Regex_Engine Kernel_Regions Kernel_Run
begin

text \<open>
  A model of the Ouroboros operating system, a small multi-core microkernel in Rust for 64-bit Arm with its
  servers and programs, and proofs of what makes the modelled parts correct.

  \<^bold>\<open>The program.\<close> The kernel (\<open>src/kernel/\<close>) keeps eleven task slots: the boot shell in slot 0, the idle task in
  slot 1, four servers (file system, console, network, accounts) in slots 2 to 5, spawned programs in the rest.
  Tasks call the kernel by numbered system calls; servers are called by messages that pass through four-deep
  mailboxes, and answer with replies that name the call; a caller may grant a server part of its memory. One
  task at a time owns the keyboard, whose bytes wait in a queue that keeps whole keys together. A program is
  started from an image that is staged into the kernel piece by piece. A supervisor restarts servers that
  crash or hang. Beside the kernel stand the libraries it shares with the programs: the key filter and queue
  (\<open>src/keyseq/\<close>), the file protocol's client and naming rules (\<open>src/ninep-abi/\<close>, \<open>src/nsresolve/\<close>), the
  reader of partition tables (\<open>src/parttable/\<close>), and the regular expressions of \<open>grep\<close> (\<open>src/regex/\<close>).

  \<^bold>\<open>The theories\<close>, in the order they build on each other.

  \<^item> \<open>Prelude\<close>: integer widths, checked and saturating arithmetic, ring buffers as lists, and the locale
    \<open>fifo_reader\<close> of a queue that is read from the front; the mailboxes and the key queue interpret it.
  \<^item> \<open>Keyseq\<close>, \<open>Key_Queue\<close>: \<open>src/keyseq/src/lib.rs\<close> (\<open>KeySeq::feed\<close>) and \<open>queue.rs\<close> (\<open>KeyQueue\<close>). The filter recognises
    whole keys; the queue is a first-in first-out list of bytes that never keeps or drops part of a key.
  \<^item> \<open>Ninep_Readdir\<close>: \<open>readdir_pages\<close> and \<open>ReaddirFill\<close> of \<open>src/ninep-abi/src/lib.rs\<close>. The two halves together list a
    directory completely. The client's loop has fuel for its pages; the statement gives the fuel that is enough.
  \<^item> \<open>Ninep_Names\<close>: open flags, identity words, \<open>resolve_ns\<close>, \<open>is_within\<close>, and the C entry point of
    \<open>src/nsresolve/src/lib.rs\<close>. The longest binding decides; \<open>is_within\<close> is the prefix order of components.
  \<^item> \<open>Part_Table\<close>, \<open>Part_Boot\<close>: \<open>src/parttable/src/lib.rs\<close>. When a GPT copy is taken for valid, exactly; CRC-32 finds
    every change of one byte; what is listed lies on the disk; the boot partition is one of those listed.
  \<^item> \<open>Regex\<close>: \<open>src/regex/src/lib.rs\<close>, the parser with its arena of nodes (\<open>parse_alt\<close> and what it calls), the emitter (\<open>gen\<close>) and the
    backtracking machine (\<open>run\<close>, \<open>search\<close>, \<open>is_match\<close>). The recursions of the parser have fuel, four calls for each byte of the longest pattern,
    and \<open>nullable\<close> and \<open>gen\<close> have one call for each node; \<open>compile\<close> is shown to return on every pattern.
  \<^item> \<open>Regex_Machine\<close>, \<open>Regex_Compile\<close>, \<open>Regex_Class\<close>, \<open>Regex_Parse\<close>: expressions and what they match (\<open>ere\<close>, \<open>match_at\<close>); that the machine decides
    the matches of the code laid out for an expression; that the emitter lays out that code; that bracket expressions and
    whole patterns are read as the grammar (\<open>g_class\<close>, \<open>g_alt\<close>) says.
  \<^item> \<open>Regex_Engine\<close>: the parts together. An answer other than the limit is right; no thread runs forever; a pattern without
    operators is always decided.
  \<^item> \<open>Kernel_State\<close>: the tables of \<open>src/kernel/src/tasks.rs\<close> as the record \<open>kernel\<close>, slots, packed identities.
  \<^item> \<open>Kernel_Ipc\<close>: send rights, credentials, mailboxes, calls, replies, grants, \<open>safecopy\<close>. A mailbox refines a
    bounded queue; what is received is what was sent; a copy stays inside what was granted.
  \<^item> \<open>Kernel_Input\<close>: the owner of the keyboard, interrupt and quit keys, reading ahead (\<open>tasks.rs\<close>, \<open>syscall.rs\<close>).
  \<^item> \<open>Kernel_Sched\<close>: placement of tasks on cores, the round-robin pick, switching and blocking, kicks (\<open>tasks.rs\<close>,
    \<open>smp.rs\<close>). Every task that may run on a core is picked within one round.
  \<^item> \<open>Loader\<close>: \<open>src/kernel/src/loader.rs\<close>. The region a program gets, and that it is filled as the image says.
  \<^item> \<open>Kernel_Life\<close>: regions, stores, spawn, boot, end, kill (\<open>tasks.rs\<close>). An end leaves nothing of the task behind.
  \<^item> \<open>Kernel_Spawn\<close>: checks of user pointers, the staging calls and \<open>spawn_staged\<close> (\<open>syscall.rs\<close>). The staging refines one
    abstract buffer with an owner, and a spawn starts from what its own caller staged.
  \<^item> \<open>Kernel_Regions\<close>: regions of live tasks do not overlap, and what the allocator leaks.
  \<^item> \<open>Supervisor\<close>: \<open>src/kernel/src/supervisor.rs\<close>. When a server is taken for dead, exactly; restarts are capped.
  \<^item> \<open>Kernel_Syscall\<close>: the dispatcher of \<open>syscall.rs\<close> and its arms; a table from numbers to functions.
  \<^item> \<open>Kernel_Tick\<close>: the polls of blocked tasks, \<open>on_tick\<close> (\<open>tasks.rs\<close>), interrupts and faults (\<open>exceptions.rs\<close>).
  \<^item> \<open>Kernel_Inv\<close>, \<open>Kernel_Call_Inv\<close>, \<open>Kernel_Steps\<close>: the invariant \<open>kinv\<close> of the kernel's tables, and that every
    operation, every arm of the dispatcher, the tick, the interrupts and the faults keep it.
  \<^item> \<open>Kernel_Run\<close>: the boot, the step relation \<open>kstep\<close> and the states a run reaches. The locale \<open>kernel_entry\<close> is the contract
    of an entry; the system call, the interrupt and the fault interpret it. No entry of a run halts the machine.

  \<^bold>\<open>How state and operations are written.\<close> The kernel takes every entry under one lock, so an operation is a function
  from one \<open>kernel\<close> record to the next; the core it runs on is an argument. \<open>machine\<close> adds the registry of the
  supervisor. A function that may halt the machine answers an option, and \<open>None\<close> is the halt. Errors are the codes of
  \<open>src/syscall-abi/src/lib.rs\<close>. Memory is a function from addresses to bytes. Values of a register are 64-bit words;
  lengths and indexes are natural numbers. What the kernel reads of the devices (the clock, the answers of the keyboards, whether a frame is in) are
  fields of the record that \<open>kstep\<close> may change between entries. A program may put anything in its registers and its own
  memory: an entry takes any frame.

  \<^bold>\<open>Bounds.\<close> The generation of a task has 55 bits and the number of a call 56 before they would run into the slot they are
  packed with. \<open>room\<close> says they are not used up, and a run is continued only while it holds; at a million spawns
  a second that is a thousand years. Sums the code writes with a plain plus wrap, as they do in a release build.
  The machine of \<open>Regex\<close> has the limits of its source on steps and stack as they are, and \<open>Match_Limit\<close> is its answer there.

  \<^bold>\<open>Not modelled.\<close> The arms of the dispatcher that drive a device (\<open>DEVICE_CALLS\<close>), and the drivers under them (USB, SD, PCI, virtio,
  serial ports, framebuffer, interrupt controllers): they write device registers, whose behaviour the sources do not
  give. Page tables, caches, barriers and the vectors in assembly: the model has one memory, and the frame the
  vectors build is its \<open>cpu_context\<close>. Firmware calls at boot. Console messages. The servers and programs over the system calls (\<open>src/programs/\<close>),
  and the wrappers in \<open>src/ulib/\<close>. The C library is not Rust.
\<close>

end
